(* ===== verification/Prelude.thy ===== *)
theory Prelude
  imports Main "HOL-Library.Word" "HOL-Library.Monad_Syntax"
begin

unbundle bit_operations_syntax

text \<open>
  Shared vocabulary of the development: the machine integers of the code under their
  C names, bytes against characters, nul-terminated strings, and the generic facts
  about lists, words and characters that several components use.  The collection
  \<open>mask_simps\<close> gathers the facts about tests of single flag bits; the collection
  \<open>slice_simps\<close> those about \<open>take\<close>/\<open>drop\<close> slices of byte buffers.
\<close>

named_theorems mask_simps "tests and updates of single bits of a flag word"
named_theorems slice_simps "slices of byte buffers"

type_synonym u8 = "8 word"
type_synonym u16 = "16 word"
type_synonym u32 = "32 word"
type_synonym u64 = "64 word"

section \<open>Characters as numbers\<close>

abbreviation ord :: "char \<Rightarrow> nat" where
  "ord c \<equiv> of_char c"

abbreviation NUL :: char where
  "NUL \<equiv> CHR 0x00"

lemma ord_less_256: "ord c < 256"
  by simp

definition byte_of :: "char \<Rightarrow> u8" where
  "byte_of c = of_nat (ord c)"

definition char_of_byte :: "u8 \<Rightarrow> char" where
  "char_of_byte b = char_of (unat b)"

lemma unat_byte_of [simp]: "unat (byte_of c) = ord c"
  by (simp add: byte_of_def unat_of_nat take_bit_nat_eq_self)

lemma char_of_byte_of [simp]: "char_of_byte (byte_of c) = c"
  by (simp add: char_of_byte_def)

lemma byte_of_char_of_byte [simp]: "byte_of (char_of_byte b) = b"
proof -
  have "unat b < 2 ^ LENGTH(8)" by (rule unsigned_less)
  then have "unat b < 256" by simp
  then show ?thesis by (simp add: char_of_byte_def byte_of_def)
qed

lemma u8_bit_high: "8 \<le> k \<Longrightarrow> \<not> bit (x :: u8) k"
  using bit_imp_le_length [of x k] by auto

section \<open>Slices and element access\<close>

lemma take_append_drop_slice [slice_simps]:
  "take i xs @ take j (drop i xs) = take (i + j) xs"
  by (simp add: take_add)

lemma list_chunk_induct:
  assumes "0 < n"
    and "\<And>xs. length xs < n \<Longrightarrow> P xs"
    and "\<And>xs. n \<le> length xs \<Longrightarrow> P (drop n xs) \<Longrightarrow> P xs"
  shows "P xs"
proof (induction xs rule: length_induct)
  case (1 xs)
  show ?case
  proof (cases "length xs < n")
    case True
    then show ?thesis by (rule assms(2))
  next
    case False
    with \<open>0 < n\<close> have "length (drop n xs) < length xs" by simp
    then have "P (drop n xs)" by (rule 1 [rule_format])
    from False have "n \<le> length xs" by simp
    from this \<open>P (drop n xs)\<close> show ?thesis by (rule assms(3))
  qed
qed

section \<open>Checked memory accesses\<close>

text \<open>
  A load or store through a C pointer into a block of memory is undefined outside it:
  \<open>peek\<close> and \<open>poke\<close> return \<open>None\<close> there, so that a routine that returns \<open>Some\<close>
  has stayed inside its buffers.
\<close>

definition peek :: "'a list \<Rightarrow> nat \<Rightarrow> 'a option" where
  "peek m i = (if i < length m then Some (m ! i) else None)"

definition poke :: "'a list \<Rightarrow> nat \<Rightarrow> 'a \<Rightarrow> 'a list option" where
  "poke m i x = (if i < length m then Some (m[i := x]) else None)"

lemma peek_in [simp]: "i < length m \<Longrightarrow> peek m i = Some (m ! i)"
  by (simp add: peek_def)

lemma poke_in [simp]: "i < length m \<Longrightarrow> poke m i x = Some (m[i := x])"
  by (simp add: poke_def)

lemma peek_out [simp]: "length m \<le> i \<Longrightarrow> peek m i = None"
  by (simp add: peek_def)

lemma poke_out [simp]: "length m \<le> i \<Longrightarrow> poke m i x = None"
  by (simp add: poke_def)

section \<open>Nul-terminated strings\<close>

text \<open>
  A C string is the prefix of its memory up to the first nul byte.  \<open>c_str\<close> cuts it
  out, \<open>nul_free\<close> says that a list holds no nul byte, so that \<open>strlen\<close> of its
  memory image is its length.
\<close>

definition c_str :: "char list \<Rightarrow> char list" where
  "c_str m = takeWhile (\<lambda>c. c \<noteq> NUL) m"

definition nul_free :: "char list \<Rightarrow> bool" where
  "nul_free s \<longleftrightarrow> NUL \<notin> set s"

lemma c_str_nul_free [simp]: "nul_free s \<Longrightarrow> c_str s = s"
  by (auto simp: c_str_def nul_free_def intro: takeWhile_eq_all_conv [THEN iffD2])

lemma c_str_append_nul [simp]: "c_str (s @ NUL # r) = c_str s"
  by (induction s) (simp_all add: c_str_def)

lemma nul_free_append [simp]: "nul_free (s @ t) \<longleftrightarrow> nul_free s \<and> nul_free t"
  by (auto simp: nul_free_def)

lemma nul_free_Cons [simp]: "nul_free (c # s) \<longleftrightarrow> c \<noteq> NUL \<and> nul_free s"
  by (auto simp: nul_free_def)

lemma nul_free_Nil [simp]: "nul_free []"
  by (simp add: nul_free_def)

text \<open>
  The byte at an index of the memory image of a string, its nul byte included; beyond it a
  load is out of bounds.
\<close>

definition c_char_at :: "char list \<Rightarrow> nat \<Rightarrow> char option" where
  "c_char_at s i = (if i < length s then Some (s ! i) else if i = length s then Some NUL else None)"

lemma c_char_at_in [simp]: "i < length s \<Longrightarrow> c_char_at s i = Some (s ! i)"
  by (simp add: c_char_at_def)

lemma c_char_at_end [simp]: "c_char_at s (length s) = Some NUL"
  by (simp add: c_char_at_def)

abbreviation BSL :: char where "BSL \<equiv> CHR 0x5C"
abbreviation DQ :: char where "DQ \<equiv> CHR 0x22"

section \<open>Decimal numbers\<close>

text \<open>The digits \<open>printf\<close> writes for a non-negative number, and the value of a string of digits.\<close>

fun dec_digits :: "nat \<Rightarrow> char list" where
  "dec_digits n = (if n < 10 then [char_of (48 + n)] else dec_digits (n div 10) @ [char_of (48 + n mod 10)])"

declare dec_digits.simps [simp del]

definition dec_value :: "char list \<Rightarrow> nat" where
  "dec_value s = foldl (\<lambda>v c. v * 10 + (ord c - 48)) 0 s"

definition is_decimal :: "char list \<Rightarrow> bool" where
  "is_decimal s \<longleftrightarrow> s \<noteq> [] \<and> (\<forall>c\<in>set s. 48 \<le> ord c \<and> ord c \<le> 57)"

lemma dec_value_digits [simp]: "dec_value (dec_digits n) = n"
proof (induction n rule: dec_digits.induct)
  case (1 n)
  show ?case
  proof (cases "n < 10")
    case True
    then show ?thesis by (subst dec_digits.simps) (simp add: dec_value_def)
  next
    case False
    have "n mod 10 < 10" by simp
    then have "ord (char_of (48 + n mod 10) :: char) = 48 + n mod 10" by (simp add: take_bit_nat_eq_self)
    with 1 False show ?thesis by (subst dec_digits.simps) (simp add: dec_value_def)
  qed
qed

lemma is_decimal_digits [simp]: "is_decimal (dec_digits n)"
proof (induction n rule: dec_digits.induct)
  case (1 n)
  have "48 \<le> ord (char_of (48 + k) :: char) \<and> ord (char_of (48 + k) :: char) \<le> 57" if "k < 10" for k :: nat
    using that by (simp add: take_bit_nat_eq_self)
  with 1 show ?case by (subst dec_digits.simps) (auto simp: is_decimal_def)
qed

lemma nul_free_decimal [simp]: "is_decimal s \<Longrightarrow> nul_free s"
  by (auto simp: is_decimal_def nul_free_def)

lemma length_dec_digits: "n < 10 ^ k \<Longrightarrow> 0 < k \<Longrightarrow> length (dec_digits n) \<le> k"
proof (induction n arbitrary: k rule: dec_digits.induct)
  case (1 n)
  show ?case
  proof (cases "n < 10")
    case True
    with 1(3) show ?thesis by (subst dec_digits.simps) simp
  next
    case False
    obtain j where k: "k = Suc j" using 1(3) by (cases k) auto
    with False 1(2) have "n div 10 < 10 ^ j" "0 < j" by (cases j; simp add: less_mult_imp_div_less mult.commute)+
    with False k 1(1) show ?thesis by (subst dec_digits.simps) simp
  qed
qed

text \<open>\<open>atoi\<close> and \<open>_atoi64\<close>: white space, a sign, digits; a value that does not fit is undefined.\<close>

definition is_c_space :: "char \<Rightarrow> bool" where
  "is_c_space c \<longleftrightarrow> c = CHR '' '' \<or> 9 \<le> ord c \<and> ord c \<le> 13"

definition leading_digits :: "char list \<Rightarrow> char list" where
  "leading_digits s = takeWhile (\<lambda>c. 48 \<le> ord c \<and> ord c \<le> 57) s"

definition c_number :: "char list \<Rightarrow> int" where
  "c_number s = (case dropWhile is_c_space s of
      [] \<Rightarrow> 0
    | c # r \<Rightarrow> if c = CHR ''-'' then - int (dec_value (leading_digits r))
        else if c = CHR ''+'' then int (dec_value (leading_digits r))
        else int (dec_value (leading_digits (c # r))))"

definition atoi :: "char list \<Rightarrow> u32 option" where
  "atoi s = (let n = c_number s in if - (2 ^ 31) \<le> n \<and> n < 2 ^ 31 then Some (of_int n) else None)"

definition atoi64 :: "char list \<Rightarrow> u64 option" where
  "atoi64 s = (let n = c_number s in if - (2 ^ 63) \<le> n \<and> n < 2 ^ 63 then Some (of_int n) else None)"

lemma takeWhile_decimal: "is_decimal s \<Longrightarrow> leading_digits s = s"
  by (simp add: leading_digits_def is_decimal_def takeWhile_eq_all_conv)

lemma c_number_digits [simp]: "c_number (dec_digits n) = int n"
proof (cases "dec_digits n")
  case Nil
  then show ?thesis using is_decimal_digits [of n] by (simp add: is_decimal_def)
next
  case (Cons c r)
  have "48 \<le> ord c \<and> ord c \<le> 57" using is_decimal_digits [of n] by (simp add: is_decimal_def Cons)
  then have "\<not> is_c_space c" "c \<noteq> CHR ''-''" "c \<noteq> CHR ''+''" by (auto simp: is_c_space_def)
  moreover have "leading_digits (c # r) = c # r"
    using takeWhile_decimal [OF is_decimal_digits [of n]] by (simp add: Cons)
  moreover have "dec_value (c # r) = n" using dec_value_digits [of n] by (simp add: Cons)
  ultimately show ?thesis by (simp add: c_number_def Cons)
qed

lemma c_number_minus [simp]: "c_number (CHR ''-'' # dec_digits n) = - int n"
  by (simp add: c_number_def is_c_space_def takeWhile_decimal)

end
