(* ===== verification/Sha1.thy ===== *)
theory Sha1
  imports Prelude
begin

text \<open>
  \<open>src/ServerEngine/crypt/sha1.c\<close>: the SHA-1 context, the unrolled block transform
  over a circular schedule of sixteen words, the streaming update and the padding, and
  \<open>crypt_sha1\<close> on one buffer.  The reference definition is the message-digest
  computation of FIPS 180-1, with an eighty-word schedule and unconditional padding;
  \<open>crypt_sha1\<close> is proved to compute it for every message below \<open>2 ^ 29\<close> bytes.
  Above that size the sixty-four-bit build counts the bits wrongly.
\<close>

section \<open>The code\<close>

text \<open>\<open>rol\<close>, and a 64-byte block read as sixteen little-endian words.\<close>

definition rol :: "u32 \<Rightarrow> nat \<Rightarrow> u32" where
  "rol value bits = push_bit bits value OR drop_bit (32 - bits) value"

definition le_word :: "u8 list \<Rightarrow> u32" where
  "le_word bs = ucast (bs ! 0) OR push_bit 8 (ucast (bs ! 1))
     OR push_bit 16 (ucast (bs ! 2)) OR push_bit 24 (ucast (bs ! 3))"

definition block_of :: "u8 list \<Rightarrow> u32 list" where
  "block_of buffer = map (\<lambda>i. le_word (take 4 (drop (4 * i) buffer))) [0..<16]"

text \<open>\<open>blk0\<close> and \<open>blk\<close> update the block in place and return the word.\<close>

definition blk0 :: "u32 list \<Rightarrow> nat \<Rightarrow> u32 \<times> u32 list" where
  "blk0 l i =
     (let v = (rol (l ! i) 24 AND 0xFF00FF00) OR (rol (l ! i) 8 AND 0x00FF00FF)
      in (v, l[i := v]))"

definition blk :: "u32 list \<Rightarrow> nat \<Rightarrow> u32 \<times> u32 list" where
  "blk l i =
     (let v = rol (l ! ((i + 13) mod 16) XOR l ! ((i + 8) mod 16)
                   XOR l ! ((i + 2) mod 16) XOR l ! (i mod 16)) 1
      in (v, l[i mod 16 := v]))"

text \<open>
  The five working variables are the list \<open>[a, b, c, d, e]\<close>; a round names the
  variables it uses as the macro call does.
\<close>

datatype round_kind = R0 | R1 | R2 | R3 | R4

definition round_mix :: "round_kind \<Rightarrow> u32 \<Rightarrow> u32 \<Rightarrow> u32 \<Rightarrow> u32" where
  "round_mix k w x y = (case k of
      R0 \<Rightarrow> (w AND (x XOR y)) XOR y
    | R1 \<Rightarrow> (w AND (x XOR y)) XOR y
    | R2 \<Rightarrow> w XOR x XOR y
    | R3 \<Rightarrow> ((w OR x) AND y) OR (w AND x)
    | R4 \<Rightarrow> w XOR x XOR y)"

definition round_const :: "round_kind \<Rightarrow> u32" where
  "round_const k = (case k of R0 \<Rightarrow> 0x5A827999 | R1 \<Rightarrow> 0x5A827999
     | R2 \<Rightarrow> 0x6ED9EBA1 | R3 \<Rightarrow> 0x8F1BBCDC | R4 \<Rightarrow> 0xCA62C1D6)"

definition sched_word :: "round_kind \<Rightarrow> u32 list \<Rightarrow> nat \<Rightarrow> u32 \<times> u32 list" where
  "sched_word k l i = (if k = R0 then blk0 l i else blk l i)"

fun exec_round ::
  "round_kind \<times> nat \<times> nat \<times> nat \<times> nat \<times> nat \<times> nat \<Rightarrow> u32 list \<times> u32 list \<Rightarrow> u32 list \<times> u32 list" where
  "exec_round (k, v, w, x, y, z, i) (r, l) =
     (let (m, l') = sched_word k l i;
          r1 = r[z := r ! z + (round_mix k (r ! w) (r ! x) (r ! y) + m + round_const k + rol (r ! v) 5)];
          r2 = r1[w := rol (r1 ! w) 30]
      in (r2, l'))"

text \<open>
  The eighty calls of \<open>SHA1_Transform\<close>.  Consecutive calls rotate the roles of the
  five variables to the right, which the code writes out in groups of five.
\<close>

definition five_rounds :: "(nat \<Rightarrow> round_kind) \<Rightarrow> nat \<Rightarrow>
    (round_kind \<times> nat \<times> nat \<times> nat \<times> nat \<times> nat \<times> nat) list" where
  "five_rounds k i =
     [(k i, 0, 1, 2, 3, 4, i), (k (i + 1), 4, 0, 1, 2, 3, i + 1),
      (k (i + 2), 3, 4, 0, 1, 2, i + 2), (k (i + 3), 2, 3, 4, 0, 1, i + 3),
      (k (i + 4), 1, 2, 3, 4, 0, i + 4)]"

definition kind_of :: "nat \<Rightarrow> round_kind" where
  "kind_of i = (if i < 16 then R0 else if i < 20 then R1 else if i < 40 then R2
     else if i < 60 then R3 else R4)"

definition transform_calls :: "(round_kind \<times> nat \<times> nat \<times> nat \<times> nat \<times> nat \<times> nat) list" where
  "transform_calls = concat (map (\<lambda>g. five_rounds kind_of (5 * g)) [0..<16])"

definition SHA1_Transform :: "u32 list \<Rightarrow> u8 list \<Rightarrow> u32 list" where
  "SHA1_Transform state buffer =
     (let (r, l) = fold exec_round transform_calls (state, block_of buffer)
      in map2 (+) state r)"

record SHA1_CTX =
  state :: "u32 list"
  count0 :: u32
  count1 :: u32
  buffer :: "u8 list"

definition sat_SHA1_Init :: "SHA1_CTX \<Rightarrow> SHA1_CTX" where
  "sat_SHA1_Init context = context\<lparr>
     state := [0x67452301, 0xEFCDAB89, 0x98BADCFE, 0x10325476, 0xC3D2E1F0],
     count0 := 0, count1 := 0\<rparr>"

text \<open>\<open>memcpy\<close> of \<open>src\<close> to offset \<open>j\<close> of a buffer.\<close>

definition memcpy_at :: "'a list \<Rightarrow> nat \<Rightarrow> 'a list \<Rightarrow> 'a list" where
  "memcpy_at dst j src = take j dst @ src @ drop (j + length src) dst"

text \<open>
  The bit counter.  \<open>len\<close> is a \<open>size_t\<close> (64 bits): \<open>count[0]\<close> keeps the low 32 bits
  of the sum, the comparison widens it back to 64 bits, and \<open>len >> 29\<close> is added to
  \<open>count[1]\<close>.
\<close>

definition update_count :: "u32 \<times> u32 \<Rightarrow> u64 \<Rightarrow> u32 \<times> u32" where
  "update_count c len =
     (let c0 = fst c + ucast (push_bit 3 len);
          c1 = (if (ucast c0 :: u64) < push_bit 3 len then snd c + 1 else snd c)
      in (c0, c1 + ucast (drop_bit 29 len)))"

function transform_blocks :: "u32 list \<Rightarrow> u8 list \<Rightarrow> nat \<Rightarrow> u32 list \<times> nat" where
  "transform_blocks st data i =
     (if i + 63 < length data
      then transform_blocks (SHA1_Transform st (take 64 (drop i data))) data (i + 64)
      else (st, i))"
  by pat_completeness auto
termination
  by (relation "measure (\<lambda>(st, data, i). length data - i)") auto

declare transform_blocks.simps [simp del]

definition sat_SHA1_Update :: "SHA1_CTX \<Rightarrow> u8 list \<Rightarrow> SHA1_CTX" where
  "sat_SHA1_Update context data =
     (let len = length data;
          j = unat (drop_bit 3 (count0 context) AND 63);
          c = update_count (count0 context, count1 context) (of_nat len);
          ctx = context\<lparr>count0 := fst c, count1 := snd c\<rparr>
      in if 63 < j + len then
           (let ctx1 = ctx\<lparr>buffer := memcpy_at (buffer ctx) j (take (64 - j) data)\<rparr>;
                s1 = SHA1_Transform (state ctx1) (buffer ctx1);
                (s2, i) = transform_blocks s1 data (64 - j)
            in ctx1\<lparr>state := s2, buffer := memcpy_at (buffer ctx1) 0 (drop i data)\<rparr>)
         else ctx\<lparr>buffer := memcpy_at (buffer ctx) j data\<rparr>)"

text \<open>
  The padding loop appends one zero byte at a time until \<open>(count[0] & 504) == 448\<close>;
  \<open>fuel\<close> bounds the iterations, 64 is enough (\<open>pad_zeros_enough\<close>).
\<close>

fun pad_zeros :: "nat \<Rightarrow> SHA1_CTX \<Rightarrow> SHA1_CTX option" where
  "pad_zeros fuel context =
     (if count0 context AND 504 = 448 then Some context
      else case fuel of 0 \<Rightarrow> None
        | Suc f \<Rightarrow> pad_zeros f (sat_SHA1_Update context [0]))"

declare pad_zeros.simps [simp del]

definition finalcount :: "SHA1_CTX \<Rightarrow> u8 list" where
  "finalcount context = map (\<lambda>i.
     ucast (drop_bit ((3 - i mod 4) * 8) (if 4 \<le> i then count0 context else count1 context) AND 255))
     [0..<8]"

definition sat_SHA1_Final :: "SHA1_CTX \<Rightarrow> (u8 list \<times> SHA1_CTX) option" where
  "sat_SHA1_Final context =
     (let fc = finalcount context in
      case pad_zeros 64 (sat_SHA1_Update context [0x80]) of
        None \<Rightarrow> None
      | Some c1 \<Rightarrow>
          (let c2 = sat_SHA1_Update c1 fc;
               digest = map (\<lambda>i. ucast (drop_bit ((3 - i mod 4) * 8) (state c2 ! (i div 4)) AND 255))
                          [0..<20]
           in Some (digest, c2\<lparr>buffer := replicate 64 0, state := replicate 5 0,
                               count0 := 0, count1 := 0\<rparr>)))"

text \<open>\<open>crypt_sha1\<close>: the context is an uninitialised local, here the argument \<open>ctx\<close>.\<close>

definition crypt_sha1 :: "SHA1_CTX \<Rightarrow> u8 list \<Rightarrow> u8 list option" where
  "crypt_sha1 ctx buf =
     map_option fst (sat_SHA1_Final (sat_SHA1_Update (sat_SHA1_Init ctx) buf))"

section \<open>The reference: FIPS 180-1\<close>


definition be_word :: "u8 list \<Rightarrow> u32" where
  "be_word bs = push_bit 24 (ucast (bs ! 0)) OR push_bit 16 (ucast (bs ! 1))
     OR push_bit 8 (ucast (bs ! 2)) OR ucast (bs ! 3)"

definition fips_f :: "nat \<Rightarrow> u32 \<Rightarrow> u32 \<Rightarrow> u32 \<Rightarrow> u32" where
  "fips_f t b c d =
     (if t < 20 then (b AND c) OR (NOT b AND d)
      else if t < 40 then b XOR c XOR d
      else if t < 60 then (b AND c) OR (b AND d) OR (c AND d)
      else b XOR c XOR d)"

definition fips_K :: "nat \<Rightarrow> u32" where
  "fips_K t = (if t < 20 then 0x5A827999 else if t < 40 then 0x6ED9EBA1
     else if t < 60 then 0x8F1BBCDC else 0xCA62C1D6)"

definition extend_schedule :: "u32 list \<Rightarrow> u32 list" where
  "extend_schedule w =
     (let t = length w
      in w @ [rol (w ! (t - 3) XOR w ! (t - 8) XOR w ! (t - 14) XOR w ! (t - 16)) 1])"

definition fips_schedule :: "u32 list \<Rightarrow> u32 list" where
  "fips_schedule m = (extend_schedule ^^ 64) m"

definition fips_step :: "u32 list \<Rightarrow> nat \<Rightarrow> u32 list \<Rightarrow> u32 list" where
  "fips_step w t v = (case v of [a, b, c, d, e] \<Rightarrow>
     [rol a 5 + fips_f t b c d + e + w ! t + fips_K t, a, rol b 30, c, d] | _ \<Rightarrow> v)"

lemma mix_eq: "round_mix (kind_of t) b c d = fips_f t b c d"
proof -
  have 1: "(b AND (c XOR d)) XOR d = (b AND c) OR (NOT b AND d)"
    by (rule bit_word_eqI) (auto simp: bit_simps)
  have 2: "((b OR c) AND d) OR (b AND c) = (b AND c) OR (b AND d) OR (c AND d)"
    by (rule bit_word_eqI) (auto simp: bit_simps)
  show ?thesis by (simp add: round_mix_def kind_of_def fips_f_def 1 2)
qed

lemma const_eq: "round_const (kind_of t) = fips_K t"
  by (simp add: round_const_def kind_of_def fips_K_def)

definition call_at :: "nat \<Rightarrow> round_kind \<times> nat \<times> nat \<times> nat \<times> nat \<times> nat \<times> nat" where
  "call_at n = (kind_of n, 4 * n mod 5, (4 * n + 1) mod 5, (4 * n + 2) mod 5,
     (4 * n + 3) mod 5, (4 * n + 4) mod 5, n)"

lemma call_position: "(4 * n + k) mod 5 = (4 * (n mod 5) + k) mod (5::nat)"
  by (metis mod_add_left_eq mod_mult_right_eq)

lemma call_positions:
  "n mod 5 = 0 \<Longrightarrow> call_at n = (kind_of n, 0, 1, 2, 3, 4, n)"
  "n mod 5 = 1 \<Longrightarrow> call_at n = (kind_of n, 4, 0, 1, 2, 3, n)"
  "n mod 5 = 2 \<Longrightarrow> call_at n = (kind_of n, 3, 4, 0, 1, 2, n)"
  "n mod 5 = 3 \<Longrightarrow> call_at n = (kind_of n, 2, 3, 4, 0, 1, n)"
  "n mod 5 = 4 \<Longrightarrow> call_at n = (kind_of n, 1, 2, 3, 4, 0, n)"
  unfolding call_at_def
  using call_position [of n 0] call_position [of n 1] call_position [of n 2]
    call_position [of n 3] call_position [of n 4]
  by (simp_all only: prod.inject add_0_right) simp_all

lemma five_rounds_calls: "five_rounds kind_of (5 * g) = map call_at [5 * g..<5 * g + 5]"
proof -
  have "[5 * g..<5 * g + 5] = [5 * g, 5 * g + 1, 5 * g + 2, 5 * g + 3, 5 * g + 4]"
    by (simp add: upt_conv_Cons)
  then show ?thesis
    by (simp add: five_rounds_def call_positions del: One_nat_def add_Suc_right add_2_eq_Suc')
qed

lemma calls_eq: "transform_calls = map call_at [0..<80]"
proof -
  have "concat (map (\<lambda>g. five_rounds kind_of (5 * g)) [0..<m]) = map call_at [0..<5 * m]" for m
  proof (induction m)
    case 0
    show ?case by simp
  next
    case (Suc m)
    have "[0..<5 * Suc m] = [0..<5 * m] @ [5 * m..<5 * m + 5]"
      using upt_add_eq_append [of 0 "5 * m" 5] by (simp add: add.commute)
    with Suc show ?case by (simp add: five_rounds_calls del: upt.simps) (simp add: five_rounds_calls)
  qed
  from this [of 16] show ?thesis by (simp add: transform_calls_def del: upt.simps)
qed

lemma swap_word: "(rol (le_word bs) 24 AND 0xFF00FF00) OR (rol (le_word bs) 8 AND 0x00FF00FF) = be_word bs"
proof (rule bit_word_eqI)
  have "\<forall>n\<in>set [0..<32]. bit ((rol (le_word bs) 24 AND 0xFF00FF00) OR (rol (le_word bs) 8 AND 0x00FF00FF)) n
      \<longleftrightarrow> bit (be_word bs) n"
    by (simp add: upt_conv_Cons del: set_upt,
        simp add: rol_def le_word_def be_word_def bit_simps u8_bit_high,
        simp add: eval_nat_numeral)
  moreover fix n assume "n < LENGTH(32)"
  then have "n \<in> set [0..<32]" by simp
  ultimately show "bit ((rol (le_word bs) 24 AND 0xFF00FF00) OR (rol (le_word bs) 8 AND 0x00FF00FF)) n
      \<longleftrightarrow> bit (be_word bs) n" by blast
qed

lemma mod5_cases: "n mod 5 = 0 \<or> n mod 5 = 1 \<or> n mod 5 = 2 \<or> n mod 5 = 3 \<or> n mod 5 = (4::nat)"
  by presburger

lemma rotate_five:
  "rotate n [a, b, c, d, e] =
    (if n mod 5 = 0 then [a, b, c, d, e] else if n mod 5 = 1 then [b, c, d, e, a]
     else if n mod 5 = 2 then [c, d, e, a, b] else if n mod 5 = 3 then [d, e, a, b, c]
     else [e, a, b, c, d])"
proof -
  have r: "rotate n [a, b, c, d, e] = rotate (n mod 5) [a, b, c, d, e]"
    by (subst rotate_conv_mod) simp
  have "rotate 2 [a, b, c, d, e] = [c, d, e, a, b]" "rotate 3 [a, b, c, d, e] = [d, e, a, b, c]"
    "rotate 4 [a, b, c, d, e] = [e, a, b, c, d]"
    by (simp_all add: eval_nat_numeral)
  with mod5_cases [of n] show ?thesis
    unfolding r by (elim disjE) simp_all
qed

lemma temp_eq: "z + (f + m + k + r) = r + f + z + m + (k :: u32)"
  by (simp add: ac_simps)

lemma round_at:
  assumes "sched_word (kind_of n) l n = (m, l')"
  shows
    "exec_round (kind_of n, 0, 1, 2, 3, 4, n) ([a, b, c, d, e], l) =
       ([a, rol b 30, c, d, rol a 5 + fips_f n b c d + e + m + fips_K n], l')"
    "exec_round (kind_of n, 4, 0, 1, 2, 3, n) ([b, c, d, e, a], l) =
       ([rol b 30, c, d, rol a 5 + fips_f n b c d + e + m + fips_K n, a], l')"
    "exec_round (kind_of n, 3, 4, 0, 1, 2, n) ([c, d, e, a, b], l) =
       ([c, d, rol a 5 + fips_f n b c d + e + m + fips_K n, a, rol b 30], l')"
    "exec_round (kind_of n, 2, 3, 4, 0, 1, n) ([d, e, a, b, c], l) =
       ([d, rol a 5 + fips_f n b c d + e + m + fips_K n, a, rol b 30, c], l')"
    "exec_round (kind_of n, 1, 2, 3, 4, 0, n) ([e, a, b, c, d], l) =
       ([rol a 5 + fips_f n b c d + e + m + fips_K n, a, rol b 30, c, d], l')"
  by (simp_all add: assms Let_def mix_eq const_eq temp_eq)

lemma round_regs:
  assumes "n < 80" and "sched_word (kind_of n) l n = (m, l')"
  shows "exec_round (transform_calls ! n) (rotate n [a, b, c, d, e], l) =
    (rotate (Suc n) [rol a 5 + fips_f n b c d + e + m + fips_K n, a, rol b 30, c, d], l')"
proof -
  have c: "transform_calls ! n = call_at n"
    using nth_map_upt [of n 80 0 call_at] assms(1) by (simp only: calls_eq) simp
  have s: "Suc n mod 5 = (if n mod 5 = 4 then 0 else Suc (n mod 5))"
    by (simp add: mod_Suc)
  show ?thesis
    using mod5_cases [of n]
    by (elim disjE)
      (simp_all add: c call_positions rotate_five s round_at [OF assms(2)] del: rotate_Suc exec_round.simps One_nat_def)
qed

lemma length_extend [simp]: "length ((extend_schedule ^^ k) m) = length m + k"
  by (induction k) (simp_all add: extend_schedule_def Let_def)

lemma extend_nth_stable:
  "t < length m + k \<Longrightarrow> (extend_schedule ^^ (k + j)) m ! t = (extend_schedule ^^ k) m ! t"
  by (induction j) (simp_all add: extend_schedule_def Let_def nth_append)

lemma schedule_nth_init: "t < length m \<Longrightarrow> fips_schedule m ! t = m ! t"
  using extend_nth_stable [of t m 0 64] by (simp add: fips_schedule_def)

lemma schedule_nth_step:
  assumes "length m = 16" "16 \<le> t" "t < 80"
  shows "fips_schedule m ! t = rol (fips_schedule m ! (t - 3) XOR fips_schedule m ! (t - 8)
    XOR fips_schedule m ! (t - 14) XOR fips_schedule m ! (t - 16)) 1"
proof -
  let ?k = "t - 16"
  let ?w = "(extend_schedule ^^ ?k) m"
  have t: "length ?w = t" using assms by simp
  have "fips_schedule m ! t = (extend_schedule ^^ Suc ?k) m ! t"
    using extend_nth_stable [of t m "Suc ?k" "64 - Suc ?k"] assms
    by (simp only: fips_schedule_def) simp
  also have "\<dots> = rol (?w ! (t - 3) XOR ?w ! (t - 8) XOR ?w ! (t - 14) XOR ?w ! (t - 16)) 1"
    using t by (simp add: extend_schedule_def Let_def nth_append)
  finally have e: "fips_schedule m ! t = rol (?w ! (t - 3) XOR ?w ! (t - 8) XOR ?w ! (t - 14) XOR ?w ! (t - 16)) 1" .
  have "fips_schedule m ! u = ?w ! u" if "u < t" for u
    using extend_nth_stable [of u m ?k "64 - ?k"] that assms by (simp only: fips_schedule_def) simp
  then show ?thesis using e assms by simp
qed

definition sched_inv :: "u32 list \<Rightarrow> u32 list \<Rightarrow> nat \<Rightarrow> u32 list \<Rightarrow> bool" where
  "sched_inv W raw n l \<longleftrightarrow> length l = 16
     \<and> (\<forall>t. t < n \<and> n \<le> t + 16 \<longrightarrow> l ! (t mod 16) = W ! t)
     \<and> (\<forall>t. n \<le> t \<and> t < 16 \<longrightarrow> l ! t = raw ! t)"

definition be_block :: "u8 list \<Rightarrow> u32 list" where
  "be_block bs = map (\<lambda>i. be_word (take 4 (drop (4 * i) bs))) [0..<16]"

lemma sched_step:
  assumes inv: "sched_inv W (block_of bs) n l" and n: "n < 80" and W: "W = fips_schedule (be_block bs)"
  shows "\<exists>l'. sched_word (kind_of n) l n = (W ! n, l') \<and> sched_inv W (block_of bs) (Suc n) l'"
proof -
  have "\<exists>v. fst (sched_word (kind_of n) l n) = W ! n
      \<and> snd (sched_word (kind_of n) l n) = l[n mod 16 := W ! n]"
  proof (cases "n < 16")
    case True
    have "l ! n = le_word (take 4 (drop (4 * n) bs))"
      using inv True nth_map_upt [of n 16 0] by (simp add: sched_inv_def block_of_def)
    moreover have "W ! n = be_word (take 4 (drop (4 * n) bs))"
      using True schedule_nth_init [of n "be_block bs"] nth_map_upt [of n 16 0]
      by (simp add: W be_block_def)
    ultimately show ?thesis
      using True by (simp add: sched_word_def kind_of_def blk0_def Let_def swap_word)
  next
    case False
    have l: "l ! ((n + (16 - d)) mod 16) = W ! (n - d)" if "d \<in> {3, 8, 14, 16}" for d
    proof -
      have "n + (16 - d) = (n - d) + 16" using that False by auto
      then have "(n + (16 - d)) mod 16 = (n - d) mod 16" by (simp only: mod_add_self2)
      moreover from that False have "n - d < n" "n \<le> n - d + 16" by auto
      ultimately show ?thesis using inv by (simp add: sched_inv_def)
    qed
    have k: "sched_word (kind_of n) l n = blk l n"
      using False by (simp add: sched_word_def kind_of_def)
    show ?thesis
      using False n l [of 3] l [of 8] l [of 14] l [of 16]
        schedule_nth_step [of "be_block bs" n] 
      by (simp add: k blk_def Let_def W be_block_def)
  qed
  then obtain l' where w: "sched_word (kind_of n) l n = (W ! n, l')" and l': "l' = l[n mod 16 := W ! n]"
    by (metis prod.collapse)
  have "l' ! (t mod 16) = W ! t" if "t < Suc n" "Suc n \<le> t + 16" for t
  proof (cases "t = n")
    case True
    then show ?thesis using inv by (simp add: l' sched_inv_def)
  next
    case False
    with that have "t < n" "n < t + 16" by auto
    then have "t mod 16 \<noteq> n mod 16"
      by (metis add_diff_cancel_left' dvd_minus_mod less_imp_add_positive mod_eq_dvd_iff_nat
          nat_add_left_cancel_less nat_dvd_not_less less_or_eq_imp_le)
    then show ?thesis using inv \<open>t < n\<close> \<open>n < t + 16\<close> by (simp add: l' sched_inv_def)
  qed
  moreover have "l' ! t = block_of bs ! t" if "Suc n \<le> t" "t < 16" for t
    using inv that by (simp add: l' sched_inv_def)
  ultimately have "sched_inv W (block_of bs) (Suc n) l'"
    using inv by (simp add: sched_inv_def l')
  with w show ?thesis by blast
qed

definition fips_compress :: "u32 list \<Rightarrow> u8 list \<Rightarrow> u32 list" where
  "fips_compress H bs = map2 (+) H (fold (fips_step (fips_schedule (be_block bs))) [0..<80] H)"

lemma length_fips_step [simp]: "length v = 5 \<Longrightarrow> length (fips_step w t v) = 5"
  by (auto simp: fips_step_def eval_nat_numeral length_Suc_conv)

lemma length_fold_step: "length v = 5 \<Longrightarrow> length (fold (fips_step w) ts v) = 5"
  by (induction ts arbitrary: v) simp_all

lemma length_compress [simp]: "length H = 5 \<Longrightarrow> length (fips_compress H bs) = 5"
  by (simp add: fips_compress_def length_fold_step del: upt_rec_numeral)

lemma transform_rounds:
  assumes "length H = 5" "n \<le> 80" and W: "W = fips_schedule (be_block bs)"
  shows "\<exists>l. fold exec_round (map call_at [0..<n]) (H, block_of bs)
      = (rotate n (fold (fips_step W) [0..<n] H), l) \<and> sched_inv W (block_of bs) n l"
  using \<open>n \<le> 80\<close>
proof (induction n)
  case 0
  show ?case by (simp add: sched_inv_def block_of_def)
next
  case (Suc n)
  let ?v = "fold (fips_step W) [0..<n] H"
  from Suc obtain l where l: "fold exec_round (map call_at [0..<n]) (H, block_of bs) = (rotate n ?v, l)"
    and inv: "sched_inv W (block_of bs) n l" by auto
  have "length ?v = 5" using assms(1) by (rule length_fold_step)
  then obtain a b c d e where v: "?v = [a, b, c, d, e]"
    by (auto simp: eval_nat_numeral length_Suc_conv)
  obtain l' where w: "sched_word (kind_of n) l n = (W ! n, l')"
    and inv': "sched_inv W (block_of bs) (Suc n) l'"
    using sched_step [OF inv _ W] Suc.prems by auto
  have c: "transform_calls ! n = call_at n"
    using nth_map_upt [of n 80 0 call_at] Suc.prems by (simp only: calls_eq) simp
  have "exec_round (call_at n) (rotate n ?v, l) = (rotate (Suc n) (fips_step W n ?v), l')"
    using round_regs [of n l "W ! n" l' a b c d e] Suc.prems w
    by (simp add: v c fips_step_def del: rotate_Suc)
  then show ?case using l inv' by (auto simp del: rotate_Suc)
qed

lemma transform_compress: "length H = 5 \<Longrightarrow> SHA1_Transform H bs = fips_compress H bs"
proof -
  assume H: "length H = 5"
  let ?v = "fold (fips_step (fips_schedule (be_block bs))) [0..<80] H"
  obtain l where "fold exec_round transform_calls (H, block_of bs) = (rotate 80 ?v, l)"
    using transform_rounds [OF H order_refl refl, of bs] by (auto simp only: calls_eq)
  moreover have "rotate 80 ?v = ?v"
    using length_fold_step [OF H] by (subst rotate_conv_mod) (simp del: upt_rec_numeral)
  ultimately show ?thesis by (simp add: SHA1_Transform_def fips_compress_def del: upt_rec_numeral)
qed

section \<open>message level\<close>

fun absorb :: "u32 list \<Rightarrow> u8 list \<Rightarrow> u32 list" where
  "absorb H m = (if length m < 64 then H else absorb (fips_compress H (take 64 m)) (drop 64 m))"

declare absorb.simps [simp del]

lemma absorb_short: "length m < 64 \<Longrightarrow> absorb H m = H"
  by (simp add: absorb.simps)

lemma absorb_block: "length b = 64 \<Longrightarrow> absorb H (b @ m) = absorb (fips_compress H b) m"
  by (subst absorb.simps) simp

lemma length_absorb [simp]: "length H = 5 \<Longrightarrow> length (absorb H m) = 5"
proof (induction H m rule: absorb.induct)
  case (1 H m)
  then show ?case by (subst absorb.simps) simp
qed

lemma absorb_append:
  "64 dvd length a \<Longrightarrow> absorb H (a @ b) = absorb (absorb H a) b"
proof (induction a arbitrary: H rule: list_chunk_induct [of 64])
  case 1
  show ?case by simp
next
  case (2 a)
  then have "a = []" by (auto elim: dvdE)
  then show ?case by (simp add: absorb_short)
next
  case (3 a)
  have "absorb H (take 64 a @ drop 64 a @ b) = absorb (absorb H (take 64 a @ drop 64 a)) b"
    using 3 by (simp add: absorb_block del: append_take_drop_id) 
  then show ?case by (metis append.assoc append_take_drop_id)
qed

definition sha1_H0 :: "u32 list" where
  "sha1_H0 = [0x67452301, 0xEFCDAB89, 0x98BADCFE, 0x10325476, 0xC3D2E1F0]"

definition tail_len :: "u8 list \<Rightarrow> nat" where
  "tail_len m = length m mod 64"

definition full_part :: "u8 list \<Rightarrow> u8 list" where
  "full_part m = take (length m div 64 * 64) m"

definition tail_part :: "u8 list \<Rightarrow> u8 list" where
  "tail_part m = drop (length m div 64 * 64) m"

lemma parts: "full_part m @ tail_part m = m" "64 dvd length (full_part m)"
  "length (tail_part m) = length m mod 64"
  by (simp_all add: full_part_def tail_part_def minus_div_mult_eq_mod)

lemma parts_unique:
  "m = a @ b \<Longrightarrow> 64 dvd length a \<Longrightarrow> length b < 64 \<Longrightarrow> full_part m = a \<and> tail_part m = b"
proof -
  assume m: "m = a @ b" and "64 dvd length a" and b: "length b < 64"
  then obtain k where "length a = k * 64" by (metis dvd_def mult.commute)
  then have "length m div 64 * 64 = length a" using m b by simp
  then show ?thesis by (simp add: full_part_def tail_part_def m)
qed

lemma absorb_full: "absorb H (full_part m) = absorb H m"
proof -
  have "absorb H (full_part m @ tail_part m) = absorb (absorb H (full_part m)) (tail_part m)"
    by (rule absorb_append) (rule parts)
  also have "\<dots> = absorb H (full_part m)"
    by (rule absorb_short) (simp add: parts)
  finally show ?thesis by (simp add: parts)
qed

lemma transform_blocks_eq:
  "length st = 5 \<Longrightarrow> i \<le> length data \<Longrightarrow> transform_blocks st data i =
     (absorb st (drop i data), i + (length data - i) div 64 * 64)"
proof (induction st data i rule: transform_blocks.induct)
  case (1 st data i)
  show ?case
  proof (cases "i + 63 < length data")
    case True
    then have d: "(length data - i) div 64 = Suc ((length data - (i + 64)) div 64)"
    proof -
      have "length data - i = (length data - (i + 64)) + 64" using True by simp
      then show ?thesis by (metis div_add_self2 Suc_eq_plus1 zero_neq_numeral)
    qed
    have a: "absorb st (drop i data) = absorb (fips_compress st (take 64 (drop i data))) (drop (i + 64) data)"
    proof -
      have "\<not> length (drop i data) < 64" using True by simp
      then show ?thesis
        by (simp only: absorb.simps [of st "drop i data"] if_False drop_drop add.commute)
    qed
    show ?thesis
      using 1 True by (subst transform_blocks.simps) (simp add: a d transform_compress del: absorb.simps take_all_iff drop_drop)
  next
    case False
    with 1 show ?thesis by (subst transform_blocks.simps) (simp add: absorb_short)
  qed
qed

definition bit_count0 :: "nat \<Rightarrow> u32" where
  "bit_count0 n = of_nat (8 * n)"

definition bit_count1 :: "nat \<Rightarrow> u32" where
  "bit_count1 n = of_nat (8 * n div 2 ^ 32)"

text \<open>
  A context represents the message fed to it so far: the chaining value after its full
  blocks, its last partial block at the front of the buffer, and its bit length.
\<close>

definition represents :: "SHA1_CTX \<Rightarrow> u8 list \<Rightarrow> bool" where
  "represents ctx m \<longleftrightarrow> state ctx = absorb sha1_H0 m \<and> length (buffer ctx) = 64
     \<and> take (length m mod 64) (buffer ctx) = tail_part m
     \<and> count0 ctx = bit_count0 (length m) \<and> count1 ctx = bit_count1 (length m)"

definition length_bytes :: "nat \<Rightarrow> u8 list" where
  "length_bytes n = map (\<lambda>i. of_nat (n div 2 ^ (8 * (7 - i)))) [0..<8]"

definition zeros_needed :: "nat \<Rightarrow> nat" where
  "zeros_needed r = (if r \<le> 56 then 56 - r else 120 - r)"

definition sha1_pad :: "u8 list \<Rightarrow> u8 list" where
  "sha1_pad m = m @ [0x80] @ replicate (zeros_needed (Suc (length m) mod 64)) 0 @ length_bytes (8 * length m)"

definition word_bytes :: "u32 \<Rightarrow> u8 list" where
  "word_bytes w = [ucast (drop_bit 24 w), ucast (drop_bit 16 w), ucast (drop_bit 8 w), ucast w]"

definition sha1_digest :: "u8 list \<Rightarrow> u8 list" where
  "sha1_digest m = concat (map word_bytes (absorb sha1_H0 (sha1_pad m)))"


lemma shift_mask_nat: "unat (drop_bit 3 (of_nat x :: u32) AND 63) = x mod 2 ^ 32 div 8 mod 64"
proof -
  have m: "(63 :: u32) = mask 6" by (simp add: mask_eq_exp_minus_1)
  have "unat (drop_bit 3 w AND 63) = take_bit 6 (drop_bit 3 (unat w))" for w :: u32
    by (simp only: m unsigned_take_bit_eq unat_drop_bit_eq flip: take_bit_eq_mask)
  then show ?thesis by (simp add: unat_of_nat take_bit_eq_mod drop_bit_eq_div)
qed

lemma buffer_index: "unat (drop_bit 3 (bit_count0 n) AND 63) = n mod 64"
proof -
  have "8 * n mod 2 ^ 32 = 8 * (n mod 2 ^ 29)"
    using mult_mod_right [of 8 n "2 ^ 29"] by simp
  then have "8 * n mod 2 ^ 32 div 8 mod 64 = n mod 2 ^ 29 mod 64" by simp
  also have "\<dots> = n mod 64" by (rule mod_mod_cancel) simp
  finally show ?thesis by (simp only: bit_count0_def shift_mask_nat)
qed


lemma mask_504: "x AND 504 = push_bit 3 (drop_bit 3 x AND (63 :: u32))"
proof -
  have "(504 :: u32) = push_bit 3 63" by simp
  moreover have "x AND push_bit 3 y = push_bit 3 (drop_bit 3 x AND y)" for y :: u32
    by (rule bit_word_eqI) (auto simp: bit_simps)
  ultimately show ?thesis by metis
qed

lemma count0_mod: "bit_count0 n AND 504 = 448 \<longleftrightarrow> n mod 64 = 56"
proof -
  define a where "a = drop_bit 3 (bit_count0 n) AND 63"
  have u: "unat a = n mod 64" by (simp only: a_def buffer_index)
  have p: "push_bit 3 a = of_nat (8 * (n mod 64))"
    by (simp add: push_bit_eq_mult flip: u)
  have "(of_nat (8 * (n mod 64)) :: u32) = 448 \<longleftrightarrow> n mod 64 = 56"
  proof -
    have "8 * (n mod 64) < 2 ^ 32" using mod_less_divisor [of 64 n] by simp
    then have "unat (of_nat (8 * (n mod 64)) :: u32) = 8 * (n mod 64)"
      by (simp only: unat_of_nat) simp
    then show ?thesis by (simp only: word_unat_eq_iff) simp
  qed
  then show ?thesis by (simp only: mask_504 p flip: a_def)
qed

lemma byte_at:
  assumes "k + 8 \<le> 32"
  shows "(ucast (drop_bit k (of_nat x :: u32) AND 255) :: u8) = of_nat (x div 2 ^ k)"
proof -
  have m: "(255 :: u32) = mask 8" by (simp add: mask_eq_exp_minus_1)
  have "take_bit 8 (take_bit 8 (drop_bit k (take_bit 32 x))) = take_bit 8 (drop_bit k x)"
    using assms by (intro bit_eqI) (auto simp: bit_simps)
  then show ?thesis
    by (simp only: word_unat_eq_iff m unsigned_ucast_eq unsigned_take_bit_eq unat_drop_bit_eq
        unat_of_nat flip: take_bit_eq_mask) (simp add: take_bit_eq_mod drop_bit_eq_div)
qed

lemma finalcount_bytes:
  assumes "count0 ctx = bit_count0 n" "count1 ctx = bit_count1 n"
  shows "finalcount ctx = length_bytes (8 * n)"
proof -
  have "ucast (drop_bit ((3 - i mod 4) * 8) (if 4 \<le> i then count0 ctx else count1 ctx) AND 255)
      = (of_nat (8 * n div 2 ^ (8 * (7 - i))) :: u8)" if "i < 8" for i
  proof (cases "4 \<le> i")
    case True
    with that have "i mod 4 = i - 4" using mod_less [of "i - 4" 4] le_mod_geq [of 4 i] by simp
    with True that show ?thesis
      by (simp only: assms bit_count0_def if_True) (subst byte_at; simp add: mult.commute)
  next
    case False
    then have s: "8 * (7 - i) = 32 + (3 - i mod 4) * 8" by simp
    from False show ?thesis
      by (simp only: assms bit_count1_def if_False s power_add div_mult2_eq) (subst byte_at; simp)
  qed
  then show ?thesis by (simp only: finalcount_def length_bytes_def) (rule map_cong, simp, simp only: set_upt atLeastLessThan_iff)
qed

lemma mask_byte: "(ucast (w AND (255 :: u32)) :: u8) = ucast w"
proof -
  have m: "(255 :: u32) = mask 8" by (simp add: mask_eq_exp_minus_1)
  show ?thesis
    unfolding m by (rule bit_word_eqI, simp only: bit_unsigned_iff bit_and_iff bit_mask_iff) auto
qed

lemma digest_bytes:
  assumes "length h = 5"
  shows "map (\<lambda>i. ucast (drop_bit ((3 - i mod 4) * 8) (h ! (i div 4)) AND (255 :: u32)) :: u8) [0..<20]
     = concat (map word_bytes h)"
proof -
  obtain a b c d e where h: "h = [a, b, c, d, e]"
    using assms by (auto simp: length_Suc_conv eval_nat_numeral)
  have u: "[0..<20] = [0,1,2,3,4,5,6,7,8,9,10,11,12,13,14,15,16,17,18,19 :: nat]"
    by (simp add: upt_conv_Cons)
  show ?thesis by (simp only: h u) (simp add: mask_byte word_bytes_def)
qed

lemma carry_mod: "k < M \<Longrightarrow> (a + k) mod M < k \<longleftrightarrow> M \<le> a mod M + (k :: nat)"
proof -
  assume k: "k < M"
  then have a: "a mod M < M" by simp
  have e: "(a + k) mod M = (a mod M + k) mod M" by (simp add: mod_add_left_eq)
  show ?thesis
  proof (cases "M \<le> a mod M + k")
    case True
    moreover have "a mod M + k - M < M" using True k a by linarith
    ultimately have "(a mod M + k) mod M = a mod M + k - M"
      by (simp only: le_mod_geq mod_less)
    with True k a e show ?thesis by linarith
  next
    case False
    then have "(a mod M + k) mod M = a mod M + k" by simp
    with False e show ?thesis by linarith
  qed
qed

lemma carry_div: "k < M \<Longrightarrow> (a + k) div M = a div M + (if M \<le> a mod M + (k :: nat) then 1 else 0)"
proof -
  assume k: "k < M"
  then have a: "a mod M < M" by simp
  have e: "(a + k) div M = a div M + (a mod M + k) div M"
  proof -
    have "a + k = (a mod M + k) + a div M * M" by simp
    also have "\<dots> div M = a div M + (a mod M + k) div M"
      using k by (subst div_mult_self1) simp_all
    finally show ?thesis .
  qed
  have "(a mod M + k) div M = (if M \<le> a mod M + k then 1 else 0)"
  proof (cases "M \<le> a mod M + k")
    case True
    have "a mod M + k - M < M" using True k a by linarith
    with True k show ?thesis by (subst le_div_geq) simp_all
  next
    case False
    then show ?thesis by simp
  qed
  then show ?thesis using e by simp
qed

lemma ucast_of_nat_32: "(ucast (of_nat x :: u64) :: u32) = of_nat x"
  by (simp add: word_unat_eq_iff unsigned_ucast_eq unat_of_nat take_bit_eq_mod mod_mod_cancel)

lemma unat_widen: "unat (ucast (of_nat x :: u32) :: u64) = x mod 2 ^ 32"
  by (simp add: unsigned_ucast_eq unat_of_nat take_bit_eq_mod)

lemma count_step:
  assumes k: "k < 2 ^ 29"
  shows "update_count (bit_count0 n, bit_count1 n) (of_nat k) = (bit_count0 (n + k), bit_count1 (n + k))"
proof -
  have p: "push_bit 3 (of_nat k :: u64) = of_nat (8 * k)"
    by (simp add: push_bit_eq_mult)
  have d: "drop_bit 29 (of_nat k :: u64) = 0"
  proof -
    have "unat (drop_bit 29 (of_nat k :: u64)) = drop_bit 29 (k mod 2 ^ 64)"
      by (simp only: unat_drop_bit_eq unat_of_nat) simp
    also have "\<dots> = 0" using k by (simp add: drop_bit_eq_div)
    finally show ?thesis by (simp only: unat_eq_0)
  qed
  have c0: "of_nat (8 * n) + ucast (of_nat (8 * k) :: u64) = (of_nat (8 * (n + k)) :: u32)"
    unfolding ucast_of_nat_32 by (simp add: algebra_simps)
  have "((ucast (of_nat (8 * (n + k)) :: u32) :: u64) < of_nat (8 * k))
      \<longleftrightarrow> (8 * n + 8 * k) mod 2 ^ 32 < 8 * k"
  proof -
    have "unat (of_nat (8 * k) :: u64) = 8 * k" using k by (simp only: unat_of_nat) simp
    then show ?thesis by (simp only: word_less_nat_alt unat_widen distrib_left)
  qed
  also have "\<dots> \<longleftrightarrow> 2 ^ 32 \<le> 8 * n mod 2 ^ 32 + 8 * k"
    using k by (intro carry_mod) simp
  finally have c: "((ucast (of_nat (8 * (n + k)) :: u32) :: u64) < of_nat (8 * k))
      \<longleftrightarrow> 2 ^ 32 \<le> 8 * n mod 2 ^ 32 + 8 * k" .
  have "8 * (n + k) div 2 ^ 32 = 8 * n div 2 ^ 32 + (if 2 ^ 32 \<le> 8 * n mod 2 ^ 32 + 8 * k then 1 else 0)"
    using k carry_div [of "8 * k" "2 ^ 32" "8 * n"] by (simp add: distrib_left)
  then show ?thesis
    by (simp only: bit_count0_def bit_count1_def update_count_def Let_def fst_conv snd_conv p c0 c d) simp
qed

lemma length_memcpy_at [simp]:
  "j + length src \<le> length dst \<Longrightarrow> length (memcpy_at dst j src) = length dst"
  by (simp add: memcpy_at_def)

lemma take_memcpy_at: "j + length src \<le> length dst \<Longrightarrow>
   take (j + length src) (memcpy_at dst j src) = take j dst @ src"
  by (simp add: memcpy_at_def)

lemma update_represents:
  assumes r: "represents ctx m" and k: "length d < 2 ^ 29"
  shows "represents (sat_SHA1_Update ctx d) (m @ d)"
proof -
  let ?j = "length m mod 64"
  let ?buf = "buffer ctx"
  have st: "state ctx = absorb sha1_H0 (full_part m)" and b: "length ?buf = 64"
    and t: "take ?j ?buf = tail_part m"
    and c: "count0 ctx = bit_count0 (length m)" "count1 ctx = bit_count1 (length m)"
    using r by (simp_all add: represents_def absorb_full)
  have len5: "length (absorb sha1_H0 x) = 5" for x by (simp add: sha1_H0_def)
  note idx = buffer_index [of "length m"] and cnt = count_step [OF k, of "length m"]
  show ?thesis
  proof (cases "63 < ?j + length d")
    case True
    let ?i = "64 - ?j"
    have j: "?j < 64" by simp
    have i: "?i \<le> length d" using True by simp
    define q where "q = (length d - ?i) div 64 * 64"
    have q: "q \<le> length d - ?i" "64 dvd q" "length d - ?i - q < 64"
      by (simp_all add: q_def minus_div_mult_eq_mod)
    let ?b1 = "memcpy_at ?buf ?j (take ?i d)"
    let ?hd = "tail_part m @ take ?i d"
    let ?mid = "take q (drop ?i d)"
    have hd: "length ?hd = 64" and mid: "length ?mid = q"
      using i j q(1) by (simp_all add: parts(3))
    have b1: "?b1 = ?hd"
      using take_memcpy_at [of ?j "take ?i d" ?buf] i b t by (simp add: memcpy_at_def)
    have "d = take ?i d @ ?mid @ drop q (drop ?i d)"
      by (simp only: append_take_drop_id)
    then have "d = take ?i d @ ?mid @ drop (?i + q) d"
      by (simp only: drop_drop add.commute)
    then have md: "m @ d = (full_part m @ ?hd @ ?mid) @ drop (?i + q) d"
      using parts(1) [of m] by (metis append.assoc)
    have "length (full_part m @ ?hd @ ?mid) = length (full_part m) + 64 + q"
      by (simp only: length_append [of "full_part m"] length_append [of ?hd] hd mid)
    then have dv: "64 dvd length (full_part m @ ?hd @ ?mid)"
      using parts(2) [of m] q(2) by simp
    have tl: "length (drop (?i + q) d) < 64" using q(3) by simp
    have fp: "full_part (m @ d) = full_part m @ ?hd @ ?mid" "tail_part (m @ d) = drop (?i + q) d"
      using parts_unique [OF md dv tl] by auto
    have "absorb sha1_H0 (m @ d) = absorb (absorb sha1_H0 (full_part m)) (?hd @ ?mid)"
      by (simp only: absorb_append [OF parts(2)] fp(1) flip: absorb_full [of _ "m @ d"])
    also have "\<dots> = absorb (fips_compress (state ctx) ?hd) ?mid"
      by (simp only: absorb_block [OF hd] st)
    also have "\<dots> = absorb (fips_compress (state ctx) ?hd) (drop ?i d)"
    proof -
      have "full_part (drop ?i d) = ?mid" by (simp add: full_part_def q_def)
      then show ?thesis by (metis absorb_full)
    qed
    finally have ab: "absorb sha1_H0 (m @ d) = absorb (fips_compress (state ctx) ?hd) (drop ?i d)" .
    have tb: "transform_blocks (SHA1_Transform (state ctx) ?b1) d ?i =
       (absorb sha1_H0 (m @ d), ?i + q)"
      using transform_blocks_eq [of "fips_compress (state ctx) ?hd" ?i d] i len5
      by (simp add: ab b1 transform_compress st q_def)
    have u: "sat_SHA1_Update ctx d = ctx\<lparr>count0 := bit_count0 (length m + length d),
        count1 := bit_count1 (length m + length d), state := absorb sha1_H0 (m @ d),
        buffer := memcpy_at ?hd 0 (drop (?i + q) d)\<rparr>"
      using True tb by (simp add: sat_SHA1_Update_def Let_def idx cnt c b1)
    have "length (m @ d) mod 64 = length (drop (?i + q) d)"
      using fp(2) by (metis parts(3))
    then show ?thesis
      using take_memcpy_at [of 0 "drop (?i + q) d" ?hd] hd tl fp(2)
      by (simp add: represents_def u)
  next
    case False
    have md: "m @ d = full_part m @ (tail_part m @ d)" by (simp add: parts)
    have l: "length (tail_part m @ d) < 64" using False by (simp add: parts)
    have fp: "full_part (m @ d) = full_part m" "tail_part (m @ d) = tail_part m @ d"
      using parts_unique [OF md parts(2) l] by auto
    have "length (m @ d) mod 64 = ?j + length d"
      using fp(2) by (metis length_append parts(3))
    then show ?thesis
      using False b t st take_memcpy_at [of ?j d ?buf] fp absorb_full [of sha1_H0 "m @ d"]
      by (simp add: represents_def sat_SHA1_Update_def Let_def idx cnt c)
  qed
qed


section \<open>Padding and the digest\<close>

lemma pad_zeros_represents:
  "represents ctx m \<Longrightarrow> zeros_needed (length m mod 64) \<le> fuel \<Longrightarrow>
   \<exists>ctx'. pad_zeros fuel ctx = Some ctx' \<and>
     represents ctx' (m @ replicate (zeros_needed (length m mod 64)) 0)"
proof (induction fuel arbitrary: ctx m)
  case 0
  then have "length m mod 64 = 56"
    using mod_less_divisor [of 64 "length m"] by (simp add: zeros_needed_def split: if_splits)
  with 0 show ?case
    by (subst pad_zeros.simps) (simp add: count0_mod represents_def zeros_needed_def)
next
  case (Suc fuel)
  have c0: "count0 ctx = bit_count0 (length m)" using Suc.prems(1) by (simp add: represents_def)
  show ?case
  proof (cases "length m mod 64 = 56")
    case True
    with Suc.prems show ?thesis
      by (subst pad_zeros.simps) (simp add: c0 count0_mod zeros_needed_def)
  next
    case False
    let ?k = "zeros_needed (length (m @ [0 :: u8]) mod 64)"
    have k: "zeros_needed (length m mod 64) = Suc ?k"
      using False mod_less_divisor [of 64 "length m"]
      by (auto simp: zeros_needed_def mod_Suc)
    have "represents (sat_SHA1_Update ctx [0]) (m @ [0])"
      using Suc.prems(1) by (rule update_represents) simp
    then obtain ctx' where "pad_zeros fuel (sat_SHA1_Update ctx [0]) = Some ctx'"
      "represents ctx' ((m @ [0]) @ replicate ?k 0)"
      using Suc.IH [of "sat_SHA1_Update ctx [0]" "m @ [0]"] Suc.prems(2) k by auto
    moreover have "pad_zeros (Suc fuel) ctx = pad_zeros fuel (sat_SHA1_Update ctx [0])"
      using False by (subst pad_zeros.simps) (simp add: c0 count0_mod)
    ultimately show ?thesis by (simp add: k)
  qed
qed

lemma init_represents: "length (buffer ctx) = 64 \<Longrightarrow> represents (sat_SHA1_Init ctx) []"
  by (simp add: represents_def sat_SHA1_Init_def sha1_H0_def absorb_short
      tail_part_def bit_count0_def bit_count1_def)

text \<open>
  C16: streaming.  However a message is cut into calls of \<open>sat_SHA1_Update\<close>, each below
  \<open>2 ^ 29\<close> bytes, the context reached represents the whole message: the chaining value,
  the partial block in the buffer and both halves of the bit counter.
\<close>

theorem updates_represent:
  assumes "length (buffer ctx) = 64" and "\<forall>d\<in>set ds. length d < 2 ^ 29"
  shows "represents (fold (\<lambda>d c. sat_SHA1_Update c d) ds (sat_SHA1_Init ctx)) (concat ds)"
proof -
  have "represents c m \<Longrightarrow> \<forall>d\<in>set ds. length d < 2 ^ 29 \<Longrightarrow>
      represents (fold (\<lambda>d c. sat_SHA1_Update c d) ds c) (m @ concat ds)" for c m
    by (induction ds arbitrary: c m) (simp_all add: update_represents flip: append_assoc)
  from this [OF init_represents, of ctx] assms show ?thesis by simp
qed

theorem updates_represent_witness:
  "represents (fold (\<lambda>d c. sat_SHA1_Update c d) [[97, 98], [], [99]]
     (sat_SHA1_Init \<lparr>state = [], count0 = 7, count1 = 7, buffer = replicate 64 1\<rparr>)) [97, 98, 99]"
  using updates_represent [of "\<lparr>state = [], count0 = 7, count1 = 7, buffer = replicate 64 1\<rparr>"
      "[[97, 98], [], [99]]"] by simp

lemma crypt_sha1_computes:
  assumes "length m < 2 ^ 29" "length (buffer ctx) = 64"
  shows "crypt_sha1 ctx m = Some (sha1_digest m)"
proof -
  from update_represents [OF init_represents [OF assms(2)], of m]
  have r: "represents (sat_SHA1_Update (sat_SHA1_Init ctx) m) m" (is "represents ?c m")
    using assms(1) by simp
  have fc: "finalcount ?c = length_bytes (8 * length m)"
    using r by (intro finalcount_bytes) (simp_all add: represents_def)
  have "represents (sat_SHA1_Update ?c [0x80]) (m @ [0x80])"
    by (rule update_represents [OF r]) simp
  moreover have "zeros_needed (length (m @ [0x80 :: u8]) mod 64) \<le> 64"
    using mod_less_divisor [of 64 "length (m @ [0x80 :: u8])"] by (auto simp: zeros_needed_def)
  ultimately obtain c1 where c1: "pad_zeros 64 (sat_SHA1_Update ?c [0x80]) = Some c1"
    and r1: "represents c1 ((m @ [0x80]) @ replicate (zeros_needed (length (m @ [0x80 :: u8]) mod 64)) 0)"
    using pad_zeros_represents by blast
  have "represents (sat_SHA1_Update c1 (length_bytes (8 * length m))) (sha1_pad m)"
    using update_represents [OF r1, of "length_bytes (8 * length m)"]
    by (simp add: sha1_pad_def length_bytes_def)
  then have "state (sat_SHA1_Update c1 (length_bytes (8 * length m))) = absorb sha1_H0 (sha1_pad m)"
    by (simp add: represents_def)
  then show ?thesis
    using c1 digest_bytes [of "absorb sha1_H0 (sha1_pad m)"]
    by (simp add: crypt_sha1_def sat_SHA1_Final_def Let_def fc sha1_digest_def sha1_H0_def)
qed

text \<open>
  C7: \<open>crypt_sha1\<close> returns, whatever the uninitialised context held, and its twenty
  bytes are the FIPS 180-1 digest of the message, for every message below \<open>2 ^ 29\<close> bytes.
\<close>

theorem crypt_sha1_digest:
  assumes "length m < 2 ^ 29" "length (buffer ctx) = 64"
  shows "crypt_sha1 ctx m = Some (sha1_digest m)"
  using assms by (rule crypt_sha1_computes)


theorem crypt_sha1_digest_witness:
  "crypt_sha1 \<lparr>state = [], count0 = 0, count1 = 0, buffer = replicate 64 0\<rparr> [97, 98, 99] =
     Some (sha1_digest [97, 98, 99])"
  using crypt_sha1_digest [of "[97, 98, 99]" "\<lparr>state = [], count0 = 0, count1 = 0, buffer = replicate 64 0\<rparr>"]
  by simp

section \<open>The bit counter above half a gigabyte\<close>

text \<open>
  with a 64-bit \<open>size_t\<close> the comparison \<open>count[0] < len << 3\<close> compares the low
  half of the counter with the whole bit length, so a single update of \<open>2 ^ 29\<close> bytes or
  more always adds a carry to \<open>count[1]\<close>, beside the \<open>len >> 29\<close> that already counts it.
\<close>

theorem update_count_large:
  assumes "2 ^ 29 \<le> k" and "k < 2 ^ 61"
  shows "update_count (bit_count0 n, bit_count1 n) (of_nat k) =
    (bit_count0 (n + k), bit_count1 n + 1 + of_nat (k div 2 ^ 29))"
proof -
  have p: "push_bit 3 (of_nat k :: u64) = of_nat (8 * k)"
    by (simp add: push_bit_eq_mult)
  have u: "unat (of_nat (8 * k) :: u64) = 8 * k"
    using assms(2) by (simp only: unat_of_nat) simp
  have c0: "of_nat (8 * n) + ucast (of_nat (8 * k) :: u64) = (of_nat (8 * (n + k)) :: u32)"
    unfolding ucast_of_nat_32 by (simp add: algebra_simps)
  have "8 * (n + k) mod 2 ^ 32 < 8 * k"
    using assms(1) by (intro less_le_trans [OF mod_less_divisor]) simp_all
  then have c: "(ucast (of_nat (8 * (n + k)) :: u32) :: u64) < of_nat (8 * k)"
    by (simp only: word_less_nat_alt unat_widen u)
  have d: "(ucast (drop_bit 29 (of_nat k :: u64)) :: u32) = of_nat (k div 2 ^ 29)"
  proof -
    have "drop_bit 29 (of_nat k :: u64) = of_nat (k div 2 ^ 29)"
    proof -
      have "k div 2 ^ 29 < 2 ^ 64" "k < 2 ^ 64" using assms(2) by (simp_all add: less_mult_imp_div_less)
      then show ?thesis
        by (simp only: word_unat_eq_iff unat_drop_bit_eq unat_of_nat)
          (simp add: drop_bit_eq_div)
    qed
    then show ?thesis by (simp only: ucast_of_nat_32)
  qed
  show ?thesis
    by (simp only: update_count_def Let_def fst_conv snd_conv bit_count0_def p c0 c d if_True)
qed

theorem update_count_large_witness:
  "update_count (bit_count0 0, bit_count1 0) (of_nat (2 ^ 29)) = (bit_count0 (2 ^ 29), 2)
     \<and> bit_count1 (2 ^ 29) = 1"
  using update_count_large [of "2 ^ 29" 0] by (simp add: bit_count1_def)

end
