(* ===== verification/Base64.thy ===== *)
theory Base64
  imports Prelude
begin

text \<open>
  \<open>src/ServerEngine/crypt/base64_encoder.c\<close>: the encoder with its static buffers, every
  load and store checked.  The reference is the bit-string reading of RFC 4648: the bits of
  the input, most significant first, are cut into groups of six, the last one filled with
  zeros, and the output is padded with equal signs to a multiple of four characters.
\<close>

section \<open>The code\<close>

definition SMALL_CHUNK :: nat where
  "SMALL_CHUNK = 256"

definition encoding :: "char list" where
  "encoding = ''ABCDEFGHIJKLMNOPQRSTUVWXYZabcdefghijklmnopqrstuvwxyz0123456789+/''"

text \<open>The static variables: the small buffer and the last allocated one.\<close>

record b64_static =
  small_chunk_encode :: "char list"
  alloc_buffer :: "char list option"

definition put4 :: "char list \<Rightarrow> nat \<Rightarrow> char \<Rightarrow> char \<Rightarrow> char \<Rightarrow> char \<Rightarrow> char list option" where
  "put4 buf j a b c d = do {
     b1 \<leftarrow> poke buf j a; b2 \<leftarrow> poke b1 (j + 1) b; b3 \<leftarrow> poke b2 (j + 2) c; poke b3 (j + 3) d }"

definition enc :: "u32 \<Rightarrow> char option" where
  "enc v = peek encoding (unat v)"

text \<open>One iteration of the loop: three input bytes become four characters.\<close>

definition encode3 :: "u8 list \<Rightarrow> char list \<Rightarrow> nat \<Rightarrow> nat \<Rightarrow> char list option" where
  "encode3 text buf i j = do {
     t0 \<leftarrow> peek text i; t1 \<leftarrow> peek text (i + 1); t2 \<leftarrow> peek text (i + 2);
     let v = (push_bit 16 (ucast t0) OR push_bit 8 (ucast t1) OR ucast t2 :: u32);
     a \<leftarrow> enc (drop_bit 18 v);
     b \<leftarrow> enc (drop_bit 12 v AND 0x3f);
     c \<leftarrow> enc (drop_bit 6 v AND 0x3f);
     d \<leftarrow> enc (v AND 0x3f);
     put4 buf j a b c d }"

function encode_loop :: "u8 list \<Rightarrow> char list \<Rightarrow> nat \<Rightarrow> nat \<Rightarrow> (char list \<times> nat \<times> nat) option" where
  "encode_loop text buf i j =
     (if i + 2 < length text
      then case encode3 text buf i j of None \<Rightarrow> None
        | Some buf' \<Rightarrow> encode_loop text buf' (i + 3) (j + 4)
      else Some (buf, i, j))"
  by pat_completeness auto
termination
  by (relation "measure (\<lambda>(text, buf, i, j). length text - i)") auto

declare encode_loop.simps [simp del]

text \<open>The \<open>switch (padding)\<close>.\<close>

definition encode_tail :: "u8 list \<Rightarrow> char list \<Rightarrow> nat \<Rightarrow> nat \<Rightarrow> char list option" where
  "encode_tail text buf i j =
     (let padding = length text - i in
      if padding = 1 then do {
        t0 \<leftarrow> peek text i;
        let v = (ucast t0 :: u32);
        a \<leftarrow> enc (drop_bit 2 v);
        b \<leftarrow> enc (push_bit 4 (v AND 3));
        put4 buf j a b CHR ''='' CHR ''='' }
      else if padding = 2 then do {
        t0 \<leftarrow> peek text i; t1 \<leftarrow> peek text (i + 1);
        let v = (push_bit 8 (ucast t0) OR ucast t1 :: u32);
        a \<leftarrow> enc (drop_bit 10 v);
        b \<leftarrow> enc (drop_bit 4 v AND 0x3f);
        c \<leftarrow> enc (push_bit 2 (v AND 0xf));
        put4 buf j a b c CHR ''='' }
      else Some buf)"

text \<open>
  \<open>base64_encode\<close>: \<open>junk\<close> is the contents of freshly allocated memory.  The result is
  the new static state, the buffer the returned pointer points to and \<open>*out_esz\<close>.
\<close>

definition base64_encode ::
  "(nat \<Rightarrow> char) \<Rightarrow> b64_static \<Rightarrow> u8 list \<Rightarrow> (b64_static \<times> char list \<times> nat) option" where
  "base64_encode junk st text =
     (let sz = length text;
          st0 = st\<lparr>alloc_buffer := None\<rparr>;
          encode_sz = (sz + 2) div 3 * 4;
          small = encode_sz < SMALL_CHUNK;
          buf0 = (if small then small_chunk_encode st0 else map junk [0..<encode_sz + 1])
      in do {
        (buf1, i, j) \<leftarrow> encode_loop text buf0 0 0;
        buf2 \<leftarrow> encode_tail text buf1 i j;
        buf3 \<leftarrow> poke buf2 encode_sz NUL;
        Some (if small then st0\<lparr>small_chunk_encode := buf3\<rparr> else st0\<lparr>alloc_buffer := Some buf3\<rparr>,
              buf3, encode_sz) })"

section \<open>The reference: RFC 4648\<close>

definition bits8 :: "u8 \<Rightarrow> bool list" where
  "bits8 b = map (bit b) [7, 6, 5, 4, 3, 2, 1, 0]"

definition num_of_bits :: "bool list \<Rightarrow> nat" where
  "num_of_bits bs = horner_sum of_bool 2 (rev bs)"

fun sextets :: "bool list \<Rightarrow> char list" where
  "sextets bs = (if bs = [] then []
     else encoding ! num_of_bits (take 6 (bs @ replicate 6 False)) # sextets (drop 6 bs))"

declare sextets.simps [simp del]

definition rfc4648 :: "u8 list \<Rightarrow> char list" where
  "rfc4648 bs = sextets (concat (map bits8 bs)) @ replicate ((3 - length bs mod 3) mod 3) CHR ''=''"

lemma num_of_bits_less: "num_of_bits bs < 2 ^ length bs"
  unfolding num_of_bits_def using horner_sum_of_bool_2_less [of "rev bs"] by simp

lemma length_encoding [simp]: "length encoding = 64"
  by (simp add: encoding_def)

lemma enc_num:
  assumes "length bs = 6" and "\<And>n. n < 32 \<Longrightarrow> bit v n \<longleftrightarrow> n < 6 \<and> bs ! (5 - n)"
  shows "enc v = Some (encoding ! num_of_bits bs)"
proof -
  have "unat v = num_of_bits bs"
  proof (rule bit_eqI)
    fix n
    show "bit (unat v) n \<longleftrightarrow> bit (num_of_bits bs) n"
      using assms by (cases "n < 32")
        (auto simp: num_of_bits_def bit_horner_sum_bit_iff bit_unsigned_iff rev_nth
          dest: bit_imp_le_length)
  qed
  moreover have "num_of_bits bs < 64" using num_of_bits_less [of bs] assms(1) by simp
  ultimately show ?thesis by (simp add: enc_def)
qed

lemma less_6_cases: "n < 6 \<Longrightarrow> n = 0 \<or> n = 1 \<or> n = 2 \<or> n = 3 \<or> n = 4 \<or> n = (5 :: nat)"
  by linarith

lemma enc_bits:
  assumes "\<And>n. n < 6 \<Longrightarrow> bit v n \<longleftrightarrow> [b0, b1, b2, b3, b4, b5] ! (5 - n)"
    and "\<And>n. 6 \<le> n \<Longrightarrow> \<not> bit v n"
  shows "enc v = Some (encoding ! num_of_bits [b0, b1, b2, b3, b4, b5])"
proof (rule enc_num)
  fix n :: nat
  show "bit v n \<longleftrightarrow> n < 6 \<and> [b0, b1, b2, b3, b4, b5] ! (5 - n)"
    by (cases "n < 6") (simp_all add: assms)
qed simp

lemma mask6: "(0x3f :: u32) = mask 6" and mask4: "(0xf :: u32) = mask 4" and mask2: "(3 :: u32) = mask 2"
  by (simp_all add: mask_eq_exp_minus_1)

lemmas sextet_simps = bit_drop_bit_eq bit_and_iff bit_or_iff bit_push_bit_iff
  bit_unsigned_iff u8_bit_high bit_mask_iff

lemma enc_three:
  fixes a b c :: u8
  defines "v \<equiv> push_bit 16 (ucast a) OR push_bit 8 (ucast b) OR ucast c :: u32"
  shows
    "enc (drop_bit 18 v) = Some (encoding ! num_of_bits [bit a 7, bit a 6, bit a 5, bit a 4, bit a 3, bit a 2])"
    "enc (drop_bit 12 v AND mask 6) = Some (encoding ! num_of_bits [bit a 1, bit a 0, bit b 7, bit b 6, bit b 5, bit b 4])"
    "enc (drop_bit 6 v AND mask 6) = Some (encoding ! num_of_bits [bit b 3, bit b 2, bit b 1, bit b 0, bit c 7, bit c 6])"
    "enc (v AND mask 6) = Some (encoding ! num_of_bits [bit c 5, bit c 4, bit c 3, bit c 2, bit c 1, bit c 0])"
  unfolding v_def
  by (rule enc_bits; (drule less_6_cases, elim disjE)?; simp add: sextet_simps del: mask_numeral)+

lemma enc_two:
  fixes a b :: u8
  defines "v \<equiv> push_bit 8 (ucast a) OR ucast b :: u32"
  shows
    "enc (drop_bit 10 v) = Some (encoding ! num_of_bits [bit a 7, bit a 6, bit a 5, bit a 4, bit a 3, bit a 2])"
    "enc (drop_bit 4 v AND mask 6) = Some (encoding ! num_of_bits [bit a 1, bit a 0, bit b 7, bit b 6, bit b 5, bit b 4])"
    "enc (push_bit 2 (v AND mask 4)) = Some (encoding ! num_of_bits [bit b 3, bit b 2, bit b 1, bit b 0, False, False])"
  unfolding v_def
  by (rule enc_bits; (drule less_6_cases, elim disjE)?; auto simp: sextet_simps simp del: mask_numeral)+

lemma enc_one:
  fixes a :: u8
  defines "v \<equiv> ucast a :: u32"
  shows
    "enc (drop_bit 2 v) = Some (encoding ! num_of_bits [bit a 7, bit a 6, bit a 5, bit a 4, bit a 3, bit a 2])"
    "enc (push_bit 4 (v AND mask 2)) = Some (encoding ! num_of_bits [bit a 1, bit a 0, False, False, False, False])"
  unfolding v_def
  by (rule enc_bits; (drule less_6_cases, elim disjE)?; auto simp: sextet_simps simp del: mask_numeral)+

section \<open>The encoder computes the reference\<close>

lemma put4_eq:
  "j + 3 < length buf \<Longrightarrow> put4 buf j a b c d = Some (take j buf @ [a, b, c, d] @ drop (j + 4) buf)"
proof -
  assume j: "j + 3 < length buf"
  then have l: "j = length (take j buf)" by simp
  have "buf = take j buf @ buf ! j # buf ! (j + 1) # buf ! (j + 2) # buf ! (j + 3) # drop (j + 4) buf"
    using j by (simp add: Cons_nth_drop_Suc eval_nat_numeral)
  then obtain x y z w where b: "buf = take j buf @ x # y # z # w # drop (j + 4) buf" by blast
  have "put4 (p @ x # y # z # w # q) (length p) a b c d = Some (p @ [a, b, c, d] @ q)" for p q
    by (simp add: put4_def list_update_append)
  from this [of "take j buf" "drop (j + 4) buf"] show ?thesis
    unfolding l [symmetric] b [symmetric] .
qed

fun b64 :: "u8 list \<Rightarrow> char list" where
  "b64 (a # b # c # r) =
     [encoding ! num_of_bits [bit a 7, bit a 6, bit a 5, bit a 4, bit a 3, bit a 2],
      encoding ! num_of_bits [bit a 1, bit a 0, bit b 7, bit b 6, bit b 5, bit b 4],
      encoding ! num_of_bits [bit b 3, bit b 2, bit b 1, bit b 0, bit c 7, bit c 6],
      encoding ! num_of_bits [bit c 5, bit c 4, bit c 3, bit c 2, bit c 1, bit c 0]] @ b64 r"
| "b64 [a, b] =
     [encoding ! num_of_bits [bit a 7, bit a 6, bit a 5, bit a 4, bit a 3, bit a 2],
      encoding ! num_of_bits [bit a 1, bit a 0, bit b 7, bit b 6, bit b 5, bit b 4],
      encoding ! num_of_bits [bit b 3, bit b 2, bit b 1, bit b 0, False, False], CHR ''='']"
| "b64 [a] =
     [encoding ! num_of_bits [bit a 7, bit a 6, bit a 5, bit a 4, bit a 3, bit a 2],
      encoding ! num_of_bits [bit a 1, bit a 0, False, False, False, False], CHR ''='', CHR ''='']"
| "b64 [] = []"

lemma sextets_Nil: "sextets [] = []"
  by (simp add: sextets.simps)

lemma sextets_six: "sextets (a # b # c # d # e # f # r) = encoding ! num_of_bits [a, b, c, d, e, f] # sextets r"
  by (subst sextets.simps) simp

lemma sextets_rest:
  "sextets [a, b] = [encoding ! num_of_bits [a, b, False, False, False, False]]"
  "sextets [a, b, c, d] = [encoding ! num_of_bits [a, b, c, d, False, False]]"
  by (subst sextets.simps; simp add: sextets_Nil numeral_eq_Suc)+

lemma b64_rfc4648: "b64 bs = rfc4648 bs"
proof (induction bs rule: b64.induct)
  case (1 a b c r)
  have "length (a # b # c # r) = length r + 3" by simp
  then have "(3 - length (a # b # c # r) mod 3) mod 3 = (3 - length r mod 3) mod 3"
    by (simp only: mod_add_self2)
  with 1 show ?case
    by (simp only: rfc4648_def) (simp add: bits8_def sextets_six)
qed (simp_all add: rfc4648_def bits8_def sextets_six sextets_rest sextets_Nil numeral_2_eq_2)

lemma length_b64: "length (b64 bs) = (length bs + 2) div 3 * 4"
proof (induction bs rule: b64.induct)
  case (1 a b c r)
  have "length (a # b # c # r) + 2 = (length r + 2) + 3" by simp
  then have "(length (a # b # c # r) + 2) div 3 = (length r + 2) div 3 + 1"
    by (simp only: div_add_self2)
  with 1 show ?case by simp
qed simp_all

lemma encoding_nul_free: "nul_free encoding"
  by (simp add: encoding_def)

lemma nul_free_encoded: "length bs = 6 \<Longrightarrow> encoding ! num_of_bits bs \<noteq> NUL"
proof -
  assume "length bs = 6"
  then have "num_of_bits bs < length encoding" using num_of_bits_less [of bs] by simp
  then have "encoding ! num_of_bits bs \<in> set encoding" by (rule nth_mem)
  then show ?thesis using encoding_nul_free by (auto simp: nul_free_def)
qed

lemma nul_free_b64: "nul_free (b64 bs)"
  by (induction bs rule: b64.induct) (simp_all add: nul_free_encoded)

lemma drop_cases3:
  assumes "i + 2 < length xs"
  shows "drop i xs = xs ! i # xs ! (i + 1) # xs ! (i + 2) # drop (i + 3) xs"
  using assms by (simp add: Cons_nth_drop_Suc eval_nat_numeral)

lemma drop_add_4: "drop (j + 4) xs = drop (Suc (Suc (Suc (Suc j)))) xs"
  by (simp add: eval_nat_numeral)

lemma encode_steps:
  "i \<le> length inp \<Longrightarrow> j + length (b64 (drop i inp)) \<le> length buf \<Longrightarrow>
   \<exists>buf1 i1 j1. encode_loop inp buf i j = Some (buf1, i1, j1) \<and>
     encode_tail inp buf1 i1 j1 =
       Some (take j buf @ b64 (drop i inp) @ drop (j + length (b64 (drop i inp))) buf)"
proof (induction inp buf i j rule: encode_loop.induct)
  case (1 inp buf i j)
  show ?case
  proof (cases "i + 2 < length inp")
    case True
    note d = drop_cases3 [OF True]
    define R where "R = b64 (drop (i + 3) inp)"
    define four where "four = take 4 (b64 (drop i inp))"
    have v: "b64 (drop i inp) = four @ R" "length four = 4"
      by (simp_all add: d four_def R_def)
    have e: "encode3 inp buf i j = Some (take j buf @ four @ drop (j + 4) buf)"
      using True 1(3)
      by (simp add: encode3_def mask6 enc_three put4_eq d four_def del: mask_numeral drop_bit_or push_bit_and)
    let ?buf = "take j buf @ four @ drop (j + 4) buf"
    have j: "j + 4 + length R \<le> length buf" using 1(3) by (simp add: v)
    then have l: "length ?buf = length buf" using v(2) by simp
    obtain buf1 i1 j1 where loop: "encode_loop inp ?buf (i + 3) (j + 4) = Some (buf1, i1, j1)"
      and tail: "encode_tail inp buf1 i1 j1 = Some (take (j + 4) ?buf @ R @ drop (j + 4 + length R) ?buf)"
      using 1(1) [OF True e] True j l unfolding R_def [symmetric] by auto
    have a: "take (j + 4) ?buf = take j buf @ four" using j v(2) by simp
    have b: "drop (j + 4 + length R) ?buf = drop (j + 4 + length R) buf"
      using j v(2) by (simp add: ac_simps)
    have "encode_loop inp buf i j = Some (buf1, i1, j1)"
      using True by (subst encode_loop.simps) (simp only: e loop option.case if_True)
    with tail show ?thesis
      unfolding a b by (simp add: v ac_simps)
  next
    case False
    note prem = 1(2,3)
    from False prem(1) consider (none) "length inp = i" | (one) "length inp = i + 1"
      | (two) "length inp = i + 2"
      by linarith
    then show ?thesis
    proof cases
      case none
      then show ?thesis by (subst encode_loop.simps) (simp add: encode_tail_def)
    next
      case one
      then have "drop i inp = [inp ! i]" by (simp flip: Cons_nth_drop_Suc)
      with one prem show ?thesis
        by (subst encode_loop.simps) (simp add: encode_tail_def mask2 enc_one put4_eq drop_add_4 del: mask_numeral drop_bit_or push_bit_and)
    next
      case two
      then have "drop i inp = [inp ! i, inp ! Suc i]" by (simp flip: Cons_nth_drop_Suc)
      with two prem show ?thesis
        by (subst encode_loop.simps)
          (simp add: encode_tail_def mask6 mask4 enc_two put4_eq drop_add_4 del: mask_numeral drop_bit_or push_bit_and)
    qed
  qed
qed

lemma base64_encode_computes:
  assumes "length (small_chunk_encode st) = 256"
  shows "\<exists>st' buf. base64_encode junk st inp = Some (st', buf, length (rfc4648 inp))
    \<and> c_str buf = rfc4648 inp \<and> length (rfc4648 inp) < length buf
    \<and> length (small_chunk_encode st') = 256"
proof -
  let ?n = "(length inp + 2) div 3 * 4"
  let ?r = "rfc4648 inp"
  have r: "length ?r = ?n" "nul_free ?r" using length_b64 [of inp] nul_free_b64 [of inp]
    by (simp_all add: b64_rfc4648)
  define small where "small \<longleftrightarrow> ?n < SMALL_CHUNK"
  define buf0 where "buf0 = (if small then small_chunk_encode (st\<lparr>alloc_buffer := None\<rparr>) else map junk [0..<?n + 1])"
  have l: "?n < length buf0" using assms by (simp add: buf0_def small_def SMALL_CHUNK_def)
  obtain buf1 i1 j1 where "encode_loop inp buf0 0 0 = Some (buf1, i1, j1)"
    and "encode_tail inp buf1 i1 j1 = Some (?r @ drop ?n buf0)"
    using encode_steps [of 0 inp 0 buf0] l r(1) by (auto simp: b64_rfc4648)
  moreover have "poke (?r @ drop ?n buf0) ?n NUL = Some (?r @ NUL # drop (?n + 1) buf0)"
  proof -
    have "drop ?n buf0 = buf0 ! ?n # drop (?n + 1) buf0" using l by (simp flip: Cons_nth_drop_Suc)
    moreover have "poke (?r @ x # y) ?n NUL = Some (?r @ NUL # y)" for x y
      unfolding r(1) [symmetric] by (simp add: list_update_append)
    ultimately show ?thesis by (simp only:)
  qed
  ultimately have e: "base64_encode junk st inp =
      Some (if small then st\<lparr>alloc_buffer := None, small_chunk_encode := ?r @ NUL # drop (?n + 1) buf0\<rparr>
              else st\<lparr>alloc_buffer := Some (?r @ NUL # drop (?n + 1) buf0)\<rparr>,
            ?r @ NUL # drop (?n + 1) buf0, ?n)"
    unfolding base64_encode_def Let_def small_def [symmetric] buf0_def [symmetric] by simp
  have s: "length (?r @ NUL # drop (?n + 1) buf0) = length buf0" using l r(1) by simp
  show ?thesis
    unfolding e using s r assms l by (auto simp: buf0_def)
qed



lemma rfc4648_example: "rfc4648 [77, 97] = ''TWE=''"
  by code_simp

end
