(* ===== verification/HttpTypes.thy ===== *)
theory HttpTypes
  imports Prelude
begin

text \<open>
  The data of \<open>src/ServerEngine/http_parser/http_parser.h\<close> and the static tables and
  character classes of \<open>http_parser.c\<close>, in strict mode: the parser states with their
  order, header states, methods, error numbers, the parser object with its bit fields at
  their width, and the callback record.
\<close>

section \<open>Characters\<close>

abbreviation CR :: char where "CR \<equiv> CHR 0x0D"
abbreviation LF :: char where "LF \<equiv> CHR 0x0A"
abbreviation TAB :: char where "TAB \<equiv> CHR 0x09"
abbreviation SP :: char where "SP \<equiv> CHR 0x20"

text \<open>\<open>LOWER\<close> sets bit 5.\<close>

fun LOWER :: "char \<Rightarrow> char" where
  "LOWER (Char b0 b1 b2 b3 b4 b5 b6 b7) = Char b0 b1 b2 b3 b4 True b6 b7"

definition IS_ALPHA :: "char \<Rightarrow> bool" where
  "IS_ALPHA c \<longleftrightarrow> ord CHR ''a'' \<le> ord (LOWER c) \<and> ord (LOWER c) \<le> ord CHR ''z''"

definition IS_NUM :: "char \<Rightarrow> bool" where
  "IS_NUM c \<longleftrightarrow> ord CHR ''0'' \<le> ord c \<and> ord c \<le> ord CHR ''9''"

definition IS_ALPHANUM :: "char \<Rightarrow> bool" where
  "IS_ALPHANUM c \<longleftrightarrow> IS_ALPHA c \<or> IS_NUM c"

definition IS_HEX :: "char \<Rightarrow> bool" where
  "IS_HEX c \<longleftrightarrow> IS_NUM c \<or> (ord CHR ''a'' \<le> ord (LOWER c) \<and> ord (LOWER c) \<le> ord CHR ''f'')"

definition IS_MARK :: "char \<Rightarrow> bool" where
  "IS_MARK c \<longleftrightarrow> c \<in> {CHR ''-'', CHR ''_'', CHR ''.'', CHR ''!'', CHR ''~'', CHR ''*'',
     CHR 0x27, CHR ''('', CHR '')''}"

definition IS_USERINFO_CHAR :: "char \<Rightarrow> bool" where
  "IS_USERINFO_CHAR c \<longleftrightarrow> IS_ALPHANUM c \<or> IS_MARK c
     \<or> c \<in> {CHR ''%'', CHR '';'', CHR '':'', CHR ''&'', CHR ''='', CHR ''+'', CHR ''$'', CHR '',''}"

definition IS_HOST_CHAR :: "char \<Rightarrow> bool" where
  "IS_HOST_CHAR c \<longleftrightarrow> IS_ALPHANUM c \<or> c = CHR ''.'' \<or> c = CHR ''-''"

definition IS_HEADER_CHAR :: "char \<Rightarrow> bool" where
  "IS_HEADER_CHAR c \<longleftrightarrow> c = CR \<or> c = LF \<or> ord c = 9 \<or> (31 < ord c \<and> ord c \<noteq> 127)"

text \<open>\<open>ch - '0'\<close> of a digit.\<close>

definition digit :: "char \<Rightarrow> nat" where
  "digit c = ord c - ord CHR ''0''"

section \<open>Tables\<close>

text \<open>
  The tables have 256 entries of which the code initialises the first half (the first
  sixteen bytes of the bitmap); the rest is zero.
\<close>

definition tokens_table :: "char list" where
  "tokens_table = replicate 33 NUL @
     [CHR ''!'', NUL, CHR ''#'', CHR ''$'', CHR ''%'', CHR ''&'', CHR 0x27,
      NUL, NUL, CHR ''*'', CHR ''+'', NUL, CHR ''-'', CHR ''.'', NUL]
     @ ''0123456789'' @ replicate 7 NUL @ ''abcdefghijklmnopqrstuvwxyz'' @
     [NUL, NUL, NUL, CHR ''^'', CHR ''_'', CHR 0x60] @ ''abcdefghijklmnopqrstuvwxyz'' @
     [NUL, CHR ''|'', NUL, CHR ''~'', NUL] @ replicate 128 NUL"

definition TOKEN :: "char \<Rightarrow> char" where
  "TOKEN c = tokens_table ! ord c"

definition unhex_table :: "int list" where
  "unhex_table = replicate 48 (-1) @ [0, 1, 2, 3, 4, 5, 6, 7, 8, 9] @ replicate 7 (-1)
     @ [10, 11, 12, 13, 14, 15] @ replicate 26 (-1) @ [10, 11, 12, 13, 14, 15]
     @ replicate 25 (-1) @ replicate 128 0"

definition unhex :: "char \<Rightarrow> int" where
  "unhex c = unhex_table ! ord c"

definition normal_url_char :: "u8 list" where
  "normal_url_char = [0, 0, 0, 0, 2 OR 4 OR 16 OR 32 OR 64 OR 128, 255, 255, 127,
     255, 255, 255, 255, 255, 255, 255, 127] @ replicate 16 0"

definition IS_URL_CHAR :: "char \<Rightarrow> bool" where
  "IS_URL_CHAR c \<longleftrightarrow> bit (normal_url_char ! (ord c div 8)) (ord c mod 8)"

section \<open>Enumerations\<close>

datatype state =
    s_dead | s_start_req_or_res | s_res_or_resp_H | s_start_res | s_res_H | s_res_HT | s_res_HTT
  | s_res_HTTP | s_res_first_http_major | s_res_http_major | s_res_first_http_minor
  | s_res_http_minor | s_res_first_status_code | s_res_status_code | s_res_status_start
  | s_res_status | s_res_line_almost_done | s_start_req | s_req_method
  | s_req_spaces_before_url | s_req_schema | s_req_schema_slash | s_req_schema_slash_slash
  | s_req_server_start | s_req_server | s_req_server_with_at | s_req_path
  | s_req_query_string_start | s_req_query_string | s_req_fragment_start | s_req_fragment
  | s_req_http_start | s_req_http_H | s_req_http_HT | s_req_http_HTT | s_req_http_HTTP
  | s_req_first_http_major | s_req_http_major | s_req_first_http_minor | s_req_http_minor
  | s_req_line_almost_done | s_header_field_start | s_header_field
  | s_header_value_discard_ws | s_header_value_discard_ws_almost_done
  | s_header_value_discard_lws | s_header_value_start | s_header_value | s_header_value_lws
  | s_header_almost_done | s_chunk_size_start | s_chunk_size | s_chunk_parameters
  | s_chunk_size_almost_done | s_headers_almost_done | s_headers_done | s_chunk_data
  | s_chunk_data_almost_done | s_chunk_data_done | s_body_identity | s_body_identity_eof
  | s_message_done

text \<open>
  The states are ordered by their numbers, which start with 1 as zero is no state; \<open>PARSING_HEADER\<close>
  compares with the last state of a header.
\<close>

definition states :: "state list" where
  "states = [
    s_dead, s_start_req_or_res, s_res_or_resp_H, s_start_res, s_res_H, s_res_HT, s_res_HTT,
    s_res_HTTP, s_res_first_http_major, s_res_http_major, s_res_first_http_minor,
    s_res_http_minor, s_res_first_status_code, s_res_status_code, s_res_status_start,
    s_res_status, s_res_line_almost_done, s_start_req, s_req_method, s_req_spaces_before_url,
    s_req_schema, s_req_schema_slash, s_req_schema_slash_slash, s_req_server_start, s_req_server,
    s_req_server_with_at, s_req_path, s_req_query_string_start, s_req_query_string,
    s_req_fragment_start, s_req_fragment, s_req_http_start, s_req_http_H, s_req_http_HT,
    s_req_http_HTT, s_req_http_HTTP, s_req_first_http_major, s_req_http_major,
    s_req_first_http_minor, s_req_http_minor, s_req_line_almost_done, s_header_field_start,
    s_header_field, s_header_value_discard_ws, s_header_value_discard_ws_almost_done,
    s_header_value_discard_lws, s_header_value_start, s_header_value, s_header_value_lws,
    s_header_almost_done, s_chunk_size_start, s_chunk_size, s_chunk_parameters,
    s_chunk_size_almost_done, s_headers_almost_done, s_headers_done, s_chunk_data,
    s_chunk_data_almost_done, s_chunk_data_done, s_body_identity, s_body_identity_eof,
    s_message_done]"

definition state_number :: "state \<Rightarrow> nat" where
  "state_number s = Suc (length (takeWhile (\<lambda>t. t \<noteq> s) states))"

lemma states_complete: "s \<in> set states"
  by (cases s) (simp_all add: states_def)

lemma state_number_nth: "states ! (state_number s - 1) = s"
proof -
  have "dropWhile (\<lambda>t. t \<noteq> s) states \<noteq> []" using states_complete [of s] by (auto simp: dropWhile_eq_Nil_conv)
  then have "length (takeWhile (\<lambda>t. t \<noteq> s) states) < length states"
    using arg_cong [OF takeWhile_dropWhile_id [of "\<lambda>t. t \<noteq> s" states], of length] by (cases "dropWhile (\<lambda>t. t \<noteq> s) states") simp_all
  from nth_length_takeWhile [OF this] show ?thesis by (simp add: state_number_def)
qed

lemma state_number_inject: "state_number s = state_number t \<longleftrightarrow> s = t"
  by (metis state_number_nth)

instantiation state :: linorder
begin

definition less_eq_state :: "state \<Rightarrow> state \<Rightarrow> bool" where
  "less_eq_state s t \<longleftrightarrow> state_number s \<le> state_number t"

definition less_state :: "state \<Rightarrow> state \<Rightarrow> bool" where
  "less_state s t \<longleftrightarrow> state_number s < state_number t"

instance
  by standard (auto simp: less_eq_state_def less_state_def state_number_inject)

end

definition PARSING_HEADER :: "state \<Rightarrow> bool" where
  "PARSING_HEADER s \<longleftrightarrow> s \<le> s_headers_done"

text \<open>The body states are the ones behind; this form is the one to compute with.\<close>

lemma PARSING_HEADER_code [code]:
  "PARSING_HEADER s = (case s of s_chunk_data \<Rightarrow> False | s_chunk_data_almost_done \<Rightarrow> False
     | s_chunk_data_done \<Rightarrow> False | s_body_identity \<Rightarrow> False | s_body_identity_eof \<Rightarrow> False
     | s_message_done \<Rightarrow> False | _ \<Rightarrow> True)"
  by (cases s) (simp_all add: PARSING_HEADER_def less_eq_state_def state_number_def states_def)

datatype header_states =
    h_general | h_C | h_CO | h_CON | h_matching_connection | h_matching_proxy_connection
  | h_matching_content_length | h_matching_transfer_encoding | h_matching_upgrade
  | h_connection | h_content_length | h_transfer_encoding | h_upgrade
  | h_matching_transfer_encoding_chunked | h_matching_connection_token_start
  | h_matching_connection_keep_alive | h_matching_connection_close
  | h_matching_connection_upgrade | h_matching_connection_token
  | h_transfer_encoding_chunked | h_connection_keep_alive | h_connection_close
  | h_connection_upgrade

datatype http_method =
    HTTP_DELETE | HTTP_GET | HTTP_HEAD | HTTP_POST | HTTP_PUT | HTTP_CONNECT | HTTP_OPTIONS
  | HTTP_TRACE | HTTP_COPY | HTTP_LOCK | HTTP_MKCOL | HTTP_MOVE | HTTP_PROPFIND
  | HTTP_PROPPATCH | HTTP_SEARCH | HTTP_UNLOCK | HTTP_BIND | HTTP_REBIND | HTTP_UNBIND
  | HTTP_ACL | HTTP_REPORT | HTTP_MKACTIVITY | HTTP_CHECKOUT | HTTP_MERGE | HTTP_MSEARCH
  | HTTP_NOTIFY | HTTP_SUBSCRIBE | HTTP_UNSUBSCRIBE | HTTP_PATCH | HTTP_PURGE
  | HTTP_MKCALENDAR | HTTP_LINK | HTTP_UNLINK

primrec method_strings :: "http_method \<Rightarrow> char list" where
  "method_strings HTTP_DELETE = ''DELETE''"
| "method_strings HTTP_GET = ''GET''"
| "method_strings HTTP_HEAD = ''HEAD''"
| "method_strings HTTP_POST = ''POST''"
| "method_strings HTTP_PUT = ''PUT''"
| "method_strings HTTP_CONNECT = ''CONNECT''"
| "method_strings HTTP_OPTIONS = ''OPTIONS''"
| "method_strings HTTP_TRACE = ''TRACE''"
| "method_strings HTTP_COPY = ''COPY''"
| "method_strings HTTP_LOCK = ''LOCK''"
| "method_strings HTTP_MKCOL = ''MKCOL''"
| "method_strings HTTP_MOVE = ''MOVE''"
| "method_strings HTTP_PROPFIND = ''PROPFIND''"
| "method_strings HTTP_PROPPATCH = ''PROPPATCH''"
| "method_strings HTTP_SEARCH = ''SEARCH''"
| "method_strings HTTP_UNLOCK = ''UNLOCK''"
| "method_strings HTTP_BIND = ''BIND''"
| "method_strings HTTP_REBIND = ''REBIND''"
| "method_strings HTTP_UNBIND = ''UNBIND''"
| "method_strings HTTP_ACL = ''ACL''"
| "method_strings HTTP_REPORT = ''REPORT''"
| "method_strings HTTP_MKACTIVITY = ''MKACTIVITY''"
| "method_strings HTTP_CHECKOUT = ''CHECKOUT''"
| "method_strings HTTP_MERGE = ''MERGE''"
| "method_strings HTTP_MSEARCH = ''M-SEARCH''"
| "method_strings HTTP_NOTIFY = ''NOTIFY''"
| "method_strings HTTP_SUBSCRIBE = ''SUBSCRIBE''"
| "method_strings HTTP_UNSUBSCRIBE = ''UNSUBSCRIBE''"
| "method_strings HTTP_PATCH = ''PATCH''"
| "method_strings HTTP_PURGE = ''PURGE''"
| "method_strings HTTP_MKCALENDAR = ''MKCALENDAR''"
| "method_strings HTTP_LINK = ''LINK''"
| "method_strings HTTP_UNLINK = ''UNLINK''"

datatype http_parser_type = HTTP_REQUEST | HTTP_RESPONSE | HTTP_BOTH

datatype http_errno =
    HPE_OK | HPE_CB_message_begin | HPE_CB_url | HPE_CB_header_field | HPE_CB_header_value
  | HPE_CB_headers_complete | HPE_CB_body | HPE_CB_message_complete | HPE_CB_status
  | HPE_CB_chunk_header | HPE_CB_chunk_complete | HPE_INVALID_EOF_STATE
  | HPE_HEADER_OVERFLOW | HPE_CLOSED_CONNECTION | HPE_INVALID_VERSION | HPE_INVALID_STATUS
  | HPE_INVALID_METHOD | HPE_INVALID_URL | HPE_INVALID_HOST | HPE_INVALID_PORT
  | HPE_INVALID_PATH | HPE_INVALID_QUERY_STRING | HPE_INVALID_FRAGMENT | HPE_LF_EXPECTED
  | HPE_INVALID_HEADER_TOKEN | HPE_INVALID_CONTENT_LENGTH | HPE_UNEXPECTED_CONTENT_LENGTH
  | HPE_INVALID_CHUNK_SIZE | HPE_INVALID_CONSTANT | HPE_INVALID_INTERNAL_STATE | HPE_STRICT
  | HPE_PAUSED | HPE_UNKNOWN

definition http_method_str :: "http_method \<Rightarrow> char list" where
  "http_method_str m = method_strings m"

primrec http_errno_description :: "http_errno \<Rightarrow> char list" where
  "http_errno_description HPE_OK = ''success''"
| "http_errno_description HPE_CB_message_begin =
     ''the on_message_begin callback failed''"
| "http_errno_description HPE_CB_url =
     ''the on_url callback failed''"
| "http_errno_description HPE_CB_header_field =
     ''the on_header_field callback failed''"
| "http_errno_description HPE_CB_header_value =
     ''the on_header_value callback failed''"
| "http_errno_description HPE_CB_headers_complete =
     ''the on_headers_complete callback failed''"
| "http_errno_description HPE_CB_body =
     ''the on_body callback failed''"
| "http_errno_description HPE_CB_message_complete =
     ''the on_message_complete callback failed''"
| "http_errno_description HPE_CB_status =
     ''the on_status callback failed''"
| "http_errno_description HPE_CB_chunk_header =
     ''the on_chunk_header callback failed''"
| "http_errno_description HPE_CB_chunk_complete =
     ''the on_chunk_complete callback failed''"
| "http_errno_description HPE_INVALID_EOF_STATE =
     ''stream ended at an unexpected time''"
| "http_errno_description HPE_HEADER_OVERFLOW =
     ''too many header bytes seen; overflow detected''"
| "http_errno_description HPE_CLOSED_CONNECTION =
     ''data received after completed connection: close message''"
| "http_errno_description HPE_INVALID_VERSION =
     ''invalid HTTP version''"
| "http_errno_description HPE_INVALID_STATUS =
     ''invalid HTTP status code''"
| "http_errno_description HPE_INVALID_METHOD =
     ''invalid HTTP method''"
| "http_errno_description HPE_INVALID_URL =
     ''invalid URL''"
| "http_errno_description HPE_INVALID_HOST =
     ''invalid host''"
| "http_errno_description HPE_INVALID_PORT =
     ''invalid port''"
| "http_errno_description HPE_INVALID_PATH =
     ''invalid path''"
| "http_errno_description HPE_INVALID_QUERY_STRING =
     ''invalid query string''"
| "http_errno_description HPE_INVALID_FRAGMENT =
     ''invalid fragment''"
| "http_errno_description HPE_LF_EXPECTED =
     ''LF character expected''"
| "http_errno_description HPE_INVALID_HEADER_TOKEN =
     ''invalid character in header''"
| "http_errno_description HPE_INVALID_CONTENT_LENGTH =
     ''invalid character in content-length header''"
| "http_errno_description HPE_UNEXPECTED_CONTENT_LENGTH =
     ''unexpected content-length header''"
| "http_errno_description HPE_INVALID_CHUNK_SIZE =
     ''invalid character in chunk size header''"
| "http_errno_description HPE_INVALID_CONSTANT =
     ''invalid constant string''"
| "http_errno_description HPE_INVALID_INTERNAL_STATE =
     ''encountered unexpected internal state''"
| "http_errno_description HPE_STRICT =
     ''strict mode assertion failed''"
| "http_errno_description HPE_PAUSED =
     ''parser is paused''"
| "http_errno_description HPE_UNKNOWN =
     ''an unknown error occurred''"

primrec http_errno_name :: "http_errno \<Rightarrow> char list" where
  "http_errno_name HPE_OK = ''HPE_OK''"
| "http_errno_name HPE_CB_message_begin = ''HPE_CB_message_begin''"
| "http_errno_name HPE_CB_url = ''HPE_CB_url''"
| "http_errno_name HPE_CB_header_field = ''HPE_CB_header_field''"
| "http_errno_name HPE_CB_header_value = ''HPE_CB_header_value''"
| "http_errno_name HPE_CB_headers_complete = ''HPE_CB_headers_complete''"
| "http_errno_name HPE_CB_body = ''HPE_CB_body''"
| "http_errno_name HPE_CB_message_complete = ''HPE_CB_message_complete''"
| "http_errno_name HPE_CB_status = ''HPE_CB_status''"
| "http_errno_name HPE_CB_chunk_header = ''HPE_CB_chunk_header''"
| "http_errno_name HPE_CB_chunk_complete = ''HPE_CB_chunk_complete''"
| "http_errno_name HPE_INVALID_EOF_STATE = ''HPE_INVALID_EOF_STATE''"
| "http_errno_name HPE_HEADER_OVERFLOW = ''HPE_HEADER_OVERFLOW''"
| "http_errno_name HPE_CLOSED_CONNECTION = ''HPE_CLOSED_CONNECTION''"
| "http_errno_name HPE_INVALID_VERSION = ''HPE_INVALID_VERSION''"
| "http_errno_name HPE_INVALID_STATUS = ''HPE_INVALID_STATUS''"
| "http_errno_name HPE_INVALID_METHOD = ''HPE_INVALID_METHOD''"
| "http_errno_name HPE_INVALID_URL = ''HPE_INVALID_URL''"
| "http_errno_name HPE_INVALID_HOST = ''HPE_INVALID_HOST''"
| "http_errno_name HPE_INVALID_PORT = ''HPE_INVALID_PORT''"
| "http_errno_name HPE_INVALID_PATH = ''HPE_INVALID_PATH''"
| "http_errno_name HPE_INVALID_QUERY_STRING = ''HPE_INVALID_QUERY_STRING''"
| "http_errno_name HPE_INVALID_FRAGMENT = ''HPE_INVALID_FRAGMENT''"
| "http_errno_name HPE_LF_EXPECTED = ''HPE_LF_EXPECTED''"
| "http_errno_name HPE_INVALID_HEADER_TOKEN = ''HPE_INVALID_HEADER_TOKEN''"
| "http_errno_name HPE_INVALID_CONTENT_LENGTH = ''HPE_INVALID_CONTENT_LENGTH''"
| "http_errno_name HPE_UNEXPECTED_CONTENT_LENGTH = ''HPE_UNEXPECTED_CONTENT_LENGTH''"
| "http_errno_name HPE_INVALID_CHUNK_SIZE = ''HPE_INVALID_CHUNK_SIZE''"
| "http_errno_name HPE_INVALID_CONSTANT = ''HPE_INVALID_CONSTANT''"
| "http_errno_name HPE_INVALID_INTERNAL_STATE = ''HPE_INVALID_INTERNAL_STATE''"
| "http_errno_name HPE_STRICT = ''HPE_STRICT''"
| "http_errno_name HPE_PAUSED = ''HPE_PAUSED''"
| "http_errno_name HPE_UNKNOWN = ''HPE_UNKNOWN''"

section \<open>The parser object\<close>

text \<open>Bits of the \<open>flags\<close> field.\<close>

definition F_CHUNKED :: u8 where "F_CHUNKED = push_bit 0 1"
definition F_CONNECTION_KEEP_ALIVE :: u8 where "F_CONNECTION_KEEP_ALIVE = push_bit 1 1"
definition F_CONNECTION_CLOSE :: u8 where "F_CONNECTION_CLOSE = push_bit 2 1"
definition F_CONNECTION_UPGRADE :: u8 where "F_CONNECTION_UPGRADE = push_bit 3 1"
definition F_TRAILING :: u8 where "F_TRAILING = push_bit 4 1"
definition F_UPGRADE :: u8 where "F_UPGRADE = push_bit 5 1"
definition F_SKIPBODY :: u8 where "F_SKIPBODY = push_bit 6 1"
definition F_CONTENTLENGTH :: u8 where "F_CONTENTLENGTH = push_bit 7 1"

definition HTTP_MAX_HEADER_SIZE :: nat where
  "HTTP_MAX_HEADER_SIZE = 80 * 1024"

definition ULLONG_MAX :: u64 where
  "ULLONG_MAX = - 1"

record http_parser =
  ptype :: http_parser_type
  flags :: u8
  pstate :: state
  header_state :: header_states
  index :: "7 word"
  lenient_http_headers :: bool
  nread :: u32
  content_length :: u64
  http_major :: u16
  http_minor :: u16
  status_code :: u16
  meth :: http_method
  errno :: http_errno
  upgrade :: bool
  user_data :: nat

text \<open>
  Callbacks: they get the parser and, for data callbacks, the bytes of the slice, and
  return their C result with the parser as they left it.  \<open>'w\<close> is the state outside the
  parser the callbacks work on.  A null pointer is \<open>None\<close>.
\<close>

type_synonym 'w http_cb = "http_parser \<Rightarrow> 'w \<Rightarrow> int \<times> http_parser \<times> 'w"
type_synonym 'w http_data_cb = "http_parser \<Rightarrow> char list \<Rightarrow> 'w \<Rightarrow> int \<times> http_parser \<times> 'w"

record 'w http_parser_settings =
  on_message_begin :: "'w http_cb option"
  on_url :: "'w http_data_cb option"
  on_status :: "'w http_data_cb option"
  on_header_field :: "'w http_data_cb option"
  on_header_value :: "'w http_data_cb option"
  on_headers_complete :: "'w http_cb option"
  on_body :: "'w http_data_cb option"
  on_message_complete :: "'w http_cb option"
  on_chunk_header :: "'w http_cb option"
  on_chunk_complete :: "'w http_cb option"

definition has_flag :: "http_parser \<Rightarrow> u8 \<Rightarrow> bool" where
  "has_flag q f \<longleftrightarrow> flags q AND f \<noteq> 0"

definition set_flag :: "u8 \<Rightarrow> http_parser \<Rightarrow> http_parser" where
  "set_flag f q = q\<lparr>flags := flags q OR f\<rparr>"

section \<open>Initialisation and queries\<close>

definition http_parser_init :: "http_parser \<Rightarrow> http_parser_type \<Rightarrow> http_parser" where
  "http_parser_init q t = \<lparr>ptype = t, flags = 0,
     pstate = (if t = HTTP_REQUEST then s_start_req
               else if t = HTTP_RESPONSE then s_start_res else s_start_req_or_res),
     header_state = h_general, index = 0, lenient_http_headers = False, nread = 0,
     content_length = 0, http_major = 0, http_minor = 0, status_code = 0,
     meth = HTTP_DELETE, errno = HPE_OK, upgrade = False, user_data = user_data q\<rparr>"

definition http_parser_settings_init :: "'w http_parser_settings" where
  "http_parser_settings_init = \<lparr>on_message_begin = None, on_url = None, on_status = None,
     on_header_field = None, on_header_value = None, on_headers_complete = None,
     on_body = None, on_message_complete = None, on_chunk_header = None,
     on_chunk_complete = None\<rparr>"

definition http_message_needs_eof :: "http_parser \<Rightarrow> bool" where
  "http_message_needs_eof q =
     (if ptype q = HTTP_REQUEST then False
      else if status_code q div 100 = 1 \<or> status_code q = 204 \<or> status_code q = 304
        \<or> has_flag q F_SKIPBODY then False
      else if has_flag q F_CHUNKED \<or> content_length q \<noteq> ULLONG_MAX then False
      else True)"

definition http_should_keep_alive :: "http_parser \<Rightarrow> bool" where
  "http_should_keep_alive q =
     (if 0 < http_major q \<and> 0 < http_minor q then
        (if has_flag q F_CONNECTION_CLOSE then False else \<not> http_message_needs_eof q)
      else if \<not> has_flag q F_CONNECTION_KEEP_ALIVE then False
      else \<not> http_message_needs_eof q)"

definition start_state :: "http_parser \<Rightarrow> state" where
  "start_state q = (if ptype q = HTTP_REQUEST then s_start_req else s_start_res)"

definition NEW_MESSAGE :: "http_parser \<Rightarrow> state" where
  "NEW_MESSAGE q = (if http_should_keep_alive q then start_state q else s_dead)"

text \<open>\<open>http_parser_pause\<close>: \<open>None\<close> is the failed assertion.\<close>

definition http_parser_pause :: "http_parser \<Rightarrow> bool \<Rightarrow> http_parser option" where
  "http_parser_pause q paused =
     (if errno q = HPE_OK \<or> errno q = HPE_PAUSED
      then Some (q\<lparr>errno := (if paused then HPE_PAUSED else HPE_OK)\<rparr>) else None)"

definition http_body_is_final :: "http_parser \<Rightarrow> bool" where
  "http_body_is_final q \<longleftrightarrow> pstate q = s_message_done"

definition http_parser_version :: nat where
  "http_parser_version = 2 * 0x10000 OR 7 * 0x00100 OR 1 * 0x00001"

section \<open>Facts about characters and flags\<close>

lemma length_tokens_table: "length tokens_table = 256"
  by (simp add: tokens_table_def)

lemma length_unhex_table: "length unhex_table = 256"
  by (simp add: unhex_table_def)

lemma length_normal_url_char: "length normal_url_char = 32"
  by (simp add: normal_url_char_def)

lemma unhex_bounds: "unhex c = - 1 \<or> 0 \<le> unhex c \<and> unhex c < 16"
proof -
  have "\<forall>v\<in>set unhex_table. v = - 1 \<or> 0 \<le> v \<and> v < 16"
    by (auto simp: unhex_table_def)
  moreover have "unhex c \<in> set unhex_table"
    unfolding unhex_def by (rule nth_mem) (simp add: length_unhex_table)
  ultimately show ?thesis by blast
qed

lemma digit_less: "IS_NUM c \<Longrightarrow> digit c < 10"
  unfolding IS_NUM_def digit_def by simp linarith

end
