(* ===== verification/HttpUrl.thy ===== *)
theory HttpUrl
  imports HttpTypes
begin

text \<open>
  The URL parser of \<open>src/ServerEngine/http_parser/http_parser.c\<close>: the byte-wise
  automaton \<open>parse_url_char\<close>, which \<open>http_parser_execute\<close> shares, and
  \<open>http_parser_parse_url\<close> with its host automaton.  The buffer is the memory from
  \<open>buf\<close> on, which may go on behind \<open>buflen\<close>: \<open>strtoul\<close> reads the port up to the first
  character that is not a digit, wherever that is.
\<close>

section \<open>The URL automaton\<close>

definition url_alpha_start :: "char \<Rightarrow> state" where
  "url_alpha_start ch =
     (if ch = CHR ''/'' \<or> ch = CHR ''*'' then s_req_path
      else if IS_ALPHA ch then s_req_schema else s_dead)"

definition url_server :: "char \<Rightarrow> state" where
  "url_server ch =
     (if ch = CHR ''/'' then s_req_path
      else if ch = CHR ''?'' then s_req_query_string_start
      else if ch = CHR ''@'' then s_req_server_with_at
      else if IS_USERINFO_CHAR ch \<or> ch = CHR ''['' \<or> ch = CHR '']'' then s_req_server
      else s_dead)"

definition parse_url_char :: "state \<Rightarrow> char \<Rightarrow> state" where
  "parse_url_char s ch =
     (if ch = SP \<or> ch = CR \<or> ch = LF then s_dead
      else if ch = TAB \<or> ch = CHR 0x0C then s_dead
      else case s of
        s_req_spaces_before_url \<Rightarrow> url_alpha_start ch
      | s_req_schema \<Rightarrow>
          (if IS_ALPHA ch then s else if ch = CHR '':'' then s_req_schema_slash else s_dead)
      | s_req_schema_slash \<Rightarrow> (if ch = CHR ''/'' then s_req_schema_slash_slash else s_dead)
      | s_req_schema_slash_slash \<Rightarrow> (if ch = CHR ''/'' then s_req_server_start else s_dead)
      | s_req_server_with_at \<Rightarrow> (if ch = CHR ''@'' then s_dead else url_server ch)
      | s_req_server_start \<Rightarrow> url_server ch
      | s_req_server \<Rightarrow> url_server ch
      | s_req_path \<Rightarrow>
          (if IS_URL_CHAR ch then s
           else if ch = CHR ''?'' then s_req_query_string_start
           else if ch = CHR ''#'' then s_req_fragment_start else s_dead)
      | s_req_query_string_start \<Rightarrow>
          (if IS_URL_CHAR ch then s_req_query_string
           else if ch = CHR ''?'' then s_req_query_string
           else if ch = CHR ''#'' then s_req_fragment_start else s_dead)
      | s_req_query_string \<Rightarrow>
          (if IS_URL_CHAR ch then s_req_query_string
           else if ch = CHR ''?'' then s_req_query_string
           else if ch = CHR ''#'' then s_req_fragment_start else s_dead)
      | s_req_fragment_start \<Rightarrow>
          (if IS_URL_CHAR ch then s_req_fragment
           else if ch = CHR ''?'' then s_req_fragment
           else if ch = CHR ''#'' then s else s_dead)
      | s_req_fragment \<Rightarrow>
          (if IS_URL_CHAR ch then s
           else if ch = CHR ''?'' \<or> ch = CHR ''#'' then s else s_dead)
      | _ \<Rightarrow> s_dead)"

section \<open>The host automaton\<close>

datatype http_host_state =
    s_http_host_dead | s_http_userinfo_start | s_http_userinfo | s_http_host_start
  | s_http_host_v6_start | s_http_host | s_http_host_v6 | s_http_host_v6_end
  | s_http_host_v6_zone_start | s_http_host_v6_zone | s_http_host_port_start
  | s_http_host_port

definition host_v6_char :: "char \<Rightarrow> bool" where
  "host_v6_char ch \<longleftrightarrow> IS_HEX ch \<or> ch = CHR '':'' \<or> ch = CHR ''.''"

definition host_zone_char :: "char \<Rightarrow> bool" where
  "host_zone_char ch \<longleftrightarrow> IS_ALPHANUM ch
     \<or> ch \<in> {CHR ''%'', CHR ''.'', CHR ''-'', CHR ''_'', CHR ''~''}"

definition http_parse_host_char :: "http_host_state \<Rightarrow> char \<Rightarrow> http_host_state" where
  "http_parse_host_char s ch = (case s of
      s_http_userinfo \<Rightarrow>
        (if ch = CHR ''@'' then s_http_host_start
         else if IS_USERINFO_CHAR ch then s_http_userinfo else s_http_host_dead)
    | s_http_userinfo_start \<Rightarrow>
        (if ch = CHR ''@'' then s_http_host_start
         else if IS_USERINFO_CHAR ch then s_http_userinfo else s_http_host_dead)
    | s_http_host_start \<Rightarrow>
        (if ch = CHR ''['' then s_http_host_v6_start
         else if IS_HOST_CHAR ch then s_http_host else s_http_host_dead)
    | s_http_host \<Rightarrow>
        (if IS_HOST_CHAR ch then s_http_host
         else if ch = CHR '':'' then s_http_host_port_start else s_http_host_dead)
    | s_http_host_v6_end \<Rightarrow>
        (if ch = CHR '':'' then s_http_host_port_start else s_http_host_dead)
    | s_http_host_v6 \<Rightarrow>
        (if ch = CHR '']'' then s_http_host_v6_end
         else if host_v6_char ch then s_http_host_v6
         else if ch = CHR ''%'' then s_http_host_v6_zone_start else s_http_host_dead)
    | s_http_host_v6_start \<Rightarrow>
        (if host_v6_char ch then s_http_host_v6 else s_http_host_dead)
    | s_http_host_v6_zone \<Rightarrow>
        (if ch = CHR '']'' then s_http_host_v6_end
         else if host_zone_char ch then s_http_host_v6_zone else s_http_host_dead)
    | s_http_host_v6_zone_start \<Rightarrow>
        (if host_zone_char ch then s_http_host_v6_zone else s_http_host_dead)
    | s_http_host_port \<Rightarrow> (if IS_NUM ch then s_http_host_port else s_http_host_dead)
    | s_http_host_port_start \<Rightarrow> (if IS_NUM ch then s_http_host_port else s_http_host_dead)
    | _ \<Rightarrow> s_http_host_dead)"

section \<open>The result structure\<close>

datatype url_field = UF_SCHEMA | UF_HOST | UF_PORT | UF_PATH | UF_QUERY | UF_FRAGMENT
  | UF_USERINFO | UF_MAX

primrec uf_num :: "url_field \<Rightarrow> nat" where
  "uf_num UF_SCHEMA = 0"
| "uf_num UF_HOST = 1"
| "uf_num UF_PORT = 2"
| "uf_num UF_PATH = 3"
| "uf_num UF_QUERY = 4"
| "uf_num UF_FRAGMENT = 5"
| "uf_num UF_USERINFO = 6"
| "uf_num UF_MAX = 7"

text \<open>\<open>field_data\<close> is the pair of its columns, both 16 bits wide.\<close>

record http_parser_url =
  field_set :: u16
  port :: u16
  f_off :: "url_field \<Rightarrow> u16"
  f_len :: "url_field \<Rightarrow> u16"

definition http_parser_url_init :: http_parser_url where
  "http_parser_url_init = \<lparr>field_set = 0, port = 0, f_off = (\<lambda>_. 0), f_len = (\<lambda>_. 0)\<rparr>"

definition uf_bit :: "url_field \<Rightarrow> u16" where
  "uf_bit uf = push_bit (uf_num uf) 1"

definition has_field :: "http_parser_url \<Rightarrow> url_field \<Rightarrow> bool" where
  "has_field u uf \<longleftrightarrow> field_set u AND uf_bit uf \<noteq> 0"

definition open_field :: "http_parser_url \<Rightarrow> url_field \<Rightarrow> nat \<Rightarrow> nat \<Rightarrow> http_parser_url" where
  "open_field u uf off n = u\<lparr>f_off := (f_off u)(uf := of_nat off),
     f_len := (f_len u)(uf := of_nat n), field_set := field_set u OR uf_bit uf\<rparr>"

definition grow_field :: "http_parser_url \<Rightarrow> url_field \<Rightarrow> http_parser_url" where
  "grow_field u uf = u\<lparr>f_len := (f_len u)(uf := f_len u uf + 1)\<rparr>"

definition set_off :: "http_parser_url \<Rightarrow> url_field \<Rightarrow> nat \<Rightarrow> http_parser_url" where
  "set_off u uf off = u\<lparr>f_off := (f_off u)(uf := of_nat off)\<rparr>"

section \<open>Parsing the host\<close>

text \<open>The \<open>switch (new_s)\<close> of one character.\<close>

definition host_switch ::
  "nat \<Rightarrow> http_host_state \<Rightarrow> http_host_state \<Rightarrow> http_parser_url \<Rightarrow> http_parser_url" where
  "host_switch p s new_s u = (case new_s of
      s_http_host \<Rightarrow> grow_field (if s \<noteq> s_http_host then set_off u UF_HOST p else u) UF_HOST
    | s_http_host_v6 \<Rightarrow> grow_field (if s \<noteq> s_http_host_v6 then set_off u UF_HOST p else u) UF_HOST
    | s_http_host_v6_zone_start \<Rightarrow> grow_field u UF_HOST
    | s_http_host_v6_zone \<Rightarrow> grow_field u UF_HOST
    | s_http_host_port \<Rightarrow>
        grow_field (if s \<noteq> s_http_host_port then open_field u UF_PORT p 0 else u) UF_PORT
    | s_http_userinfo \<Rightarrow>
        grow_field (if s \<noteq> s_http_userinfo then open_field u UF_USERINFO p 0 else u) UF_USERINFO
    | _ \<Rightarrow> u)"

text \<open>
  The loop; the characters left are a list.  The first result is the code's return
  value.
\<close>

fun host_loop :: "nat \<Rightarrow> http_host_state \<Rightarrow> char list \<Rightarrow> http_parser_url \<Rightarrow>
    bool \<times> http_host_state \<times> http_parser_url" where
  "host_loop p s [] u = (True, s, u)"
| "host_loop p s (c # cs) u =
     (let new_s = http_parse_host_char s c in
      if new_s = s_http_host_dead then (False, s, u)
      else host_loop (p + 1) new_s cs (host_switch p s new_s u))"

definition host_end_ok :: "http_host_state \<Rightarrow> bool" where
  "host_end_ok s \<longleftrightarrow> s \<notin> {s_http_host_start, s_http_host_v6_start, s_http_host_v6,
     s_http_host_v6_zone_start, s_http_host_v6_zone, s_http_host_port_start, s_http_userinfo,
     s_http_userinfo_start}"

text \<open>\<open>http_parse_host\<close>; \<open>None\<close> is the failed assertion.\<close>

definition http_parse_host ::
  "char list \<Rightarrow> http_parser_url \<Rightarrow> bool \<Rightarrow> (int \<times> http_parser_url) option" where
  "http_parse_host buf u found_at =
     (let off = unat (f_off u UF_HOST);
          buflen = off + unat (f_len u UF_HOST)
      in if \<not> has_field u UF_HOST then None
         else let u0 = u\<lparr>f_len := (f_len u)(UF_HOST := 0)\<rparr>;
                  s0 = (if found_at then s_http_userinfo_start else s_http_host_start);
                  (go, s, u1) = host_loop off s0 (take (buflen - off) (drop off buf)) u0
              in Some (if go \<and> host_end_ok s then 0 else 1, u1))"

section \<open>Parsing the URL\<close>

text \<open>The \<open>switch (s)\<close>: the field of a state, no field for a delimiter.\<close>

datatype url_class = Return_dead | Skip | Field url_field | Unexpected

definition url_class_of :: "state \<Rightarrow> url_class" where
  "url_class_of s = (case s of
      s_dead \<Rightarrow> Return_dead
    | s_req_schema_slash \<Rightarrow> Skip
    | s_req_schema_slash_slash \<Rightarrow> Skip
    | s_req_server_start \<Rightarrow> Skip
    | s_req_query_string_start \<Rightarrow> Skip
    | s_req_fragment_start \<Rightarrow> Skip
    | s_req_schema \<Rightarrow> Field UF_SCHEMA
    | s_req_server_with_at \<Rightarrow> Field UF_HOST
    | s_req_server \<Rightarrow> Field UF_HOST
    | s_req_path \<Rightarrow> Field UF_PATH
    | s_req_query_string \<Rightarrow> Field UF_QUERY
    | s_req_fragment \<Rightarrow> Field UF_FRAGMENT
    | _ \<Rightarrow> Unexpected)"

datatype url_outcome = Url_assert | Url_fail http_parser_url | Url_ok bool http_parser_url

fun url_loop :: "nat \<Rightarrow> state \<Rightarrow> url_field \<Rightarrow> bool \<Rightarrow> char list \<Rightarrow> http_parser_url \<Rightarrow> url_outcome" where
  "url_loop p s old_uf found_at [] u = Url_ok found_at u"
| "url_loop p s old_uf found_at (c # cs) u =
     (let s' = parse_url_char s c;
          found' = (found_at \<or> s' = s_req_server_with_at)
      in case url_class_of s' of
           Return_dead \<Rightarrow> Url_fail u
         | Unexpected \<Rightarrow> Url_assert
         | Skip \<Rightarrow> url_loop (p + 1) s' old_uf found' cs u
         | Field uf \<Rightarrow>
             if uf = old_uf then url_loop (p + 1) s' old_uf found' cs (grow_field u uf)
             else url_loop (p + 1) s' uf found' cs (open_field u uf p 1))"

text \<open>
  \<open>strtoul (s, NULL, 10)\<close> on the memory from \<open>s\<close> on: white space, a sign, digits up to
  the first other character; \<open>None\<close> when the memory ends inside the digits.  The result
  saturates at the 32-bit \<open>ULONG_MAX\<close> of the platform.
\<close>

definition ULONG_MAX :: nat where
  "ULONG_MAX = 2 ^ 32 - 1"

definition dec_value :: "char list \<Rightarrow> nat" where
  "dec_value ds = foldl (\<lambda>v c. v * 10 + digit c) 0 ds"

definition isspace :: "char \<Rightarrow> bool" where
  "isspace c \<longleftrightarrow> ord c = 32 \<or> (9 \<le> ord c \<and> ord c \<le> 13)"

definition strtoul :: "char list \<Rightarrow> nat option" where
  "strtoul s =
     (let s1 = dropWhile isspace s;
          neg = (s1 \<noteq> [] \<and> hd s1 = CHR ''-'');
          s2 = (if neg \<or> (s1 \<noteq> [] \<and> hd s1 = CHR ''+'') then tl s1 else s1);
          ds = takeWhile IS_NUM s2;
          v = min (dec_value ds) ULONG_MAX
      in if length ds = length s2 then None
         else Some (if neg then (2 ^ 32 - v) mod 2 ^ 32 else v))"

definition http_parser_parse_url ::
  "char list \<Rightarrow> nat \<Rightarrow> bool \<Rightarrow> http_parser_url \<Rightarrow> (int \<times> http_parser_url) option" where
  "http_parser_parse_url buf buflen is_connect u =
     (let s = (if is_connect then s_req_server_start else s_req_spaces_before_url) in
      case url_loop 0 s UF_MAX False (take buflen buf) (u\<lparr>port := 0, field_set := 0\<rparr>) of
        Url_assert \<Rightarrow> None
      | Url_fail u1 \<Rightarrow> Some (1, u1)
      | Url_ok found_at u1 \<Rightarrow>
          if has_field u1 UF_SCHEMA \<and> \<not> has_field u1 UF_HOST then Some (1, u1)
          else do {
            (r, u2) \<leftarrow> (if has_field u1 UF_HOST then http_parse_host buf u1 found_at else Some (0, u1));
            if r \<noteq> 0 then Some (1, u2)
            else if is_connect \<and> field_set u2 \<noteq> (uf_bit UF_HOST OR uf_bit UF_PORT) then Some (1, u2)
            else if has_field u2 UF_PORT then do {
              v \<leftarrow> strtoul (drop (unat (f_off u2 UF_PORT)) buf);
              if 0xffff < v then Some (1, u2) else Some (0, u2\<lparr>port := of_nat v\<rparr>) }
            else Some (0, u2) })"

section \<open>Properties\<close>


section \<open>Fields as naturals\<close>

definition foff :: "http_parser_url \<Rightarrow> url_field \<Rightarrow> nat" where "foff u f = unat (f_off u f)"
definition flen :: "http_parser_url \<Rightarrow> url_field \<Rightarrow> nat" where "flen u f = unat (f_len u f)"

lemma uf_num_less [simp]: "uf_num f < 16"
  by (cases f) simp_all

lemma uf_num_inj [simp]: "uf_num f = uf_num g \<longleftrightarrow> f = g"
  by (cases f; cases g; simp)

lemma has_field_bit: "has_field u f \<longleftrightarrow> bit (field_set u) (uf_num f)"
  unfolding has_field_def uf_bit_def by (rule bit_iff_and_push_bit_not_eq_0 [symmetric])

lemma has_field_open [simp]: "has_field (open_field u f a b) g \<longleftrightarrow> g = f \<or> has_field u g"
  by (auto simp: has_field_bit open_field_def uf_bit_def bit_or_iff bit_exp_iff)

lemma has_field_grow [simp]: "has_field (grow_field u f) g = has_field u g"
  by (simp add: has_field_def grow_field_def)

lemma has_field_set_off [simp]: "has_field (set_off u f a) g = has_field u g"
  by (simp add: has_field_def set_off_def)

lemma unat_of_nat_16: "a < 65536 \<Longrightarrow> unat (of_nat a :: u16) = a"
  by (simp add: unat_of_nat take_bit_nat_eq_self)

lemma foff_open [simp]: "a < 65536 \<Longrightarrow> foff (open_field u f a b) g = (if g = f then a else foff u g)"
  by (simp add: foff_def open_field_def unat_of_nat_16)

lemma flen_open [simp]: "b < 65536 \<Longrightarrow> flen (open_field u f a b) g = (if g = f then b else flen u g)"
  by (simp add: flen_def open_field_def unat_of_nat_16)

lemma foff_grow [simp]: "foff (grow_field u f) g = foff u g"
  by (simp add: foff_def grow_field_def)

lemma flen_grow [simp]:
  "flen u f + 1 < 65536 \<Longrightarrow> flen (grow_field u f) g = (if g = f then flen u f + 1 else flen u g)"
proof -
  assume "flen u f + 1 < 65536"
  then have "unat (f_len u f + 1) = unat (f_len u f) + 1"
    by (simp add: flen_def unat_word_ariths)
  then show ?thesis by (simp add: flen_def grow_field_def)
qed

lemma flen_grow_other [simp]: "g \<noteq> f \<Longrightarrow> flen (grow_field u f) g = flen u g"
  by (simp add: flen_def grow_field_def)

lemma foff_set_off [simp]: "a < 65536 \<Longrightarrow> foff (set_off u f a) g = (if g = f then a else foff u g)"
  by (simp add: foff_def set_off_def unat_of_nat_16)

lemma flen_set_off [simp]: "flen (set_off u f a) g = flen u g"
  by (simp add: flen_def set_off_def)

lemma url_class_expected: "url_class_of (parse_url_char s c) \<noteq> Unexpected"
  by (cases s) (simp_all add: parse_url_char_def url_class_of_def url_alpha_start_def url_server_def)

definition slice :: "char list \<Rightarrow> http_parser_url \<Rightarrow> url_field \<Rightarrow> char list" where
  "slice buf u f = take (flen u f) (drop (foff u f) buf)"

lemma slice_cong: "foff u f = foff v f \<Longrightarrow> flen u f = flen v f \<Longrightarrow> slice buf u f = slice buf v f"
  by (simp add: slice_def)

lemma take_extend: "a + n < length D \<Longrightarrow> set (take (Suc n) (drop a D)) = insert (D ! (a + n)) (set (take n (drop a D)))"
  by (simp add: take_Suc_conv_app_nth)

lemma take_one: "a < length D \<Longrightarrow> set (take (Suc 0) (drop a D)) = {D ! a}"
  by (simp add: take_Suc_conv_app_nth)

section \<open>The URL loop\<close>

lemma to_schema: "parse_url_char s c = s_req_schema \<Longrightarrow>
   IS_ALPHA c \<and> (s = s_req_schema \<or> s = s_req_spaces_before_url)"
  by (cases s) (auto simp: parse_url_char_def url_alpha_start_def url_server_def split: if_splits)

lemma not_to_spaces: "parse_url_char s c \<noteq> s_req_spaces_before_url"
  by (cases s) (auto simp: parse_url_char_def url_alpha_start_def url_server_def)

lemma class_schema: "url_class_of s = Field UF_SCHEMA \<longleftrightarrow> s = s_req_schema"
  by (cases s) (simp_all add: url_class_of_def)

lemma class_field: "url_class_of s = Field f \<Longrightarrow> f \<in> {UF_SCHEMA, UF_HOST, UF_PATH, UF_QUERY, UF_FRAGMENT}"
  by (cases s) (auto simp: url_class_of_def)

definition url_inv :: "char list \<Rightarrow> nat \<Rightarrow> state \<Rightarrow> url_field \<Rightarrow> http_parser_url \<Rightarrow> bool" where
  "url_inv D p s old u \<longleftrightarrow>
     (\<forall>f. has_field u f \<longrightarrow> f \<in> {UF_SCHEMA, UF_HOST, UF_PATH, UF_QUERY, UF_FRAGMENT}
        \<and> 0 < flen u f \<and> foff u f + flen u f \<le> p)
     \<and> (old \<noteq> UF_MAX \<longrightarrow> has_field u old)
     \<and> (has_field u UF_SCHEMA \<longrightarrow> (\<forall>c\<in>set (slice D u UF_SCHEMA). IS_ALPHA c))
     \<and> (s = s_req_schema \<longrightarrow> old = UF_SCHEMA \<and> foff u UF_SCHEMA + flen u UF_SCHEMA = p)
     \<and> (s = s_req_spaces_before_url \<longrightarrow> old = UF_MAX)"

lemma url_inv_field:
  assumes inv: "url_inv D p s old u" and p: "p < length D" "length D \<le> 65535"
    and s': "s' = parse_url_char s (D ! p)" and f: "url_class_of s' = Field uf"
  shows "uf = old \<Longrightarrow> url_inv D (Suc p) s' old (grow_field u uf)"
    and "uf \<noteq> old \<Longrightarrow> url_inv D (Suc p) s' uf (open_field u uf p 1)"
proof -
  have no: "s' \<noteq> s_req_spaces_before_url" using s' not_to_spaces by simp
  have cf: "uf \<in> {UF_SCHEMA, UF_HOST, UF_PATH, UF_QUERY, UF_FRAGMENT}" using f by (rule class_field)
  have sch: "s' = s_req_schema \<longleftrightarrow> uf = UF_SCHEMA" using f class_schema [of s'] by auto
  have alpha: "uf = UF_SCHEMA \<Longrightarrow> IS_ALPHA (D ! p) \<and> (s = s_req_schema \<or> s = s_req_spaces_before_url)"
    using sch s' to_schema [of s "D ! p"] by auto
  note i = inv [unfolded url_inv_def]
  show "url_inv D (Suc p) s' old (grow_field u uf)" if uf: "uf = old"
  proof -
    have old: "old \<noteq> UF_MAX" "has_field u uf" using i cf uf by blast+
    then have b: "0 < flen u uf" "foff u uf + flen u uf \<le> p" using i by blast+
    then have small: "flen u uf + 1 < 65536" using p by simp
    have s: "foff u UF_SCHEMA + flen u UF_SCHEMA = p" if "uf = UF_SCHEMA"
      using alpha [OF that] i old(1) by blast
    have "\<forall>c\<in>set (slice D (grow_field u uf) UF_SCHEMA). IS_ALPHA c" if "has_field u UF_SCHEMA"
    proof (cases "uf = UF_SCHEMA")
      case True
      have "slice D (grow_field u uf) UF_SCHEMA
          = take (Suc (flen u UF_SCHEMA)) (drop (foff u UF_SCHEMA) D)"
        using True small by (simp add: slice_def)
      then show ?thesis
        using i that s [OF True] alpha [OF True] p(1) by (simp add: take_extend slice_def)
    next
      case False
      then have "slice D (grow_field u uf) UF_SCHEMA = slice D u UF_SCHEMA"
        using small by (intro slice_cong) simp_all
      then show ?thesis using i that by simp
    qed
    moreover have "has_field u f \<Longrightarrow> f \<in> {UF_SCHEMA, UF_HOST, UF_PATH, UF_QUERY, UF_FRAGMENT}
        \<and> 0 < flen (grow_field u uf) f \<and> foff (grow_field u uf) f + flen (grow_field u uf) f \<le> Suc p" for f
      using i b small by (cases "f = uf") (auto intro: le_SucI)
    moreover have "s' = s_req_schema \<longrightarrow> old = UF_SCHEMA
        \<and> foff (grow_field u uf) UF_SCHEMA + flen (grow_field u uf) UF_SCHEMA = Suc p"
      using sch uf s small by (cases "uf = UF_SCHEMA") simp_all
    ultimately show ?thesis using i no unfolding url_inv_def by (simp del: flen_grow)
  qed
  show "url_inv D (Suc p) s' uf (open_field u uf p 1)" if "uf \<noteq> old"
  proof -
    let ?u = "open_field u uf p 1"
    have "\<forall>c\<in>set (slice D ?u UF_SCHEMA). IS_ALPHA c" if "has_field ?u UF_SCHEMA"
    proof (cases "uf = UF_SCHEMA")
      case True
      then show ?thesis using alpha p by (simp add: slice_def take_one)
    next
      case False
      then have "slice D ?u UF_SCHEMA = slice D u UF_SCHEMA"
        using p by (intro slice_cong) simp_all
      then show ?thesis using i that False by simp
    qed
    moreover have "has_field ?u f \<Longrightarrow> f \<in> {UF_SCHEMA, UF_HOST, UF_PATH, UF_QUERY, UF_FRAGMENT}
        \<and> 0 < flen ?u f \<and> foff ?u f + flen ?u f \<le> Suc p" for f
      using i cf p by (cases "f = uf") (auto intro: le_SucI)
    moreover have "s' = s_req_schema \<longrightarrow> uf = UF_SCHEMA \<and> foff ?u UF_SCHEMA + flen ?u UF_SCHEMA = Suc p"
      using sch p by simp
    ultimately show ?thesis using no p unfolding url_inv_def by simp
  qed
qed

lemma url_loop_inv:
  "url_inv D p s old u \<Longrightarrow> p \<le> length D \<Longrightarrow> length D \<le> 65535 \<Longrightarrow> cs = drop p D \<Longrightarrow>
   (case url_loop p s old found cs u of Url_assert \<Rightarrow> False | Url_fail _ \<Rightarrow> True
    | Url_ok found' u' \<Rightarrow> \<exists>s' old'. url_inv D (length D) s' old' u')"
proof (induction cs arbitrary: p s old found u)
  case Nil
  then show ?case by auto
next
  case (Cons c cs)
  have p: "p < length D" using Cons.prems(4) by (metis drop_all list.distinct(1) not_le)
  then have c: "c = D ! p" and cs: "cs = drop (Suc p) D"
    using Cons.prems(4) by (simp_all flip: Cons_nth_drop_Suc)
  let ?s' = "parse_url_char s c"
  show ?case
  proof (cases "url_class_of ?s'")
    case Skip
    have "url_inv D (Suc p) ?s' old u"
      using Cons.prems(1) Skip not_to_spaces [of s c] class_schema [of ?s']
      unfolding url_inv_def by (auto intro: le_SucI)
    from Cons.IH [OF this _ Cons.prems(3) cs] p show ?thesis by (simp add: Skip Let_def)
  next
    case (Field uf)
    note inv = url_inv_field [OF Cons.prems(1) p Cons.prems(3) refl Field [unfolded c]]
    show ?thesis
    proof (cases "uf = old")
      case True
      from Cons.IH [OF inv(1) [OF True] _ Cons.prems(3) cs] p True show ?thesis
        by (simp add: Field [unfolded c] c Let_def)
    next
      case False
      from Cons.IH [OF inv(2) [OF False] _ Cons.prems(3) cs] p False show ?thesis
        by (simp add: Field [unfolded c] c Let_def)
    qed
  qed (simp_all add: url_class_expected)
qed


section \<open>The host loop\<close>

definition before_host :: "http_host_state \<Rightarrow> bool" where
  "before_host s \<longleftrightarrow> s \<in> {s_http_userinfo_start, s_http_userinfo, s_http_host_start, s_http_host_v6_start}"

definition in_host :: "http_host_state \<Rightarrow> bool" where
  "in_host s \<longleftrightarrow> s \<in> {s_http_host, s_http_host_v6, s_http_host_v6_zone_start, s_http_host_v6_zone}"

definition after_host :: "http_host_state \<Rightarrow> bool" where
  "after_host s \<longleftrightarrow> s \<in> {s_http_host_v6_end, s_http_host_port_start, s_http_host_port}"

lemmas host_phase_defs = before_host_def in_host_def after_host_def

definition host_field :: "http_parser_url \<Rightarrow> nat \<Rightarrow> http_host_state \<Rightarrow> bool" where
  "host_field u p s \<longleftrightarrow> has_field u UF_HOST \<and> foff u UF_HOST + flen u UF_HOST \<le> p
     \<and> (before_host s \<longrightarrow> flen u UF_HOST = 0)
     \<and> (in_host s \<longrightarrow> foff u UF_HOST + flen u UF_HOST = p)
     \<and> (in_host s \<or> after_host s \<longrightarrow> 0 < flen u UF_HOST)"

definition userinfo_field :: "http_parser_url \<Rightarrow> nat \<Rightarrow> http_host_state \<Rightarrow> bool" where
  "userinfo_field u p s \<longleftrightarrow>
     (s = s_http_userinfo \<longrightarrow> has_field u UF_USERINFO \<and> foff u UF_USERINFO + flen u UF_USERINFO = p)
     \<and> (has_field u UF_USERINFO \<longrightarrow> 0 < flen u UF_USERINFO \<and> foff u UF_USERINFO + flen u UF_USERINFO \<le> p)"

definition port_field :: "char list \<Rightarrow> http_parser_url \<Rightarrow> nat \<Rightarrow> http_host_state \<Rightarrow> bool" where
  "port_field B u p s \<longleftrightarrow> (has_field u UF_PORT \<longleftrightarrow> s = s_http_host_port)
     \<and> (has_field u UF_PORT \<longrightarrow> 0 < flen u UF_PORT \<and> foff u UF_PORT + flen u UF_PORT = p
          \<and> (\<forall>c\<in>set (slice B u UF_PORT). IS_NUM c))"

definition other_fields :: "http_parser_url \<Rightarrow> http_parser_url \<Rightarrow> bool" where
  "other_fields u0 u \<longleftrightarrow> (\<forall>f. f \<notin> {UF_HOST, UF_PORT, UF_USERINFO} \<longrightarrow>
     has_field u f = has_field u0 f \<and> foff u f = foff u0 f \<and> flen u f = flen u0 f)"

lemma port_digit: "http_parse_host_char s c = s_http_host_port \<Longrightarrow> IS_NUM c"
  by (cases s) (auto simp: http_parse_host_char_def split: if_splits)

text \<open>A character either leaves the fields alone, or opens or grows one of the three.\<close>

lemma host_moves:
  assumes "s' = http_parse_host_char s c" and "s' \<noteq> s_http_host_dead"
  obtains
    (keep) "host_switch p s s' u = u" "\<not> in_host s'" "s' \<noteq> s_http_host_port" "s' \<noteq> s_http_userinfo"
      "before_host s' \<Longrightarrow> before_host s" "after_host s' \<Longrightarrow> in_host s \<or> after_host s" "s \<noteq> s_http_host_port"
  | (host) "host_switch p s s' u = grow_field (set_off u UF_HOST p) UF_HOST" "before_host s" "in_host s'"
      "s \<noteq> s_http_userinfo"
  | (host_more) "host_switch p s s' u = grow_field u UF_HOST" "in_host s" "in_host s'"
  | (open_port) "host_switch p s s' u = grow_field (open_field u UF_PORT p 0) UF_PORT"
      "s = s_http_host_port_start" "s' = s_http_host_port" "IS_NUM c"
  | (port_more) "host_switch p s s' u = grow_field u UF_PORT" "s = s_http_host_port"
      "s' = s_http_host_port" "IS_NUM c"
  | (open_user) "host_switch p s s' u = grow_field (open_field u UF_USERINFO p 0) UF_USERINFO"
      "s = s_http_userinfo_start" "s' = s_http_userinfo"
  | (user_more) "host_switch p s s' u = grow_field u UF_USERINFO" "s = s_http_userinfo" "s' = s_http_userinfo"
proof (cases s)
  case s_http_userinfo_start
  with assms show ?thesis
    by (auto simp: http_parse_host_char_def host_switch_def host_phase_defs split: if_splits
        intro: keep open_user)
next
  case s_http_userinfo
  with assms show ?thesis
    by (auto simp: http_parse_host_char_def host_switch_def host_phase_defs split: if_splits
        intro: keep user_more)
next
  case s_http_host_port
  with assms show ?thesis
    by (auto simp: http_parse_host_char_def host_switch_def host_phase_defs split: if_splits
        intro: port_more)
next
  case s_http_host_port_start
  with assms show ?thesis
    by (auto simp: http_parse_host_char_def host_switch_def host_phase_defs split: if_splits
        intro: open_port)
qed (use assms in \<open>auto simp: http_parse_host_char_def host_switch_def host_phase_defs
       split: if_splits intro: keep host host_more\<close>)

lemma phases:
  "in_host s \<Longrightarrow> \<not> before_host s \<and> \<not> after_host s \<and> s \<noteq> s_http_host_port \<and> s \<noteq> s_http_userinfo"
  "after_host s \<Longrightarrow> \<not> before_host s"
  "\<not> in_host s_http_host_port" "after_host s_http_host_port" "\<not> in_host s_http_userinfo"
  "before_host s_http_userinfo" "after_host s_http_host_port_start" "before_host s_http_userinfo_start"
  "\<not> in_host s_http_userinfo_start" "\<not> after_host s_http_userinfo" "\<not> before_host s_http_host_port" "\<not> in_host s_http_host_port_start"
  by (auto simp: host_phase_defs)

lemma host_step_host:
  assumes m: "s' = http_parse_host_char s c" "s' \<noteq> s_http_host_dead"
    and p: "p < 65535" and inv: "host_field u p s"
  shows "host_field (host_switch p s s' u) (Suc p) s'"
  using m
  by (cases rule: host_moves [where p = p and u = u])
    (use p inv phases(1) [of s'] phases(1) [of s] phases(2) [of s] in
      \<open>auto simp: host_field_def phases(3-)\<close>)

lemma host_step_userinfo:
  assumes m: "s' = http_parse_host_char s c" "s' \<noteq> s_http_host_dead"
    and p: "p < 65535" and inv: "userinfo_field u p s"
  shows "userinfo_field (host_switch p s s' u) (Suc p) s'"
  using m
  by (cases rule: host_moves [where p = p and u = u])
    (use p inv phases(1) [of s'] in \<open>auto simp: userinfo_field_def\<close>)

lemma host_step_port:
  assumes m: "s' = http_parse_host_char s c" "s' \<noteq> s_http_host_dead" and c: "c = B ! p"
    and p: "p < length B" "p < 65535" and inv: "port_field B u p s"
  shows "port_field B (host_switch p s s' u) (Suc p) s'"
  using m
  by (cases rule: host_moves [where p = p and u = u])
    (use p inv c phases(1) [of s'] phases(1) [of s] phases(2) [of s] in
      \<open>auto simp: port_field_def slice_def take_extend take_one phases(3-)\<close>)

lemma host_step_others:
  assumes m: "s' = http_parse_host_char s c" "s' \<noteq> s_http_host_dead"
    and p: "p < 65535" and inv: "other_fields u0 u"
  shows "other_fields u0 (host_switch p s s' u)"
  using m
  by (cases rule: host_moves [where p = p and u = u])
    (use p inv in \<open>auto simp: other_fields_def\<close>)

lemma host_loop_inv:
  "cs = take n (drop p B) \<Longrightarrow> p + n \<le> length B \<Longrightarrow> p + n \<le> 65535 \<Longrightarrow> s \<noteq> s_http_host_dead \<Longrightarrow>
   host_field u p s \<Longrightarrow> userinfo_field u p s \<Longrightarrow> port_field B u p s \<Longrightarrow> other_fields u0 u \<Longrightarrow>
   host_loop p s cs u = (True, s1, u1) \<Longrightarrow>
   s1 \<noteq> s_http_host_dead \<and> host_field u1 (p + n) s1 \<and> userinfo_field u1 (p + n) s1
     \<and> port_field B u1 (p + n) s1 \<and> other_fields u0 u1"
proof (induction cs arbitrary: p n s u)
  case Nil
  then have "n = 0" by auto
  with Nil show ?case by simp
next
  case (Cons c cs)
  from Cons.prems(1,2) have n: "0 < n" "p < length B" by (cases n; force)+
  then have c: "c = B ! p" and cs: "cs = take (n - 1) (drop (Suc p) B)"
    using Cons.prems(1) by (cases n; simp flip: Cons_nth_drop_Suc)+
  let ?s' = "http_parse_host_char s c"
  have nd: "?s' \<noteq> s_http_host_dead"
    using Cons.prems(9) by (auto simp: Let_def split: if_splits)
  have p: "p < 65535" using Cons.prems(3) n by simp
  have "host_field (host_switch p s ?s' u) (Suc p) ?s' \<and> userinfo_field (host_switch p s ?s' u) (Suc p) ?s'
    \<and> port_field B (host_switch p s ?s' u) (Suc p) ?s' \<and> other_fields u0 (host_switch p s ?s' u)"
    using host_step_host [OF refl nd p Cons.prems(5)] host_step_userinfo [OF refl nd p Cons.prems(6)]
      host_step_port [OF refl nd c n(2) p Cons.prems(7)] host_step_others [OF refl nd p Cons.prems(8)]
    by blast
  moreover have "host_loop (Suc p) ?s' cs (host_switch p s ?s' u) = (True, s1, u1)"
    using Cons.prems(9) nd by (simp add: Let_def)
  moreover have "Suc (p + (n - 1)) = p + n" "Suc (p + (n - Suc 0)) = p + n" using n by simp_all
  ultimately show ?case
    using Cons.IH [OF cs _ _ nd, of "host_switch p s ?s' u"] Cons.prems(2,3) by simp
qed

lemma host_end: "s \<noteq> s_http_host_dead \<Longrightarrow> host_end_ok s \<Longrightarrow> in_host s \<or> after_host s"
  by (cases s) (auto simp: host_end_ok_def host_phase_defs)

lemma parse_host_ok:
  assumes "has_field u UF_HOST" "\<not> has_field u UF_PORT" "\<not> has_field u UF_USERINFO"
    and "foff u UF_HOST + flen u UF_HOST \<le> n" "n \<le> length B" "n \<le> 65535"
  shows "\<exists>r u1. http_parse_host B u found = Some (r, u1) \<and> (r = 0 \<longrightarrow>
     (\<forall>f\<in>{UF_HOST, UF_PORT, UF_USERINFO}. has_field u1 f \<longrightarrow> 0 < flen u1 f \<and> foff u1 f + flen u1 f \<le> n)
     \<and> has_field u1 UF_HOST
     \<and> (has_field u1 UF_PORT \<longrightarrow> (\<forall>c\<in>set (slice B u1 UF_PORT). IS_NUM c))
     \<and> other_fields u u1)"
proof -
  let ?p = "foff u UF_HOST" and ?n = "flen u UF_HOST"
  let ?u0 = "u\<lparr>f_len := (f_len u)(UF_HOST := 0)\<rparr>"
  let ?s0 = "if found then s_http_userinfo_start else s_http_host_start"
  obtain go s1 u1 where loop: "host_loop ?p ?s0 (take ?n (drop ?p B)) ?u0 = (go, s1, u1)"
    by (metis prod_cases3)
  have u0: "has_field ?u0 f = has_field u f" "foff ?u0 f = foff u f"
    "flen ?u0 f = (if f = UF_HOST then 0 else flen u f)" for f
    by (simp_all add: has_field_def foff_def flen_def)
  have r: "http_parse_host B u found = Some (if go \<and> host_end_ok s1 then 0 else 1, u1)"
    using assms(1) loop by (simp add: http_parse_host_def foff_def flen_def)
  have i: "host_field ?u0 ?p ?s0" "userinfo_field ?u0 ?p ?s0" "port_field B ?u0 ?p ?s0" "other_fields u ?u0"
    using assms(1-3) by (auto simp: host_field_def userinfo_field_def port_field_def other_fields_def
        u0 host_phase_defs)
  have "s1 \<noteq> s_http_host_dead \<and> host_field u1 (?p + ?n) s1 \<and> userinfo_field u1 (?p + ?n) s1
     \<and> port_field B u1 (?p + ?n) s1 \<and> other_fields u u1" if go
    using host_loop_inv [OF refl _ _ _ i, of ?n s1 u1] loop that assms(4-6) by simp
  with host_end [of s1] assms(4) show ?thesis
    unfolding r by (auto simp: host_field_def userinfo_field_def port_field_def)
qed

section \<open>The result of \<open>http_parser_parse_url\<close>\<close>

definition url_wf :: "char list \<Rightarrow> nat \<Rightarrow> bool \<Rightarrow> http_parser_url \<Rightarrow> bool" where
  "url_wf buf buflen is_connect u \<longleftrightarrow>
     (\<forall>f. has_field u f \<longrightarrow> 0 < flen u f \<and> foff u f + flen u f \<le> buflen)
     \<and> (has_field u UF_SCHEMA \<longrightarrow> has_field u UF_HOST \<and> (\<forall>c\<in>set (slice buf u UF_SCHEMA). IS_ALPHA c))
     \<and> (is_connect \<longrightarrow> (\<forall>f. has_field u f \<longleftrightarrow> f = UF_HOST \<or> f = UF_PORT))
     \<and> (has_field u UF_PORT \<longrightarrow> (\<forall>c\<in>set (slice buf u UF_PORT). IS_NUM c)
          \<and> unat (port u) = dec_value (takeWhile IS_NUM (drop (foff u UF_PORT) buf)))"

lemma digit_not_space: "IS_NUM c \<Longrightarrow> \<not> isspace c \<and> c \<noteq> CHR ''-'' \<and> c \<noteq> CHR ''+''"
  by (auto simp: IS_NUM_def isspace_def)

lemma strtoul_digits:
  assumes "s = c # r" "IS_NUM c" "\<not> list_all IS_NUM s"
  shows "strtoul s = Some (min (dec_value (takeWhile IS_NUM s)) ULONG_MAX)"
proof -
  have "takeWhile IS_NUM s \<noteq> s" using assms(3) by (metis list_all_iff set_takeWhileD)
  then have "length (takeWhile IS_NUM s) \<noteq> length s"
    by (metis takeWhile_eq_take take_all_iff le_refl)
  with assms(1,2) digit_not_space [of c] show ?thesis
    by (simp add: strtoul_def Let_def del: takeWhile.simps)
qed

lemma connect_fields:
  "field_set u = (uf_bit UF_HOST OR uf_bit UF_PORT) \<Longrightarrow> has_field u f \<longleftrightarrow> f = UF_HOST \<or> f = UF_PORT"
  by (cases f) (simp_all add: has_field_bit uf_bit_def bit_simps)

text \<open>What the URL loop and the host parser establish together.\<close>

definition fields_ok :: "char list \<Rightarrow> nat \<Rightarrow> http_parser_url \<Rightarrow> bool" where
  "fields_ok buf n u \<longleftrightarrow>
     (\<forall>f. has_field u f \<longrightarrow> 0 < flen u f \<and> foff u f + flen u f \<le> n)
     \<and> (has_field u UF_SCHEMA \<longrightarrow> (\<forall>c\<in>set (slice buf u UF_SCHEMA). IS_ALPHA c))
     \<and> (has_field u UF_PORT \<longrightarrow> (\<forall>c\<in>set (slice buf u UF_PORT). IS_NUM c))"

lemma slice_take: "foff u f + flen u f \<le> n \<Longrightarrow> slice (take n buf) u f = slice buf u f"
  by (simp add: slice_def drop_take min_def)

lemma host_part:
  assumes inv: "url_inv (take n buf) n s1 old1 u1" and n: "n \<le> 65535" "n \<le> length buf"
  shows "\<exists>r u2. (if has_field u1 UF_HOST then http_parse_host buf u1 found else Some (0, u1)) = Some (r, u2)
    \<and> (r = 0 \<longrightarrow> fields_ok buf n u2 \<and> has_field u2 UF_HOST = has_field u1 UF_HOST
        \<and> has_field u2 UF_SCHEMA = has_field u1 UF_SCHEMA)"
proof -
  have f1: "has_field u1 f \<Longrightarrow> f \<in> {UF_SCHEMA, UF_HOST, UF_PATH, UF_QUERY, UF_FRAGMENT}
      \<and> 0 < flen u1 f \<and> foff u1 f + flen u1 f \<le> n" for f
    using inv by (simp add: url_inv_def)
  have sch: "has_field u1 UF_SCHEMA \<longrightarrow> (\<forall>c\<in>set (slice buf u1 UF_SCHEMA). IS_ALPHA c)"
    using inv f1 [of UF_SCHEMA] slice_take [of u1 UF_SCHEMA n buf] by (auto simp: url_inv_def)
  have np: "\<not> has_field u1 UF_PORT" "\<not> has_field u1 UF_USERINFO" using f1 by blast+
  show ?thesis
  proof (cases "has_field u1 UF_HOST")
    case True
    then obtain r u2 where h: "http_parse_host buf u1 found = Some (r, u2)" and h0: "r = 0 \<longrightarrow>
        (\<forall>f\<in>{UF_HOST, UF_PORT, UF_USERINFO}. has_field u2 f \<longrightarrow> 0 < flen u2 f \<and> foff u2 f + flen u2 f \<le> n)
        \<and> has_field u2 UF_HOST
        \<and> (has_field u2 UF_PORT \<longrightarrow> (\<forall>c\<in>set (slice buf u2 UF_PORT). IS_NUM c)) \<and> other_fields u1 u2"
      using parse_host_ok [OF True np, of n buf found] f1 [OF True] n by auto
    have "0 < flen u2 f \<and> foff u2 f + flen u2 f \<le> n" if "r = 0" "has_field u2 f" for f
      using h0 that f1 [of f]
      by (cases "f \<in> {UF_HOST, UF_PORT, UF_USERINFO}") (auto simp: other_fields_def)
    moreover have "slice buf u2 UF_SCHEMA = slice buf u1 UF_SCHEMA"
      "has_field u2 UF_SCHEMA = has_field u1 UF_SCHEMA" if "r = 0"
      using h0 that by (auto simp: other_fields_def intro: slice_cong)
    ultimately show ?thesis using h h0 True sch unfolding fields_ok_def by auto
  next
    case False
    then show ?thesis using f1 np sch by (auto simp: fields_ok_def)
  qed
qed

lemma port_part:
  assumes f: "fields_ok buf n u" and n: "n < length buf" and stop: "\<exists>c\<in>set (drop n buf). \<not> IS_NUM c"
    and p: "has_field u UF_PORT"
  shows "strtoul (drop (unat (f_off u UF_PORT)) buf)
    = Some (min (dec_value (takeWhile IS_NUM (drop (foff u UF_PORT) buf))) ULONG_MAX)"
proof -
  let ?o = "foff u UF_PORT"
  have o: "?o < n" "?o < length buf" and l: "0 < flen u UF_PORT"
    and dig: "\<forall>c\<in>set (slice buf u UF_PORT). IS_NUM c"
    using f n p by (auto simp: fields_ok_def)
  then have d: "drop ?o buf = buf ! ?o # drop (Suc ?o) buf" by (simp add: Cons_nth_drop_Suc)
  have "buf ! ?o \<in> set (slice buf u UF_PORT)" using d l by (cases "flen u UF_PORT") (simp_all add: slice_def)
  moreover have "\<not> list_all IS_NUM (drop ?o buf)"
    using stop o(1) set_drop_subset_set_drop [of ?o n buf] by (auto simp: list_all_iff)
  ultimately show ?thesis using strtoul_digits [OF d] dig by (simp add: foff_def)
qed



section \<open>The port is read past the end of the buffer\<close>

text \<open>The definitions that evaluate the parser on concrete input.\<close>

lemmas url_eval = http_parser_parse_url_def http_parse_host_def Let_def parse_url_char_def
  url_server_def url_alpha_start_def url_class_of_def IS_ALPHA_def IS_NUM_def IS_ALPHANUM_def
  IS_USERINFO_CHAR_def IS_MARK_def IS_HOST_CHAR_def http_parse_host_char_def host_switch_def
  host_end_ok_def open_field_def grow_field_def set_off_def has_field_def uf_bit_def
  http_parser_url_init_def strtoul_def isspace_def dec_value_def digit_def ULONG_MAX_def

text \<open>
  the port is converted by \<open>strtoul\<close> on the buffer, which does not stop at \<open>buflen\<close>: the four
  bytes \<open>h:80\<close> followed in memory by \<open>99\<close> give port 8099, with a port field of length 2.
\<close>

lemma parse_url_port_overread:
  "map_option (\<lambda>(r, u). (r, port u, f_len u UF_PORT))
     (http_parser_parse_url ''h:8099 '' 4 True http_parser_url_init) = Some (0, 8099, 2)"
  by (simp add: url_eval)

end
