(* ===== verification/HttpExec.thy ===== *)
theory HttpExec
  imports HttpUrl
begin

text \<open>
  \<open>http_parser_execute\<close> of \<open>src/ServerEngine/http_parser/http_parser.c\<close>: the local
  variables of a call as a record, the callback and control macros as continuations, one
  definition per case of the state switch, and the loop as a step function on
  configurations.  A failed assertion is the outcome \<open>Assert_failed\<close>.
\<close>

section \<open>Locals, outcomes and macros\<close>

text \<open>The five \<open>_mark\<close> pointers are positions in the buffer, indexed by their callback.\<close>

datatype data_cb = Header_field | Header_value | Url | Body | Status

record 'w exec =
  prs :: http_parser
  p_state :: state
  pos :: nat
  cch :: char
  marks :: "data_cb \<Rightarrow> nat option"
  world :: 'w

datatype 'w outcome =
    Break "'w exec"
  | Reexecute "'w exec"
  | Return "'w exec" nat
  | Goto_error "'w exec"
  | Assert_failed

primrec the_cb :: "'w http_parser_settings \<Rightarrow> data_cb \<Rightarrow> 'w http_data_cb option" where
  "the_cb S Header_field = on_header_field S"
| "the_cb S Header_value = on_header_value S"
| "the_cb S Url = on_url S"
| "the_cb S Body = on_body S"
| "the_cb S Status = on_status S"

primrec cb_errno :: "data_cb \<Rightarrow> http_errno" where
  "cb_errno Header_field = HPE_CB_header_field"
| "cb_errno Header_value = HPE_CB_header_value"
| "cb_errno Url = HPE_CB_url"
| "cb_errno Body = HPE_CB_body"
| "cb_errno Status = HPE_CB_status"

definition UPDATE_STATE :: "state \<Rightarrow> 'w exec \<Rightarrow> 'w exec" where
  "UPDATE_STATE v x = x\<lparr>p_state := v\<rparr>"

definition on_prs :: "(http_parser \<Rightarrow> http_parser) \<Rightarrow> 'w exec \<Rightarrow> 'w exec" where
  "on_prs f x = x\<lparr>prs := f (prs x)\<rparr>"

definition SET_ERRNO :: "http_errno \<Rightarrow> 'w exec \<Rightarrow> 'w exec" where
  "SET_ERRNO e x = on_prs (\<lambda>q. q\<lparr>errno := e\<rparr>) x"

definition FAIL :: "http_errno \<Rightarrow> 'w exec \<Rightarrow> 'w outcome" where
  "FAIL e x = Goto_error (SET_ERRNO e x)"

definition RETURN :: "nat \<Rightarrow> 'w exec \<Rightarrow> 'w outcome" where
  "RETURN v x = Return (on_prs (\<lambda>q. q\<lparr>pstate := p_state x\<rparr>) x) v"

definition MARK :: "data_cb \<Rightarrow> 'w exec \<Rightarrow> 'w exec" where
  "MARK m x = (if marks x m = None then x\<lparr>marks := (marks x)(m := Some (pos x))\<rparr> else x)"

text \<open>
  \<open>CALLBACK_NOTIFY_ER\<close> with the callback and its error number; the continuation is the
  code after the macro.
\<close>

definition call_notify :: "'w http_cb \<Rightarrow> http_errno \<Rightarrow> 'w exec \<Rightarrow> 'w exec" where
  "call_notify f e x =
     (let (r, q, w) = f ((prs x)\<lparr>pstate := p_state x\<rparr>) (world x);
          q' = (if r \<noteq> 0 then q\<lparr>errno := e\<rparr> else q)
      in x\<lparr>prs := q', p_state := pstate q', world := w\<rparr>)"

definition CALLBACK_NOTIFY_ER ::
  "'w http_cb option \<Rightarrow> http_errno \<Rightarrow> nat \<Rightarrow> 'w exec \<Rightarrow> ('w exec \<Rightarrow> 'w outcome) \<Rightarrow> 'w outcome" where
  "CALLBACK_NOTIFY_ER cb e er x k =
     (if errno (prs x) \<noteq> HPE_OK then Assert_failed
      else case cb of None \<Rightarrow> k x
      | Some f \<Rightarrow> (let x' = call_notify f e x in
          if errno (prs x') \<noteq> HPE_OK then Return x' er else k x'))"

definition CALLBACK_NOTIFY ::
  "'w http_cb option \<Rightarrow> http_errno \<Rightarrow> 'w exec \<Rightarrow> ('w exec \<Rightarrow> 'w outcome) \<Rightarrow> 'w outcome" where
  "CALLBACK_NOTIFY cb e x k = CALLBACK_NOTIFY_ER cb e (pos x + 1) x k"

definition CALLBACK_NOTIFY_NOADVANCE ::
  "'w http_cb option \<Rightarrow> http_errno \<Rightarrow> 'w exec \<Rightarrow> ('w exec \<Rightarrow> 'w outcome) \<Rightarrow> 'w outcome" where
  "CALLBACK_NOTIFY_NOADVANCE cb e x k = CALLBACK_NOTIFY_ER cb e (pos x) x k"

text \<open>
  \<open>CALLBACK_DATA_ER\<close>: the slice handed to the callback runs from the mark to \<open>stop\<close>, which
  is \<open>p\<close> except for the body callback of \<open>s_body_identity\<close>.  A slice that is not inside the
  buffer is a memory error, modelled as \<open>Assert_failed\<close>.
\<close>

definition call_data ::
  "'w http_data_cb \<Rightarrow> http_errno \<Rightarrow> char list \<Rightarrow> nat \<Rightarrow> nat \<Rightarrow> 'w exec \<Rightarrow> 'w exec" where
  "call_data f e data mk stop x =
     (let (r, q, w) = f ((prs x)\<lparr>pstate := p_state x\<rparr>) (take (stop - mk) (drop mk data)) (world x);
          q' = (if r \<noteq> 0 then q\<lparr>errno := e\<rparr> else q)
      in x\<lparr>prs := q', p_state := pstate q', world := w\<rparr>)"

definition CALLBACK_DATA_ER ::
  "'w http_parser_settings \<Rightarrow> char list \<Rightarrow> data_cb \<Rightarrow> nat \<Rightarrow> nat \<Rightarrow> 'w exec \<Rightarrow>
   ('w exec \<Rightarrow> 'w outcome) \<Rightarrow> 'w outcome" where
  "CALLBACK_DATA_ER S data m stop er x k =
     (if errno (prs x) \<noteq> HPE_OK then Assert_failed
      else case marks x m of None \<Rightarrow> k x
      | Some mk \<Rightarrow>
          (case the_cb S m of
             None \<Rightarrow> k (x\<lparr>marks := (marks x)(m := None)\<rparr>)
           | Some f \<Rightarrow> if \<not> (mk \<le> stop \<and> stop \<le> length data) then Assert_failed else (let x' = call_data f (cb_errno m) data mk stop x in
               if errno (prs x') \<noteq> HPE_OK then Return x' er
               else k (x'\<lparr>marks := (marks x')(m := None)\<rparr>))))"

definition CALLBACK_DATA ::
  "'w http_parser_settings \<Rightarrow> char list \<Rightarrow> data_cb \<Rightarrow> 'w exec \<Rightarrow> ('w exec \<Rightarrow> 'w outcome) \<Rightarrow> 'w outcome" where
  "CALLBACK_DATA S data m x k = CALLBACK_DATA_ER S data m (pos x) (pos x + 1) x k"

definition CALLBACK_DATA_NOADVANCE ::
  "'w http_parser_settings \<Rightarrow> char list \<Rightarrow> data_cb \<Rightarrow> 'w exec \<Rightarrow> ('w exec \<Rightarrow> 'w outcome) \<Rightarrow> 'w outcome" where
  "CALLBACK_DATA_NOADVANCE S data m x k = CALLBACK_DATA_ER S data m (pos x) (pos x) x k"

definition COUNT_HEADER_SIZE :: "nat \<Rightarrow> 'w exec \<Rightarrow> ('w exec \<Rightarrow> 'w outcome) \<Rightarrow> 'w outcome" where
  "COUNT_HEADER_SIZE v x k =
     (let x' = on_prs (\<lambda>q. q\<lparr>nread := nread q + of_nat v\<rparr>) x in
      if HTTP_MAX_HEADER_SIZE < unat (nread (prs x')) then FAIL HPE_HEADER_OVERFLOW x' else k x')"

definition STRICT_CHECK :: "bool \<Rightarrow> 'w exec \<Rightarrow> ('w exec \<Rightarrow> 'w outcome) \<Rightarrow> 'w outcome" where
  "STRICT_CHECK c x k = (if c then FAIL HPE_STRICT x else k x)"

definition new_message :: "'w exec \<Rightarrow> 'w exec" where
  "new_message x = UPDATE_STATE (NEW_MESSAGE (prs x)) x"

section \<open>Start of a message and the response line\<close>

definition do_s_dead :: "'w exec \<Rightarrow> 'w outcome" where
  "do_s_dead x = (if cch x = CR \<or> cch x = LF then Break x else FAIL HPE_CLOSED_CONNECTION x)"

definition reset_message :: "http_parser \<Rightarrow> http_parser" where
  "reset_message q = q\<lparr>flags := 0, content_length := ULLONG_MAX\<rparr>"

definition do_s_start_req_or_res :: "'w http_parser_settings \<Rightarrow> 'w exec \<Rightarrow> 'w outcome" where
  "do_s_start_req_or_res S x =
     (if cch x = CR \<or> cch x = LF then Break x
      else let x1 = on_prs reset_message x in
        if cch x = CHR ''H'' then
          CALLBACK_NOTIFY (on_message_begin S) HPE_CB_message_begin (UPDATE_STATE s_res_or_resp_H x1) Break
        else Reexecute (UPDATE_STATE s_start_req (on_prs (\<lambda>q. q\<lparr>ptype := HTTP_REQUEST\<rparr>) x1)))"

definition do_s_res_or_resp_H :: "'w exec \<Rightarrow> 'w outcome" where
  "do_s_res_or_resp_H x =
     (if cch x = CHR ''T'' then
        Break (UPDATE_STATE s_res_HT (on_prs (\<lambda>q. q\<lparr>ptype := HTTP_RESPONSE\<rparr>) x))
      else if cch x \<noteq> CHR ''E'' then FAIL HPE_INVALID_CONSTANT x
      else Break (UPDATE_STATE s_req_method
        (on_prs (\<lambda>q. q\<lparr>ptype := HTTP_REQUEST, meth := HTTP_HEAD, index := 2\<rparr>) x)))"

definition do_s_start_res :: "'w http_parser_settings \<Rightarrow> 'w exec \<Rightarrow> 'w outcome" where
  "do_s_start_res S x =
     (let x1 = on_prs reset_message x;
          k = (\<lambda>y. CALLBACK_NOTIFY (on_message_begin S) HPE_CB_message_begin y Break)
      in if cch x = CHR ''H'' then k (UPDATE_STATE s_res_H x1)
         else if cch x = CR \<or> cch x = LF then k x1
         else FAIL HPE_INVALID_CONSTANT x1)"

text \<open>\<open>s_res_H\<close> to \<open>s_res_HTTP\<close> and \<open>s_req_http_H\<close> to \<open>s_req_http_HTTP\<close>: one expected byte.\<close>

definition expect :: "char \<Rightarrow> state \<Rightarrow> 'w exec \<Rightarrow> 'w outcome" where
  "expect c s x = STRICT_CHECK (cch x \<noteq> c) x (\<lambda>x. Break (UPDATE_STATE s x))"

definition do_s_res_first_http_major :: "'w exec \<Rightarrow> 'w outcome" where
  "do_s_res_first_http_major x =
     (if \<not> IS_NUM (cch x) then FAIL HPE_INVALID_VERSION x
      else Break (UPDATE_STATE s_res_http_major
        (on_prs (\<lambda>q. q\<lparr>http_major := of_nat (digit (cch x))\<rparr>) x)))"

text \<open>One more digit of a version number: times ten, plus the digit, at most 999.\<close>

definition more_major :: "'w exec \<Rightarrow> 'w outcome" where
  "more_major x =
     (let x1 = on_prs (\<lambda>q. q\<lparr>http_major := http_major q * 10 + of_nat (digit (cch x))\<rparr>) x
      in if 999 < http_major (prs x1) then FAIL HPE_INVALID_VERSION x1 else Break x1)"

definition more_minor :: "'w exec \<Rightarrow> 'w outcome" where
  "more_minor x =
     (let x1 = on_prs (\<lambda>q. q\<lparr>http_minor := http_minor q * 10 + of_nat (digit (cch x))\<rparr>) x
      in if 999 < http_minor (prs x1) then FAIL HPE_INVALID_VERSION x1 else Break x1)"

definition do_s_res_http_major :: "'w exec \<Rightarrow> 'w outcome" where
  "do_s_res_http_major x =
     (if cch x = CHR ''.'' then Break (UPDATE_STATE s_res_first_http_minor x)
      else if \<not> IS_NUM (cch x) then FAIL HPE_INVALID_VERSION x
      else more_major x)"

definition do_s_res_first_http_minor :: "'w exec \<Rightarrow> 'w outcome" where
  "do_s_res_first_http_minor x =
     (if \<not> IS_NUM (cch x) then FAIL HPE_INVALID_VERSION x
      else Break (UPDATE_STATE s_res_http_minor
        (on_prs (\<lambda>q. q\<lparr>http_minor := of_nat (digit (cch x))\<rparr>) x)))"

definition do_s_res_http_minor :: "'w exec \<Rightarrow> 'w outcome" where
  "do_s_res_http_minor x =
     (if cch x = SP then Break (UPDATE_STATE s_res_first_status_code x)
      else if \<not> IS_NUM (cch x) then FAIL HPE_INVALID_VERSION x
      else more_minor x)"

definition do_s_res_first_status_code :: "'w exec \<Rightarrow> 'w outcome" where
  "do_s_res_first_status_code x =
     (if \<not> IS_NUM (cch x) then
        (if cch x = SP then Break x else FAIL HPE_INVALID_STATUS x)
      else Break (UPDATE_STATE s_res_status_code
        (on_prs (\<lambda>q. q\<lparr>status_code := of_nat (digit (cch x))\<rparr>) x)))"

definition do_s_res_status_code :: "'w exec \<Rightarrow> 'w outcome" where
  "do_s_res_status_code x =
     (if \<not> IS_NUM (cch x) then
        (if cch x = SP then Break (UPDATE_STATE s_res_status_start x)
         else if cch x = CR then Break (UPDATE_STATE s_res_line_almost_done x)
         else if cch x = LF then Break (UPDATE_STATE s_header_field_start x)
         else FAIL HPE_INVALID_STATUS x)
      else let x1 = on_prs (\<lambda>q. q\<lparr>status_code := status_code q * 10 + of_nat (digit (cch x))\<rparr>) x
        in if 999 < status_code (prs x1) then FAIL HPE_INVALID_STATUS x1 else Break x1)"

definition do_s_res_status_start :: "'w exec \<Rightarrow> 'w outcome" where
  "do_s_res_status_start x =
     (if cch x = CR then Break (UPDATE_STATE s_res_line_almost_done x)
      else if cch x = LF then Break (UPDATE_STATE s_header_field_start x)
      else Break (on_prs (\<lambda>q. q\<lparr>index := 0\<rparr>) (UPDATE_STATE s_res_status (MARK Status x))))"

definition do_s_res_status :: "'w http_parser_settings \<Rightarrow> char list \<Rightarrow> 'w exec \<Rightarrow> 'w outcome" where
  "do_s_res_status S data x =
     (if cch x = CR then CALLBACK_DATA S data Status (UPDATE_STATE s_res_line_almost_done x) Break
      else if cch x = LF then CALLBACK_DATA S data Status (UPDATE_STATE s_header_field_start x) Break
      else Break x)"

definition do_s_res_line_almost_done :: "'w exec \<Rightarrow> 'w outcome" where
  "do_s_res_line_almost_done x =
     STRICT_CHECK (cch x \<noteq> LF) x (\<lambda>x. Break (UPDATE_STATE s_header_field_start x))"

section \<open>The request line\<close>

definition start_method :: "char \<Rightarrow> http_method option" where
  "start_method c = map_of
     [(CHR ''A'', HTTP_ACL), (CHR ''B'', HTTP_BIND), (CHR ''C'', HTTP_CONNECT),
      (CHR ''D'', HTTP_DELETE), (CHR ''G'', HTTP_GET), (CHR ''H'', HTTP_HEAD),
      (CHR ''L'', HTTP_LOCK), (CHR ''M'', HTTP_MKCOL), (CHR ''N'', HTTP_NOTIFY),
      (CHR ''O'', HTTP_OPTIONS), (CHR ''P'', HTTP_POST), (CHR ''R'', HTTP_REPORT),
      (CHR ''S'', HTTP_SUBSCRIBE), (CHR ''T'', HTTP_TRACE), (CHR ''U'', HTTP_UNLOCK)] c"

definition do_s_start_req :: "'w http_parser_settings \<Rightarrow> 'w exec \<Rightarrow> 'w outcome" where
  "do_s_start_req S x =
     (if cch x = CR \<or> cch x = LF then Break x
      else let x1 = on_prs reset_message x in
        if \<not> IS_ALPHA (cch x) then FAIL HPE_INVALID_METHOD x1
        else let x2 = on_prs (\<lambda>q. q\<lparr>meth := HTTP_DELETE, index := 1\<rparr>) x1 in
          case start_method (cch x) of
            None \<Rightarrow> FAIL HPE_INVALID_METHOD x2
          | Some m \<Rightarrow> CALLBACK_NOTIFY (on_message_begin S) HPE_CB_message_begin
              (UPDATE_STATE s_req_method (on_prs (\<lambda>q. q\<lparr>meth := m\<rparr>) x2)) Break)"

definition method_table :: "((http_method \<times> nat \<times> char) \<times> http_method) list" where
  "method_table =
     [((HTTP_POST, 1, CHR ''U''), HTTP_PUT),
      ((HTTP_POST, 1, CHR ''A''), HTTP_PATCH),
      ((HTTP_CONNECT, 1, CHR ''H''), HTTP_CHECKOUT),
      ((HTTP_CONNECT, 2, CHR ''P''), HTTP_COPY),
      ((HTTP_MKCOL, 1, CHR ''O''), HTTP_MOVE),
      ((HTTP_MKCOL, 1, CHR ''E''), HTTP_MERGE),
      ((HTTP_MKCOL, 2, CHR ''A''), HTTP_MKACTIVITY),
      ((HTTP_MKCOL, 3, CHR ''A''), HTTP_MKCALENDAR),
      ((HTTP_SUBSCRIBE, 1, CHR ''E''), HTTP_SEARCH),
      ((HTTP_REPORT, 2, CHR ''B''), HTTP_REBIND),
      ((HTTP_POST, 1, CHR ''R''), HTTP_PROPFIND),
      ((HTTP_PROPFIND, 4, CHR ''P''), HTTP_PROPPATCH),
      ((HTTP_PUT, 2, CHR ''R''), HTTP_PURGE),
      ((HTTP_LOCK, 1, CHR ''I''), HTTP_LINK),
      ((HTTP_UNLOCK, 2, CHR ''S''), HTTP_UNSUBSCRIBE),
      ((HTTP_UNLOCK, 2, CHR ''B''), HTTP_UNBIND),
      ((HTTP_UNLOCK, 3, CHR ''I''), HTTP_UNLINK)]"

text \<open>\<open>matcher[parser->index]\<close> is a load from the method string, checked here.\<close>

definition do_s_req_method :: "'w exec \<Rightarrow> 'w outcome" where
  "do_s_req_method x =
     (let q = prs x; i = unat (index q);
          next = (\<lambda>y. Break (on_prs (\<lambda>q. q\<lparr>index := index q + 1\<rparr>) y))
      in if cch x = NUL then FAIL HPE_INVALID_METHOD x
         else case c_char_at (method_strings (meth q)) i of
           None \<Rightarrow> Assert_failed
         | Some c \<Rightarrow>
             if cch x = SP \<and> c = NUL then next (UPDATE_STATE s_req_spaces_before_url x)
             else if cch x = c then next x
             else if IS_ALPHA (cch x) then
               (case map_of method_table (meth q, i, cch x) of
                  None \<Rightarrow> FAIL HPE_INVALID_METHOD x
                | Some m \<Rightarrow> next (on_prs (\<lambda>q. q\<lparr>meth := m\<rparr>) x))
             else if cch x = CHR ''-'' \<and> i = 1 \<and> meth q = HTTP_MKCOL then
               next (on_prs (\<lambda>q. q\<lparr>meth := HTTP_MSEARCH\<rparr>) x)
             else FAIL HPE_INVALID_METHOD x)"

definition url_step :: "'w exec \<Rightarrow> 'w outcome" where
  "url_step x =
     (let x1 = UPDATE_STATE (parse_url_char (p_state x) (cch x)) x
      in if p_state x1 = s_dead then FAIL HPE_INVALID_URL x1 else Break x1)"

definition do_s_req_spaces_before_url :: "'w exec \<Rightarrow> 'w outcome" where
  "do_s_req_spaces_before_url x =
     (if cch x = SP then Break x
      else let x1 = MARK Url x in
        url_step (if meth (prs x) = HTTP_CONNECT then UPDATE_STATE s_req_server_start x1 else x1))"

definition do_s_req_schema :: "'w exec \<Rightarrow> 'w outcome" where
  "do_s_req_schema x =
     (if cch x = SP \<or> cch x = CR \<or> cch x = LF then FAIL HPE_INVALID_URL x else url_step x)"

definition do_s_req_url :: "'w http_parser_settings \<Rightarrow> char list \<Rightarrow> 'w exec \<Rightarrow> 'w outcome" where
  "do_s_req_url S data x =
     (if cch x = SP then CALLBACK_DATA S data Url (UPDATE_STATE s_req_http_start x) Break
      else if cch x = CR \<or> cch x = LF then
        CALLBACK_DATA S data Url
          (UPDATE_STATE (if cch x = CR then s_req_line_almost_done else s_header_field_start)
             (on_prs (\<lambda>q. q\<lparr>http_major := 0, http_minor := 9\<rparr>) x)) Break
      else url_step x)"

definition do_s_req_http_start :: "'w exec \<Rightarrow> 'w outcome" where
  "do_s_req_http_start x =
     (if cch x = CHR ''H'' then Break (UPDATE_STATE s_req_http_H x)
      else if cch x = SP then Break x else FAIL HPE_INVALID_CONSTANT x)"

definition do_s_req_first_http_major :: "'w exec \<Rightarrow> 'w outcome" where
  "do_s_req_first_http_major x =
     (if \<not> (IS_NUM (cch x) \<and> cch x \<noteq> CHR ''0'') then FAIL HPE_INVALID_VERSION x
      else Break (UPDATE_STATE s_req_http_major
        (on_prs (\<lambda>q. q\<lparr>http_major := of_nat (digit (cch x))\<rparr>) x)))"

definition do_s_req_http_major :: "'w exec \<Rightarrow> 'w outcome" where
  "do_s_req_http_major x =
     (if cch x = CHR ''.'' then Break (UPDATE_STATE s_req_first_http_minor x)
      else if \<not> IS_NUM (cch x) then FAIL HPE_INVALID_VERSION x
      else more_major x)"

definition do_s_req_first_http_minor :: "'w exec \<Rightarrow> 'w outcome" where
  "do_s_req_first_http_minor x =
     (if \<not> IS_NUM (cch x) then FAIL HPE_INVALID_VERSION x
      else Break (UPDATE_STATE s_req_http_minor
        (on_prs (\<lambda>q. q\<lparr>http_minor := of_nat (digit (cch x))\<rparr>) x)))"

definition do_s_req_http_minor :: "'w exec \<Rightarrow> 'w outcome" where
  "do_s_req_http_minor x =
     (if cch x = CR then Break (UPDATE_STATE s_req_line_almost_done x)
      else if cch x = LF then Break (UPDATE_STATE s_header_field_start x)
      else if \<not> IS_NUM (cch x) then FAIL HPE_INVALID_VERSION x
      else more_minor x)"

definition do_s_req_line_almost_done :: "'w exec \<Rightarrow> 'w outcome" where
  "do_s_req_line_almost_done x =
     (if cch x \<noteq> LF then FAIL HPE_LF_EXPECTED x else Break (UPDATE_STATE s_header_field_start x))"

section \<open>Header fields\<close>

definition do_s_header_field_start :: "'w exec \<Rightarrow> 'w outcome" where
  "do_s_header_field_start x =
     (if cch x = CR then Break (UPDATE_STATE s_headers_almost_done x)
      else if cch x = LF then Reexecute (UPDATE_STATE s_headers_almost_done x)
      else let c = TOKEN (cch x) in
        if c = NUL then FAIL HPE_INVALID_HEADER_TOKEN x
        else let h = (if c = CHR ''c'' then h_C
                else if c = CHR ''p'' then h_matching_proxy_connection
                else if c = CHR ''t'' then h_matching_transfer_encoding
                else if c = CHR ''u'' then h_matching_upgrade
                else h_general)
          in Break (on_prs (\<lambda>q. q\<lparr>header_state := h\<rparr>) (UPDATE_STATE s_header_field
               (on_prs (\<lambda>q. q\<lparr>index := 0\<rparr>) (MARK Header_field x)))))"

text \<open>
  Matching a known name: the index is advanced first; a mismatch, or an index past the
  terminating nul byte, gives up for \<open>fail\<close>, the last character reaches \<open>done\<close>.
\<close>

definition match_token :: "char list \<Rightarrow> header_states \<Rightarrow> header_states \<Rightarrow> header_states \<Rightarrow>
    nat \<Rightarrow> char \<Rightarrow> header_states" where
  "match_token tok cur finished fail i c =
     (if length tok < i \<or> c_char_at tok i \<noteq> Some c then fail
      else if i = length tok - 1 then finished else cur)"

definition header_field_match :: "char list \<Rightarrow> header_states \<Rightarrow> char \<Rightarrow> http_parser \<Rightarrow> http_parser" where
  "header_field_match tok finished c q =
     (let i = index q + 1
      in q\<lparr>index := i, header_state := match_token tok (header_state q) finished h_general (unat i) c\<rparr>)"

text \<open>The \<open>switch (parser->header_state)\<close> on one name character; \<open>None\<close> is the assertion.\<close>

definition header_field_char :: "char \<Rightarrow> char \<Rightarrow> http_parser \<Rightarrow> http_parser option" where
  "header_field_char c ch q = (case header_state q of
      h_general \<Rightarrow> Some q
    | h_C \<Rightarrow> Some (q\<lparr>index := index q + 1, header_state := (if c = CHR ''o'' then h_CO else h_general)\<rparr>)
    | h_CO \<Rightarrow> Some (q\<lparr>index := index q + 1, header_state := (if c = CHR ''n'' then h_CON else h_general)\<rparr>)
    | h_CON \<Rightarrow> Some (q\<lparr>index := index q + 1, header_state :=
        (if c = CHR ''n'' then h_matching_connection
         else if c = CHR ''t'' then h_matching_content_length else h_general)\<rparr>)
    | h_matching_connection \<Rightarrow> Some (header_field_match ''connection'' h_connection c q)
    | h_matching_proxy_connection \<Rightarrow> Some (header_field_match ''proxy-connection'' h_connection c q)
    | h_matching_content_length \<Rightarrow> Some (header_field_match ''content-length'' h_content_length c q)
    | h_matching_transfer_encoding \<Rightarrow>
        Some (header_field_match ''transfer-encoding'' h_transfer_encoding c q)
    | h_matching_upgrade \<Rightarrow> Some (header_field_match ''upgrade'' h_upgrade c q)
    | h_connection \<Rightarrow> Some (if ch \<noteq> SP then q\<lparr>header_state := h_general\<rparr> else q)
    | h_content_length \<Rightarrow> Some (if ch \<noteq> SP then q\<lparr>header_state := h_general\<rparr> else q)
    | h_transfer_encoding \<Rightarrow> Some (if ch \<noteq> SP then q\<lparr>header_state := h_general\<rparr> else q)
    | h_upgrade \<Rightarrow> Some (if ch \<noteq> SP then q\<lparr>header_state := h_general\<rparr> else q)
    | _ \<Rightarrow> None)"

text \<open>The loop over the bytes left: the parser, \<open>p\<close> and \<open>ch\<close> it ends with.\<close>

fun header_field_loop :: "char list \<Rightarrow> nat \<Rightarrow> char \<Rightarrow> http_parser \<Rightarrow> (http_parser \<times> nat \<times> char) option" where
  "header_field_loop [] p ch q = Some (q, p, ch)"
| "header_field_loop (d # ds) p ch q =
     (let c = TOKEN d in
      if c = NUL then Some (q, p, d)
      else case header_field_char c d q of
        None \<Rightarrow> None
      | Some q' \<Rightarrow> header_field_loop ds (p + 1) d q')"

text \<open>Behind the loop: out of bytes, or at the colon.\<close>

definition header_field_end :: "'w http_parser_settings \<Rightarrow> char list \<Rightarrow> 'w exec \<Rightarrow> 'w outcome" where
  "header_field_end S data y =
     (if pos y = length data then Break (y\<lparr>pos := pos y - 1\<rparr>)
      else if cch y = CHR '':'' then
        CALLBACK_DATA S data Header_field (UPDATE_STATE s_header_value_discard_ws y) Break
      else FAIL HPE_INVALID_HEADER_TOKEN y)"

definition do_s_header_field :: "'w http_parser_settings \<Rightarrow> char list \<Rightarrow> 'w exec \<Rightarrow> 'w outcome" where
  "do_s_header_field S data x =
     (case header_field_loop (drop (pos x) data) (pos x) (cch x) (prs x) of
        None \<Rightarrow> Assert_failed
      | Some (q, p, ch) \<Rightarrow>
          COUNT_HEADER_SIZE (p - pos x) (x\<lparr>prs := q, pos := p, cch := ch\<rparr>) (header_field_end S data))"

section \<open>Header values\<close>

definition value_start_content_length :: "'w exec \<Rightarrow> 'w outcome" where
  "value_start_content_length x =
     (if \<not> IS_NUM (cch x) then FAIL HPE_INVALID_CONTENT_LENGTH x
      else if has_flag (prs x) F_CONTENTLENGTH then FAIL HPE_UNEXPECTED_CONTENT_LENGTH x
      else Break (on_prs (\<lambda>q. (set_flag F_CONTENTLENGTH q)\<lparr>content_length := of_nat (digit (cch x))\<rparr>) x))"

definition do_s_header_value_start :: "'w exec \<Rightarrow> 'w outcome" where
  "do_s_header_value_start x =
     (let x1 = on_prs (\<lambda>q. q\<lparr>index := 0\<rparr>) (UPDATE_STATE s_header_value (MARK Header_value x));
          c = LOWER (cch x);
          to = (\<lambda>h. Break (on_prs (\<lambda>q. q\<lparr>header_state := h\<rparr>) x1))
      in case header_state (prs x1) of
        h_upgrade \<Rightarrow> Break (on_prs (\<lambda>q. (set_flag F_UPGRADE q)\<lparr>header_state := h_general\<rparr>) x1)
      | h_transfer_encoding \<Rightarrow>
          to (if c = CHR ''c'' then h_matching_transfer_encoding_chunked else h_general)
      | h_content_length \<Rightarrow> value_start_content_length x1
      | h_connection \<Rightarrow>
          to (if c = CHR ''k'' then h_matching_connection_keep_alive
              else if c = CHR ''c'' then h_matching_connection_close
              else if c = CHR ''u'' then h_matching_connection_upgrade
              else h_matching_connection_token)
      | h_matching_connection_token_start \<Rightarrow> Break x1
      | _ \<Rightarrow> to h_general)"

definition do_s_header_value_discard_ws :: "'w exec \<Rightarrow> 'w outcome" where
  "do_s_header_value_discard_ws x =
     (if cch x = SP \<or> cch x = TAB then Break x
      else if cch x = CR then Break (UPDATE_STATE s_header_value_discard_ws_almost_done x)
      else if cch x = LF then Break (UPDATE_STATE s_header_value_discard_lws x)
      else do_s_header_value_start x)"

text \<open>\<open>memchr\<close> over a window of the buffer.\<close>

fun memchr :: "char \<Rightarrow> char list \<Rightarrow> nat option" where
  "memchr c [] = None"
| "memchr c (d # ds) = (if d = c then Some 0 else map_option Suc (memchr c ds))"

text \<open>
  The fast path of a general value: the next \<open>CR\<close> or \<open>LF\<close> within
  \<open>HTTP_MAX_HEADER_SIZE\<close> bytes, or else the end of the buffer.
\<close>

definition general_skip :: "char list \<Rightarrow> nat \<Rightarrow> nat" where
  "general_skip data p =
     (let limit = min (length data - p) HTTP_MAX_HEADER_SIZE;
          win = take limit (drop p data)
      in case (memchr CR win, memchr LF win) of
           (Some i, Some j) \<Rightarrow> p + (if i \<ge> j then j else i)
         | (Some i, None) \<Rightarrow> p + i
         | (None, Some j) \<Rightarrow> p + j
         | (None, None) \<Rightarrow> length data)"

definition content_length_digit :: "char \<Rightarrow> http_parser \<Rightarrow> http_errno + http_parser" where
  "content_length_digit ch q =
     (if ch = SP then Inr q
      else if \<not> IS_NUM ch then Inl HPE_INVALID_CONTENT_LENGTH
      else let t = content_length q * 10 + of_nat (digit ch) in
        if (ULLONG_MAX - 10) div 10 < content_length q then Inl HPE_INVALID_CONTENT_LENGTH
        else Inr (q\<lparr>content_length := t\<rparr>))"

definition token_start :: "char \<Rightarrow> header_states" where
  "token_start c =
     (if c = CHR ''k'' then h_matching_connection_keep_alive
      else if c = CHR ''c'' then h_matching_connection_close
      else if c = CHR ''u'' then h_matching_connection_upgrade
      else if TOKEN c \<noteq> NUL then h_matching_connection_token
      else if c = SP \<or> c = TAB then h_matching_connection_token_start
      else h_general)"

definition value_match :: "char list \<Rightarrow> header_states \<Rightarrow> header_states \<Rightarrow> header_states \<Rightarrow> char \<Rightarrow>
    http_parser \<Rightarrow> header_states \<times> http_parser" where
  "value_match tok cur finished fail c q =
     (let i = index q + 1 in (match_token tok cur finished fail (unat i) c, q\<lparr>index := i\<rparr>))"

definition connection_flag :: "header_states \<Rightarrow> http_parser \<Rightarrow> http_parser" where
  "connection_flag h q =
     (if h = h_connection_keep_alive then set_flag F_CONNECTION_KEEP_ALIVE q
      else if h = h_connection_close then set_flag F_CONNECTION_CLOSE q
      else if h = h_connection_upgrade then set_flag F_CONNECTION_UPGRADE q
      else q)"

definition connection_done_char :: "header_states \<Rightarrow> char \<Rightarrow> http_parser \<Rightarrow> header_states \<times> http_parser" where
  "connection_done_char h ch q =
     (if ch = CHR '','' then (h_matching_connection_token_start, (connection_flag h q)\<lparr>index := 0\<rparr>)
      else if ch \<noteq> SP then (h_matching_connection_token, q)
      else (h, q))"

text \<open>
  The \<open>switch (h_state)\<close> on one value character, for every state but \<open>h_general\<close>:
  \<open>None\<close> is the assertion, \<open>Inl\<close> an error, \<open>Inr\<close> the new \<open>h_state\<close> and parser.
\<close>

definition header_value_char :: "header_states \<Rightarrow> char \<Rightarrow> http_parser \<Rightarrow>
    (http_errno + (header_states \<times> http_parser)) option" where
  "header_value_char h ch q =
     (let c = LOWER ch in
      case h of
        h_connection \<Rightarrow> None
      | h_transfer_encoding \<Rightarrow> None
      | h_content_length \<Rightarrow>
          Some (case content_length_digit ch q of Inl e \<Rightarrow> Inl e | Inr q' \<Rightarrow> Inr (h, q'))
      | h_matching_transfer_encoding_chunked \<Rightarrow>
          Some (Inr (value_match ''chunked'' h h_transfer_encoding_chunked h_general c q))
      | h_matching_connection_token_start \<Rightarrow> Some (Inr (token_start c, q))
      | h_matching_connection_keep_alive \<Rightarrow>
          Some (Inr (value_match ''keep-alive'' h h_connection_keep_alive h_matching_connection_token c q))
      | h_matching_connection_close \<Rightarrow>
          Some (Inr (value_match ''close'' h h_connection_close h_matching_connection_token c q))
      | h_matching_connection_upgrade \<Rightarrow>
          Some (Inr (value_match ''upgrade'' h h_connection_upgrade h_matching_connection_token c q))
      | h_matching_connection_token \<Rightarrow>
          Some (Inr (if ch = CHR '','' then (h_matching_connection_token_start, q\<lparr>index := 0\<rparr>) else (h, q)))
      | h_transfer_encoding_chunked \<Rightarrow> Some (Inr (if ch \<noteq> SP then h_general else h, q))
      | h_connection_keep_alive \<Rightarrow> Some (Inr (connection_done_char h ch q))
      | h_connection_close \<Rightarrow> Some (Inr (connection_done_char h ch q))
      | h_connection_upgrade \<Rightarrow> Some (Inr (connection_done_char h ch q))
      | _ \<Rightarrow> Some (Inr (h_general, q)))"

text \<open>How the loop over the value ends: at the end of the buffer, at a \<open>CR\<close> or \<open>LF\<close>, or in error.\<close>

datatype value_exit =
    Value_end header_states http_parser nat char
  | Value_cr header_states http_parser nat
  | Value_lf header_states http_parser nat
  | Value_fail http_errno http_parser nat char
  | Value_assert

lemma memchr_first: "memchr c (d # ds) = Some i \<Longrightarrow> d \<noteq> c \<Longrightarrow> 0 < i"
  by (auto split: if_splits)

lemma general_skip_greater:
  assumes "p < length data" "data ! p \<noteq> CR" "data ! p \<noteq> LF"
  shows "p < general_skip data p"
proof -
  obtain ds where d: "take (min (length data - p) HTTP_MAX_HEADER_SIZE) (drop p data) = data ! p # ds"
  proof -
    have "drop p data = data ! p # drop (Suc p) data" using assms(1) by (simp add: Cons_nth_drop_Suc)
    moreover have "0 < min (length data - p) HTTP_MAX_HEADER_SIZE"
      using assms(1) by (simp add: HTTP_MAX_HEADER_SIZE_def)
    ultimately show thesis using that by (metis take_Cons' less_numeral_extra(3))
  qed
  show ?thesis
    using assms memchr_first [of CR "data ! p" ds] memchr_first [of LF "data ! p" ds]
    unfolding general_skip_def Let_def d by (auto split: option.splits simp del: memchr.simps)
qed

function header_value_loop :: "bool \<Rightarrow> char list \<Rightarrow> nat \<Rightarrow> char \<Rightarrow> header_states \<Rightarrow> http_parser \<Rightarrow> value_exit" where
  "header_value_loop lenient data p ch0 h q =
     (if length data \<le> p then Value_end h q p ch0
      else let ch = data ! p in
        if ch = CR then Value_cr h q p
        else if ch = LF then Value_lf h q p
        else if \<not> lenient \<and> \<not> IS_HEADER_CHAR ch then Value_fail HPE_INVALID_HEADER_TOKEN q p ch
        else if h = h_general then header_value_loop lenient data (general_skip data p) ch h q
        else case header_value_char h ch q of
          None \<Rightarrow> Value_assert
        | Some (Inl e) \<Rightarrow> Value_fail e (q\<lparr>header_state := h\<rparr>) p ch
        | Some (Inr (h', q')) \<Rightarrow> header_value_loop lenient data (p + 1) ch h' q')"
  by pat_completeness auto
termination
proof (relation "measure (\<lambda>(l, data, p, ch, h, q). length data - p)", goal_cases)
  case 1
  show ?case by simp
next
  case (2 lenient data p ch0 h q ch)
  then show ?case using general_skip_greater [of p data] by simp
next
  case 3
  then show ?case by auto
qed

declare header_value_loop.simps [simp del]

text \<open>Behind the loop, which began at \<open>start\<close>.\<close>

definition header_value_end :: "char list \<Rightarrow> nat \<Rightarrow> header_states \<Rightarrow> 'w exec \<Rightarrow> 'w outcome" where
  "header_value_end data start h y =
     COUNT_HEADER_SIZE (pos y - start) (on_prs (\<lambda>q. q\<lparr>header_state := h\<rparr>) y)
       (\<lambda>y. Break (if pos y = length data then y\<lparr>pos := pos y - 1\<rparr> else y))"

definition do_s_header_value ::
  "'w http_parser_settings \<Rightarrow> char list \<Rightarrow> bool \<Rightarrow> 'w exec \<Rightarrow> 'w outcome" where
  "do_s_header_value S data lenient x =
     (case header_value_loop lenient data (pos x) (cch x) (header_state (prs x)) (prs x) of
        Value_end h q p ch \<Rightarrow> header_value_end data (pos x) h (x\<lparr>prs := q, pos := p, cch := ch\<rparr>)
      | Value_cr h q p \<Rightarrow>
          CALLBACK_DATA S data Header_value
            (UPDATE_STATE s_header_almost_done (x\<lparr>prs := q\<lparr>header_state := h\<rparr>, pos := p, cch := CR\<rparr>))
            (header_value_end data (pos x) h)
      | Value_lf h q p \<Rightarrow>
          COUNT_HEADER_SIZE (p - pos x) (UPDATE_STATE s_header_almost_done (x\<lparr>prs := q, pos := p, cch := LF\<rparr>))
            (\<lambda>y. CALLBACK_DATA_NOADVANCE S data Header_value (on_prs (\<lambda>q. q\<lparr>header_state := h\<rparr>) y) Reexecute)
      | Value_fail e q p ch \<Rightarrow> FAIL e (x\<lparr>prs := q, pos := p, cch := ch\<rparr>)
      | Value_assert \<Rightarrow> Assert_failed)"

definition do_s_header_almost_done :: "'w exec \<Rightarrow> 'w outcome" where
  "do_s_header_almost_done x =
     (if cch x \<noteq> LF then FAIL HPE_LF_EXPECTED x else Break (UPDATE_STATE s_header_value_lws x))"

definition header_flags :: "http_parser \<Rightarrow> http_parser" where
  "header_flags q = (case header_state q of
      h_connection_keep_alive \<Rightarrow> set_flag F_CONNECTION_KEEP_ALIVE q
    | h_connection_close \<Rightarrow> set_flag F_CONNECTION_CLOSE q
    | h_transfer_encoding_chunked \<Rightarrow> set_flag F_CHUNKED q
    | h_connection_upgrade \<Rightarrow> set_flag F_CONNECTION_UPGRADE q
    | _ \<Rightarrow> q)"

definition do_s_header_value_lws :: "'w exec \<Rightarrow> 'w outcome" where
  "do_s_header_value_lws x =
     (if cch x = SP \<or> cch x = TAB then Reexecute (UPDATE_STATE s_header_value_start x)
      else Reexecute (UPDATE_STATE s_header_field_start (on_prs header_flags x)))"

definition do_s_header_value_discard_ws_almost_done :: "'w exec \<Rightarrow> 'w outcome" where
  "do_s_header_value_discard_ws_almost_done x =
     STRICT_CHECK (cch x \<noteq> LF) x (\<lambda>x. Break (UPDATE_STATE s_header_value_discard_lws x))"

definition do_s_header_value_discard_lws ::
  "'w http_parser_settings \<Rightarrow> char list \<Rightarrow> 'w exec \<Rightarrow> 'w outcome" where
  "do_s_header_value_discard_lws S data x =
     (if cch x = SP \<or> cch x = TAB then Break (UPDATE_STATE s_header_value_discard_ws x)
      else CALLBACK_DATA_NOADVANCE S data Header_value
        (UPDATE_STATE s_header_field_start (MARK Header_value (on_prs header_flags x))) Reexecute)"

section \<open>End of the headers\<close>

definition wants_upgrade :: "http_parser \<Rightarrow> bool" where
  "wants_upgrade q \<longleftrightarrow>
     flags q AND (F_UPGRADE OR F_CONNECTION_UPGRADE) = F_UPGRADE OR F_CONNECTION_UPGRADE
     \<or> meth q = HTTP_CONNECT"

text \<open>
  \<open>on_headers_complete\<close>: its result 1 or 2 asks to skip the body.  Unlike the macros, the
  code does not store \<open>p_state\<close> in the parser before this call.
\<close>

definition headers_complete ::
  "'w http_parser_settings \<Rightarrow> 'w exec \<Rightarrow> ('w exec \<Rightarrow> 'w outcome) \<Rightarrow> 'w outcome" where
  "headers_complete S x k = (case on_headers_complete S of
      None \<Rightarrow> k x
    | Some f \<Rightarrow>
        (let (r, q, w) = f (prs x) (world x);
             y = x\<lparr>prs := q, world := w\<rparr>
         in if r = 0 then k y
            else if r = 2 then k (on_prs (\<lambda>q. set_flag F_SKIPBODY (q\<lparr>upgrade := True\<rparr>)) y)
            else if r = 1 then k (on_prs (set_flag F_SKIPBODY) y)
            else RETURN (pos y) (SET_ERRNO HPE_CB_headers_complete y)))"

definition do_s_headers_almost_done :: "'w http_parser_settings \<Rightarrow> 'w exec \<Rightarrow> 'w outcome" where
  "do_s_headers_almost_done S x = STRICT_CHECK (cch x \<noteq> LF) x (\<lambda>x.
     if has_flag (prs x) F_TRAILING then
       CALLBACK_NOTIFY_NOADVANCE (on_chunk_complete S) HPE_CB_chunk_complete
         (UPDATE_STATE s_message_done x) Reexecute
     else if has_flag (prs x) F_CHUNKED \<and> has_flag (prs x) F_CONTENTLENGTH then
       FAIL HPE_UNEXPECTED_CONTENT_LENGTH x
     else headers_complete S
       (on_prs (\<lambda>q. q\<lparr>upgrade := wants_upgrade q\<rparr>) (UPDATE_STATE s_headers_done x))
       (\<lambda>y. if errno (prs y) \<noteq> HPE_OK then RETURN (pos y) y else Reexecute y))"

definition has_body :: "http_parser \<Rightarrow> bool" where
  "has_body q \<longleftrightarrow> has_flag q F_CHUNKED \<or> (0 < content_length q \<and> content_length q \<noteq> ULLONG_MAX)"

definition message_complete ::
  "'w http_parser_settings \<Rightarrow> 'w exec \<Rightarrow> ('w exec \<Rightarrow> 'w outcome) \<Rightarrow> 'w outcome" where
  "message_complete S x k =
     CALLBACK_NOTIFY (on_message_complete S) HPE_CB_message_complete (new_message x) k"

definition do_s_headers_done :: "'w http_parser_settings \<Rightarrow> 'w exec \<Rightarrow> 'w outcome" where
  "do_s_headers_done S x = STRICT_CHECK (cch x \<noteq> LF) x (\<lambda>x.
     let x1 = on_prs (\<lambda>q. q\<lparr>nread := 0\<rparr>) x; q = prs x1 in
     if upgrade q \<and> (meth q = HTTP_CONNECT \<or> has_flag q F_SKIPBODY \<or> \<not> has_body q) then
       message_complete S x1 (\<lambda>y. RETURN (pos y + 1) y)
     else if has_flag q F_SKIPBODY then message_complete S x1 Break
     else if has_flag q F_CHUNKED then Break (UPDATE_STATE s_chunk_size_start x1)
     else if content_length q = 0 then message_complete S x1 Break
     else if content_length q \<noteq> ULLONG_MAX then Break (UPDATE_STATE s_body_identity x1)
     else if \<not> http_message_needs_eof q then message_complete S x1 Break
     else Break (UPDATE_STATE s_body_identity_eof x1))"

section \<open>The body\<close>

text \<open>\<open>MIN (content_length, (data + len) - p)\<close>, and the advance over that many bytes.\<close>

definition body_to_read :: "char list \<Rightarrow> 'w exec \<Rightarrow> nat" where
  "body_to_read data x = min (unat (content_length (prs x))) (length data - pos x)"

definition body_advance :: "char list \<Rightarrow> 'w exec \<Rightarrow> 'w exec" where
  "body_advance data x =
     (let n = body_to_read data x; y = MARK Body x
      in on_prs (\<lambda>q. q\<lparr>content_length := content_length q - of_nat n\<rparr>) (y\<lparr>pos := pos y + n - 1\<rparr>))"

definition do_s_body_identity :: "'w http_parser_settings \<Rightarrow> char list \<Rightarrow> 'w exec \<Rightarrow> 'w outcome" where
  "do_s_body_identity S data x =
     (if content_length (prs x) = 0 \<or> content_length (prs x) = ULLONG_MAX then Assert_failed
      else let y = body_advance data x in
        if content_length (prs y) = 0 then
          CALLBACK_DATA_ER S data Body (pos y + 1) (pos y) (UPDATE_STATE s_message_done y) Reexecute
        else Break y)"

definition do_s_body_identity_eof :: "char list \<Rightarrow> 'w exec \<Rightarrow> 'w outcome" where
  "do_s_body_identity_eof data x = Break ((MARK Body x)\<lparr>pos := length data - 1\<rparr>)"

definition do_s_message_done :: "'w http_parser_settings \<Rightarrow> 'w exec \<Rightarrow> 'w outcome" where
  "do_s_message_done S x =
     message_complete S x (\<lambda>y. if upgrade (prs y) then RETURN (pos y + 1) y else Break y)"

definition assert_chunked :: "'w exec \<Rightarrow> 'w outcome \<Rightarrow> 'w outcome" where
  "assert_chunked x r = (if has_flag (prs x) F_CHUNKED then r else Assert_failed)"

definition do_s_chunk_size_start :: "'w exec \<Rightarrow> 'w outcome" where
  "do_s_chunk_size_start x =
     (if nread (prs x) \<noteq> 1 then Assert_failed
      else assert_chunked x
        (if unhex (cch x) = - 1 then FAIL HPE_INVALID_CHUNK_SIZE x
         else Break (UPDATE_STATE s_chunk_size
           (on_prs (\<lambda>q. q\<lparr>content_length := of_int (unhex (cch x))\<rparr>) x))))"

definition do_s_chunk_size :: "'w exec \<Rightarrow> 'w outcome" where
  "do_s_chunk_size x = assert_chunked x
     (if cch x = CR then Break (UPDATE_STATE s_chunk_size_almost_done x)
      else if unhex (cch x) = - 1 then
        (if cch x = CHR '';'' \<or> cch x = SP then Break (UPDATE_STATE s_chunk_parameters x)
         else FAIL HPE_INVALID_CHUNK_SIZE x)
      else if (ULLONG_MAX - 16) div 16 < content_length (prs x) then FAIL HPE_INVALID_CONTENT_LENGTH x
      else Break (on_prs (\<lambda>q. q\<lparr>content_length := content_length q * 16 + of_int (unhex (cch x))\<rparr>) x))"

definition do_s_chunk_parameters :: "'w exec \<Rightarrow> 'w outcome" where
  "do_s_chunk_parameters x = assert_chunked x
     (if cch x = CR then Break (UPDATE_STATE s_chunk_size_almost_done x) else Break x)"

definition do_s_chunk_size_almost_done :: "'w http_parser_settings \<Rightarrow> 'w exec \<Rightarrow> 'w outcome" where
  "do_s_chunk_size_almost_done S x = assert_chunked x (STRICT_CHECK (cch x \<noteq> LF) x (\<lambda>x.
     let x1 = on_prs (\<lambda>q. q\<lparr>nread := 0\<rparr>) x;
         x2 = (if content_length (prs x1) = 0
               then UPDATE_STATE s_header_field_start (on_prs (set_flag F_TRAILING) x1)
               else UPDATE_STATE s_chunk_data x1)
     in CALLBACK_NOTIFY (on_chunk_header S) HPE_CB_chunk_header x2 Break))"

definition do_s_chunk_data :: "char list \<Rightarrow> 'w exec \<Rightarrow> 'w outcome" where
  "do_s_chunk_data data x = assert_chunked x
     (if content_length (prs x) = 0 \<or> content_length (prs x) = ULLONG_MAX then Assert_failed
      else let y = body_advance data x in
        Break (if content_length (prs y) = 0 then UPDATE_STATE s_chunk_data_almost_done y else y))"

definition do_s_chunk_data_almost_done ::
  "'w http_parser_settings \<Rightarrow> char list \<Rightarrow> 'w exec \<Rightarrow> 'w outcome" where
  "do_s_chunk_data_almost_done S data x = assert_chunked x
     (if content_length (prs x) \<noteq> 0 then Assert_failed
      else STRICT_CHECK (cch x \<noteq> CR) x (\<lambda>x.
        CALLBACK_DATA S data Body (UPDATE_STATE s_chunk_data_done x) Break))"

definition do_s_chunk_data_done :: "'w http_parser_settings \<Rightarrow> 'w exec \<Rightarrow> 'w outcome" where
  "do_s_chunk_data_done S x = assert_chunked x (STRICT_CHECK (cch x \<noteq> LF) x (\<lambda>x.
     CALLBACK_NOTIFY (on_chunk_complete S) HPE_CB_chunk_complete
       (UPDATE_STATE s_chunk_size_start (on_prs (\<lambda>q. q\<lparr>nread := 0\<rparr>) x)) Break))"

section \<open>The state switch\<close>

definition switch_state ::
  "'w http_parser_settings \<Rightarrow> char list \<Rightarrow> bool \<Rightarrow> 'w exec \<Rightarrow> 'w outcome" where
  "switch_state S data lenient x = (case p_state x of
      s_dead \<Rightarrow> do_s_dead x
    | s_start_req_or_res \<Rightarrow> do_s_start_req_or_res S x
    | s_res_or_resp_H \<Rightarrow> do_s_res_or_resp_H x
    | s_start_res \<Rightarrow> do_s_start_res S x
    | s_res_H \<Rightarrow> expect CHR ''T'' s_res_HT x
    | s_res_HT \<Rightarrow> expect CHR ''T'' s_res_HTT x
    | s_res_HTT \<Rightarrow> expect CHR ''P'' s_res_HTTP x
    | s_res_HTTP \<Rightarrow> expect CHR ''/'' s_res_first_http_major x
    | s_res_first_http_major \<Rightarrow> do_s_res_first_http_major x
    | s_res_http_major \<Rightarrow> do_s_res_http_major x
    | s_res_first_http_minor \<Rightarrow> do_s_res_first_http_minor x
    | s_res_http_minor \<Rightarrow> do_s_res_http_minor x
    | s_res_first_status_code \<Rightarrow> do_s_res_first_status_code x
    | s_res_status_code \<Rightarrow> do_s_res_status_code x
    | s_res_status_start \<Rightarrow> do_s_res_status_start x
    | s_res_status \<Rightarrow> do_s_res_status S data x
    | s_res_line_almost_done \<Rightarrow> do_s_res_line_almost_done x
    | s_start_req \<Rightarrow> do_s_start_req S x
    | s_req_method \<Rightarrow> do_s_req_method x
    | s_req_spaces_before_url \<Rightarrow> do_s_req_spaces_before_url x
    | s_req_schema \<Rightarrow> do_s_req_schema x
    | s_req_schema_slash \<Rightarrow> do_s_req_schema x
    | s_req_schema_slash_slash \<Rightarrow> do_s_req_schema x
    | s_req_server_start \<Rightarrow> do_s_req_schema x
    | s_req_server \<Rightarrow> do_s_req_url S data x
    | s_req_server_with_at \<Rightarrow> do_s_req_url S data x
    | s_req_path \<Rightarrow> do_s_req_url S data x
    | s_req_query_string_start \<Rightarrow> do_s_req_url S data x
    | s_req_query_string \<Rightarrow> do_s_req_url S data x
    | s_req_fragment_start \<Rightarrow> do_s_req_url S data x
    | s_req_fragment \<Rightarrow> do_s_req_url S data x
    | s_req_http_start \<Rightarrow> do_s_req_http_start x
    | s_req_http_H \<Rightarrow> expect CHR ''T'' s_req_http_HT x
    | s_req_http_HT \<Rightarrow> expect CHR ''T'' s_req_http_HTT x
    | s_req_http_HTT \<Rightarrow> expect CHR ''P'' s_req_http_HTTP x
    | s_req_http_HTTP \<Rightarrow> expect CHR ''/'' s_req_first_http_major x
    | s_req_first_http_major \<Rightarrow> do_s_req_first_http_major x
    | s_req_http_major \<Rightarrow> do_s_req_http_major x
    | s_req_first_http_minor \<Rightarrow> do_s_req_first_http_minor x
    | s_req_http_minor \<Rightarrow> do_s_req_http_minor x
    | s_req_line_almost_done \<Rightarrow> do_s_req_line_almost_done x
    | s_header_field_start \<Rightarrow> do_s_header_field_start x
    | s_header_field \<Rightarrow> do_s_header_field S data x
    | s_header_value_discard_ws \<Rightarrow> do_s_header_value_discard_ws x
    | s_header_value_discard_ws_almost_done \<Rightarrow> do_s_header_value_discard_ws_almost_done x
    | s_header_value_discard_lws \<Rightarrow> do_s_header_value_discard_lws S data x
    | s_header_value_start \<Rightarrow> do_s_header_value_start x
    | s_header_value \<Rightarrow> do_s_header_value S data lenient x
    | s_header_value_lws \<Rightarrow> do_s_header_value_lws x
    | s_header_almost_done \<Rightarrow> do_s_header_almost_done x
    | s_chunk_size_start \<Rightarrow> do_s_chunk_size_start x
    | s_chunk_size \<Rightarrow> do_s_chunk_size x
    | s_chunk_parameters \<Rightarrow> do_s_chunk_parameters x
    | s_chunk_size_almost_done \<Rightarrow> do_s_chunk_size_almost_done S x
    | s_headers_almost_done \<Rightarrow> do_s_headers_almost_done S x
    | s_headers_done \<Rightarrow> do_s_headers_done S x
    | s_chunk_data \<Rightarrow> do_s_chunk_data data x
    | s_chunk_data_almost_done \<Rightarrow> do_s_chunk_data_almost_done S data x
    | s_chunk_data_done \<Rightarrow> do_s_chunk_data_done S x
    | s_body_identity \<Rightarrow> do_s_body_identity S data x
    | s_body_identity_eof \<Rightarrow> do_s_body_identity_eof data x
    | s_message_done \<Rightarrow> do_s_message_done S x)"

section \<open>The loop\<close>

text \<open>
  A run is a sequence of configurations: the head of the \<open>for\<close> loop, the \<open>reexecute\<close>
  label, and the end of the call with its return value.  The end of the loop runs the
  data callbacks for the marks left over.
\<close>

datatype 'w config = At_loop "'w exec" | At_switch "'w exec" | Done "'w exec" nat | Assertion

definition error_exit :: "'w exec \<Rightarrow> 'w outcome" where
  "error_exit x = RETURN (pos x) (if errno (prs x) = HPE_OK then SET_ERRNO HPE_UNKNOWN x else x)"

definition mark_count :: "'w exec \<Rightarrow> nat" where
  "mark_count x = length (filter (\<lambda>m. marks x m \<noteq> None) [Header_field, Header_value, Url, Body, Status])"

definition loop_exit :: "'w http_parser_settings \<Rightarrow> char list \<Rightarrow> 'w exec \<Rightarrow> 'w outcome" where
  "loop_exit S data x =
     (if 1 < mark_count x then Assert_failed
      else CALLBACK_DATA_NOADVANCE S data Header_field x (\<lambda>x.
           CALLBACK_DATA_NOADVANCE S data Header_value x (\<lambda>x.
           CALLBACK_DATA_NOADVANCE S data Url x (\<lambda>x.
           CALLBACK_DATA_NOADVANCE S data Body x (\<lambda>x.
           CALLBACK_DATA_NOADVANCE S data Status x (\<lambda>x. RETURN (length data) x))))))"

definition next_config :: "'w outcome \<Rightarrow> 'w config" where
  "next_config r = (case r of
      Break x \<Rightarrow> At_loop (x\<lparr>pos := pos x + 1\<rparr>)
    | Reexecute x \<Rightarrow> At_switch x
    | Return x n \<Rightarrow> Done x n
    | Goto_error x \<Rightarrow> (case error_exit x of Return y n \<Rightarrow> Done y n | _ \<Rightarrow> Assertion)
    | Assert_failed \<Rightarrow> Assertion)"

definition loop_head :: "'w http_parser_settings \<Rightarrow> char list \<Rightarrow> 'w exec \<Rightarrow> 'w config" where
  "loop_head S data x =
     (if pos x = length data then next_config (loop_exit S data x)
      else let y = x\<lparr>cch := data ! pos x\<rparr> in
        if PARSING_HEADER (p_state y) then next_config (COUNT_HEADER_SIZE 1 y Reexecute)
        else At_switch y)"

definition step :: "'w http_parser_settings \<Rightarrow> char list \<Rightarrow> bool \<Rightarrow> 'w config \<Rightarrow> 'w config" where
  "step S data lenient c = (case c of
      At_loop x \<Rightarrow> loop_head S data x
    | At_switch x \<Rightarrow> next_config (switch_state S data lenient x)
    | _ \<Rightarrow> c)"

text \<open>
  A run with fuel; \<open>None\<close> is a failed assertion or too little fuel.  The fuel of
  \<open>http_parser_execute\<close> is enough when the callbacks leave the parser alone.
\<close>

fun run :: "'w http_parser_settings \<Rightarrow> char list \<Rightarrow> bool \<Rightarrow> nat \<Rightarrow> 'w config \<Rightarrow> ('w exec \<times> nat) option" where
  "run S data lenient fuel c = (case c of
      Done x n \<Rightarrow> Some (x, n)
    | Assertion \<Rightarrow> None
    | _ \<Rightarrow> (case fuel of 0 \<Rightarrow> None | Suc f \<Rightarrow> run S data lenient f (step S data lenient c)))"

declare run.simps [simp del]

definition initial_marks :: "state \<Rightarrow> data_cb \<Rightarrow> nat option" where
  "initial_marks s = (\<lambda>m. if
       (m = Header_field \<and> s = s_header_field)
       \<or> (m = Header_value \<and> s = s_header_value)
       \<or> (m = Url \<and> s \<in> {s_req_path, s_req_schema, s_req_schema_slash, s_req_schema_slash_slash,
             s_req_server_start, s_req_server, s_req_server_with_at, s_req_query_string_start,
             s_req_query_string, s_req_fragment_start, s_req_fragment})
       \<or> (m = Status \<and> s = s_res_status)
     then Some 0 else None)"

definition execute_eof :: "'w http_parser_settings \<Rightarrow> 'w exec \<Rightarrow> 'w outcome" where
  "execute_eof S x =
     (if p_state x = s_body_identity_eof then
        CALLBACK_NOTIFY_NOADVANCE (on_message_complete S) HPE_CB_message_complete x (\<lambda>y. Return y 0)
      else if p_state x \<in> {s_dead, s_start_req_or_res, s_start_res, s_start_req} then Return x 0
      else Return (SET_ERRNO HPE_INVALID_EOF_STATE x) 1)"

definition exec_fuel :: "char list \<Rightarrow> nat" where
  "exec_fuel data = 8 * length data + 8"

definition start_exec :: "http_parser \<Rightarrow> 'w \<Rightarrow> 'w exec" where
  "start_exec q w = \<lparr>prs = q, p_state = pstate q, pos = 0, cch = NUL,
     marks = initial_marks (pstate q), world = w\<rparr>"

definition http_parser_execute ::
  "'w http_parser_settings \<Rightarrow> http_parser \<Rightarrow> 'w \<Rightarrow> char list \<Rightarrow> (http_parser \<times> 'w \<times> nat) option" where
  "http_parser_execute S q w data =
     (let x = start_exec q w;
          result = (\<lambda>(y, n). (prs y, world y, n))
      in if errno q \<noteq> HPE_OK then Some (q, w, 0)
         else if data = [] then
           (case execute_eof S (x\<lparr>marks := \<lambda>_. None\<rparr>) of Return y n \<Rightarrow> Some (result (y, n)) | _ \<Rightarrow> None)
         else map_option result
           (run S data (lenient_http_headers q) (exec_fuel data) (At_loop x)))"

end
