(* ===== verification/HttpSafety.thy ===== *)
theory HttpSafety
  imports HttpExec
begin

text \<open>
  The invariant of \<open>http_parser_execute\<close> (\<open>src/ServerEngine/http_parser/http_parser.c\<close>) and the proof that
  every case of its switch keeps it.  The locale \<open>benign_settings\<close> is the contract between the
  parser and the callbacks it calls: a callback may do anything to the world it acts on, but of the
  parser it changes the error number only (what \<open>http_parser_pause\<close> does).  Under that contract
  \<open>switch_good\<close> says that one pass through the switch never fails an assertion, keeps its marks
  inside the buffer and leaves a state the next pass accepts; \<open>rank\<close> bounds the jumps to
  \<open>reexecute\<close> that consume no byte.
\<close>

definition benign_cb :: "'w http_cb option \<Rightarrow> bool" where
  "benign_cb cb \<longleftrightarrow> (\<forall>f q w. cb = Some f \<longrightarrow> (\<exists>r e w'. f q w = (r, q\<lparr>errno := e\<rparr>, w')))"

definition benign_data_cb :: "'w http_data_cb option \<Rightarrow> bool" where
  "benign_data_cb cb \<longleftrightarrow> (\<forall>f q s w. cb = Some f \<longrightarrow> (\<exists>r e w'. f q s w = (r, q\<lparr>errno := e\<rparr>, w')))"

locale benign_settings =
  fixes S :: "'w http_parser_settings"
  assumes benign_message_begin: "benign_cb (on_message_begin S)"
    and benign_headers_complete: "benign_cb (on_headers_complete S)"
    and benign_message_complete: "benign_cb (on_message_complete S)"
    and benign_chunk_header: "benign_cb (on_chunk_header S)"
    and benign_chunk_complete: "benign_cb (on_chunk_complete S)"
    and benign_data: "benign_data_cb (the_cb S m)"

section \<open>The invariant\<close>

definition field_state :: "header_states \<Rightarrow> bool" where
  "field_state h \<longleftrightarrow> h \<in> {h_general, h_C, h_CO, h_CON, h_matching_connection,
     h_matching_proxy_connection, h_matching_content_length, h_matching_transfer_encoding,
     h_matching_upgrade, h_connection, h_content_length, h_transfer_encoding, h_upgrade}"

definition value_state :: "header_states \<Rightarrow> bool" where
  "value_state h \<longleftrightarrow> h \<notin> {h_connection, h_transfer_encoding}"

definition body_length_ok :: "http_parser \<Rightarrow> bool" where
  "body_length_ok q \<longleftrightarrow> content_length q \<noteq> 0 \<and> content_length q \<noteq> ULLONG_MAX"

definition chunked :: "http_parser \<Rightarrow> bool" where
  "chunked q \<longleftrightarrow> has_flag q F_CHUNKED"

definition state_ok :: "http_parser \<Rightarrow> state \<Rightarrow> bool" where
  "state_ok q s = (case s of
      s_req_method \<Rightarrow> unat (index q) \<le> length (method_strings (meth q))
    | s_header_field \<Rightarrow> field_state (header_state q)
    | s_header_value \<Rightarrow> value_state (header_state q)
    | s_body_identity \<Rightarrow> body_length_ok q
    | s_chunk_size_start \<Rightarrow> chunked q
    | s_chunk_size \<Rightarrow> chunked q \<and> content_length q \<noteq> ULLONG_MAX
    | s_chunk_parameters \<Rightarrow> chunked q \<and> content_length q \<noteq> ULLONG_MAX
    | s_chunk_size_almost_done \<Rightarrow> chunked q \<and> content_length q \<noteq> ULLONG_MAX
    | s_chunk_data \<Rightarrow> chunked q \<and> body_length_ok q
    | s_chunk_data_almost_done \<Rightarrow> chunked q \<and> content_length q = 0
    | s_chunk_data_done \<Rightarrow> chunked q
    | _ \<Rightarrow> True)"

text \<open>The state in which a mark may be set.\<close>

definition home :: "state \<Rightarrow> data_cb option" where
  "home s = (case s of
      s_header_field \<Rightarrow> Some Header_field
    | s_header_value \<Rightarrow> Some Header_value
    | s_req_schema \<Rightarrow> Some Url | s_req_schema_slash \<Rightarrow> Some Url | s_req_schema_slash_slash \<Rightarrow> Some Url
    | s_req_server_start \<Rightarrow> Some Url | s_req_server \<Rightarrow> Some Url | s_req_server_with_at \<Rightarrow> Some Url
    | s_req_path \<Rightarrow> Some Url | s_req_query_string_start \<Rightarrow> Some Url | s_req_query_string \<Rightarrow> Some Url
    | s_req_fragment_start \<Rightarrow> Some Url | s_req_fragment \<Rightarrow> Some Url
    | s_body_identity \<Rightarrow> Some Body | s_body_identity_eof \<Rightarrow> Some Body | s_chunk_data \<Rightarrow> Some Body
    | s_chunk_data_almost_done \<Rightarrow> Some Body
    | s_res_status \<Rightarrow> Some Status
    | _ \<Rightarrow> None)"

definition marks_ok :: "'w exec \<Rightarrow> bool" where
  "marks_ok x \<longleftrightarrow> (\<forall>m k. marks x m = Some k \<longrightarrow> home (p_state x) = Some m \<and> k \<le> pos x)"

definition nread_ok :: "http_parser \<Rightarrow> bool" where
  "nread_ok q \<longleftrightarrow> unat (nread q) \<le> HTTP_MAX_HEADER_SIZE"

definition fresh :: "u32 \<Rightarrow> state \<Rightarrow> http_parser \<Rightarrow> bool" where
  "fresh n s q \<longleftrightarrow> (s = s_chunk_size_start \<longrightarrow> nread q = n)"

definition loop_ok :: "char list \<Rightarrow> 'w exec \<Rightarrow> bool" where
  "loop_ok data x \<longleftrightarrow> errno (prs x) = HPE_OK \<and> pos x \<le> length data \<and> marks_ok x
     \<and> nread_ok (prs x) \<and> state_ok (prs x) (p_state x) \<and> fresh 0 (p_state x) (prs x)"

definition switch_ok :: "char list \<Rightarrow> 'w exec \<Rightarrow> bool" where
  "switch_ok data x \<longleftrightarrow> errno (prs x) = HPE_OK \<and> pos x < length data \<and> marks_ok x
     \<and> nread_ok (prs x) \<and> state_ok (prs x) (p_state x) \<and> fresh 1 (p_state x) (prs x)"

definition rest_ok :: "http_parser \<Rightarrow> bool" where
  "rest_ok q \<longleftrightarrow> nread_ok q \<and> state_ok q (pstate q) \<and> fresh 0 (pstate q) q"

text \<open>How far a state is from consuming its byte: \<open>Reexecute\<close> goes down.\<close>

definition rank :: "state \<Rightarrow> nat" where
  "rank s = (case s of s_header_value_lws \<Rightarrow> 4 | s_header_value_discard_lws \<Rightarrow> 4
     | s_header_field_start \<Rightarrow> 3 | s_headers_almost_done \<Rightarrow> 2 | s_header_value \<Rightarrow> 2
     | s_start_req_or_res \<Rightarrow> 2 | s_body_identity \<Rightarrow> 2 | _ \<Rightarrow> 1)"

definition good :: "char list \<Rightarrow> 'w exec \<Rightarrow> 'w outcome \<Rightarrow> bool" where
  "good data x r = (case r of
      Break y \<Rightarrow> pos x \<le> pos y \<and> loop_ok data (y\<lparr>pos := pos y + 1\<rparr>)
    | Reexecute y \<Rightarrow> pos x \<le> pos y \<and> switch_ok data y \<and> rank (p_state y) < rank (p_state x)
    | Return y n \<Rightarrow> n \<le> length data \<and> rest_ok (prs y)
        \<and> (errno (prs y) = HPE_OK \<longrightarrow> n = length data \<or> upgrade (prs y))
    | Goto_error y \<Rightarrow> pos y \<le> length data \<and> errno (prs y) \<noteq> HPE_OK \<and> errno (prs y) \<noteq> HPE_PAUSED
    | Assert_failed \<Rightarrow> False)"

lemma good_Break: "good data x (Break y) \<longleftrightarrow> pos x \<le> pos y \<and> loop_ok data (y\<lparr>pos := pos y + 1\<rparr>)"
  and good_Reexecute: "good data x (Reexecute y) \<longleftrightarrow>
    pos x \<le> pos y \<and> switch_ok data y \<and> rank (p_state y) < rank (p_state x)"
  by (simp_all add: good_def)

lemma good_simps [simp]:
  "good data x (Return y n) \<longleftrightarrow> n \<le> length data \<and> rest_ok (prs y)
     \<and> (errno (prs y) = HPE_OK \<longrightarrow> n = length data \<or> upgrade (prs y))"
  "good data x (Goto_error y) \<longleftrightarrow> pos y \<le> length data \<and> errno (prs y) \<noteq> HPE_OK
     \<and> errno (prs y) \<noteq> HPE_PAUSED"
  "\<not> good data x Assert_failed"
  by (simp_all add: good_def)

lemma FAIL_good [simp]: "good data x (FAIL e y) \<longleftrightarrow> pos y \<le> length data \<and> e \<noteq> HPE_OK \<and> e \<noteq> HPE_PAUSED"
  by (simp add: FAIL_def SET_ERRNO_def on_prs_def)

lemmas upd = UPDATE_STATE_def on_prs_def SET_ERRNO_def MARK_def

text \<open>The invariant does not look at \<open>pstate\<close>, \<open>errno\<close> or the flags it does not name.\<close>

lemma state_ok_inert [simp]:
  "state_ok (q\<lparr>pstate := a\<rparr>) s = state_ok q s" "state_ok (q\<lparr>errno := e\<rparr>) s = state_ok q s"
  "state_ok (q\<lparr>upgrade := b\<rparr>) s = state_ok q s" "state_ok (q\<lparr>nread := n\<rparr>) s = state_ok q s"
  by (cases s; simp add: state_ok_def chunked_def has_flag_def body_length_ok_def)+

lemma marks_none: "marks_ok x \<Longrightarrow> home (p_state x) = None \<Longrightarrow> marks x m = None"
  by (cases "marks x m") (auto simp: marks_ok_def)

lemma marks_move:
  "marks_ok x \<Longrightarrow> home (p_state x) = None \<or> home (p_state y) = home (p_state x) \<Longrightarrow>
   marks y = marks x \<Longrightarrow> pos x \<le> pos y \<Longrightarrow> marks_ok y"
  using marks_none [of x] unfolding marks_ok_def by fastforce

lemma break_plain:
  assumes "switch_ok data x" "home (p_state x) = None \<or> home (p_state y) = home (p_state x)"
    and "errno (prs y) = HPE_OK" "pos y = pos x" "marks y = marks x" "nread (prs y) = nread (prs x)"
    and "state_ok (prs y) (p_state y)" "p_state y \<noteq> s_chunk_size_start"
  shows "good data x (Break y)"
proof -
  have x: "marks_ok x" "nread_ok (prs x)" "pos x < length data" using assms(1) by (simp_all add: switch_ok_def)
  have "marks_ok (y\<lparr>pos := pos y + 1\<rparr>)"
    by (rule marks_move [OF x(1)]) (use assms(2) in simp, use assms(5) in simp, use assms(4) in simp)
  moreover have "nread_ok (prs y)" using x(2) assms(6) by (simp add: nread_ok_def)
  ultimately show ?thesis
    using x(3) assms(3,4,7,8) by (simp add: good_Break loop_ok_def fresh_def)
qed

lemma reexecute_plain:
  assumes "switch_ok data x" "home (p_state x) = None \<or> home (p_state y) = home (p_state x)"
    and "errno (prs y) = HPE_OK" "pos y = pos x" "marks y = marks x" "nread (prs y) = nread (prs x)"
    and "state_ok (prs y) (p_state y)" "p_state y \<noteq> s_chunk_size_start" "rank (p_state y) < rank (p_state x)"
  shows "good data x (Reexecute y)"
proof -
  have x: "marks_ok x" "nread_ok (prs x)" "pos x < length data" using assms(1) by (simp_all add: switch_ok_def)
  have "marks_ok y"
    by (rule marks_move [OF x(1)]) (use assms(2) in simp, use assms(5) in simp, use assms(4) in simp)
  moreover have "nread_ok (prs y)" using x(2) assms(6) by (simp add: nread_ok_def)
  ultimately show ?thesis
    using x(3) assms(3,4,7-9) by (simp add: good_Reexecute switch_ok_def fresh_def)
qed

lemma good_stay [simp]: "switch_ok data x \<Longrightarrow> p_state x \<noteq> s_chunk_size_start \<Longrightarrow> good data x (Break x)"
  by (rule break_plain) (simp_all add: switch_ok_def)

lemmas plain = break_plain reexecute_plain

lemma ok_errno: "switch_ok data x \<Longrightarrow> errno (prs x) = HPE_OK" and ok_pos: "switch_ok data x \<Longrightarrow> pos x < length data"
  and ok_pos_le: "switch_ok data x \<Longrightarrow> pos x \<le> length data"
  by (simp_all add: switch_ok_def)

lemma header_flags_simps [simp]:
  "errno (header_flags q) = errno q" "nread (header_flags q) = nread q"
  "content_length (header_flags q) = content_length q" "header_state (header_flags q) = header_state q"
  by (simp_all add: header_flags_def set_flag_def split: header_states.split)

lemma good_if: "(c \<Longrightarrow> good data x a) \<Longrightarrow> (\<not> c \<Longrightarrow> good data x b) \<Longrightarrow> good data x (if c then a else b)"
  by simp

lemma STRICT_good: "(c \<Longrightarrow> pos x \<le> length data) \<Longrightarrow> (\<not> c \<Longrightarrow> good data x0 (k x)) \<Longrightarrow> good data x0 (STRICT_CHECK c x k)"
  by (simp add: STRICT_CHECK_def)

lemmas plain_simps = ok_errno ok_pos ok_pos_le home_def state_ok_def rank_def Suc_le_eq upd

lemma good_s_dead: "switch_ok data x \<Longrightarrow> p_state x = s_dead \<Longrightarrow> good data x (do_s_dead x)"
  by (auto simp: do_s_dead_def Let_def plain_simps more_major_def more_minor_def intro!: plain STRICT_good)

lemma good_s_res_or_resp_H: "switch_ok data x \<Longrightarrow> p_state x = s_res_or_resp_H \<Longrightarrow> good data x (do_s_res_or_resp_H x)"
  by (auto simp: do_s_res_or_resp_H_def Let_def plain_simps more_major_def more_minor_def intro!: plain STRICT_good)

lemma good_s_res_first_http_major: "switch_ok data x \<Longrightarrow> p_state x = s_res_first_http_major \<Longrightarrow> good data x (do_s_res_first_http_major x)"
  by (auto simp: do_s_res_first_http_major_def Let_def plain_simps more_major_def more_minor_def intro!: plain STRICT_good)

lemma good_s_res_http_major: "switch_ok data x \<Longrightarrow> p_state x = s_res_http_major \<Longrightarrow> good data x (do_s_res_http_major x)"
  by (auto simp: do_s_res_http_major_def Let_def plain_simps more_major_def more_minor_def intro!: plain STRICT_good)

lemma good_s_res_first_http_minor: "switch_ok data x \<Longrightarrow> p_state x = s_res_first_http_minor \<Longrightarrow> good data x (do_s_res_first_http_minor x)"
  by (auto simp: do_s_res_first_http_minor_def Let_def plain_simps more_major_def more_minor_def intro!: plain STRICT_good)

lemma good_s_res_http_minor: "switch_ok data x \<Longrightarrow> p_state x = s_res_http_minor \<Longrightarrow> good data x (do_s_res_http_minor x)"
  by (auto simp: do_s_res_http_minor_def Let_def plain_simps more_major_def more_minor_def intro!: plain STRICT_good)

lemma good_s_res_first_status_code: "switch_ok data x \<Longrightarrow> p_state x = s_res_first_status_code \<Longrightarrow> good data x (do_s_res_first_status_code x)"
  by (auto simp: do_s_res_first_status_code_def Let_def plain_simps more_major_def more_minor_def intro!: plain STRICT_good)

lemma good_s_res_status_code: "switch_ok data x \<Longrightarrow> p_state x = s_res_status_code \<Longrightarrow> good data x (do_s_res_status_code x)"
  by (auto simp: do_s_res_status_code_def Let_def plain_simps more_major_def more_minor_def intro!: plain STRICT_good)

lemma good_s_res_line_almost_done: "switch_ok data x \<Longrightarrow> p_state x = s_res_line_almost_done \<Longrightarrow> good data x (do_s_res_line_almost_done x)"
  by (auto simp: do_s_res_line_almost_done_def Let_def plain_simps more_major_def more_minor_def intro!: plain STRICT_good)

lemma good_s_req_http_start: "switch_ok data x \<Longrightarrow> p_state x = s_req_http_start \<Longrightarrow> good data x (do_s_req_http_start x)"
  by (auto simp: do_s_req_http_start_def Let_def plain_simps more_major_def more_minor_def intro!: plain STRICT_good)

lemma good_s_req_first_http_major: "switch_ok data x \<Longrightarrow> p_state x = s_req_first_http_major \<Longrightarrow> good data x (do_s_req_first_http_major x)"
  by (auto simp: do_s_req_first_http_major_def Let_def plain_simps more_major_def more_minor_def intro!: plain STRICT_good)

lemma good_s_req_http_major: "switch_ok data x \<Longrightarrow> p_state x = s_req_http_major \<Longrightarrow> good data x (do_s_req_http_major x)"
  by (auto simp: do_s_req_http_major_def Let_def plain_simps more_major_def more_minor_def intro!: plain STRICT_good)

lemma good_s_req_first_http_minor: "switch_ok data x \<Longrightarrow> p_state x = s_req_first_http_minor \<Longrightarrow> good data x (do_s_req_first_http_minor x)"
  by (auto simp: do_s_req_first_http_minor_def Let_def plain_simps more_major_def more_minor_def intro!: plain STRICT_good)

lemma good_s_req_http_minor: "switch_ok data x \<Longrightarrow> p_state x = s_req_http_minor \<Longrightarrow> good data x (do_s_req_http_minor x)"
  by (auto simp: do_s_req_http_minor_def Let_def plain_simps more_major_def more_minor_def intro!: plain STRICT_good)

lemma good_s_req_line_almost_done: "switch_ok data x \<Longrightarrow> p_state x = s_req_line_almost_done \<Longrightarrow> good data x (do_s_req_line_almost_done x)"
  by (auto simp: do_s_req_line_almost_done_def Let_def plain_simps more_major_def more_minor_def intro!: plain STRICT_good)

lemma good_s_header_almost_done: "switch_ok data x \<Longrightarrow> p_state x = s_header_almost_done \<Longrightarrow> good data x (do_s_header_almost_done x)"
  by (auto simp: do_s_header_almost_done_def Let_def plain_simps more_major_def more_minor_def intro!: plain STRICT_good)

lemma good_s_header_value_discard_ws_almost_done: "switch_ok data x \<Longrightarrow> p_state x = s_header_value_discard_ws_almost_done \<Longrightarrow> good data x (do_s_header_value_discard_ws_almost_done x)"
  by (auto simp: do_s_header_value_discard_ws_almost_done_def Let_def plain_simps more_major_def more_minor_def intro!: plain STRICT_good)

lemma good_s_header_value_lws: "switch_ok data x \<Longrightarrow> p_state x = s_header_value_lws \<Longrightarrow> good data x (do_s_header_value_lws x)"
  by (auto simp: do_s_header_value_lws_def Let_def plain_simps more_major_def more_minor_def intro!: plain STRICT_good)

lemma good_expect:
  assumes "switch_ok data x" "home (p_state x) = None" "state_ok (prs x) s" "s \<noteq> s_chunk_size_start"
  shows "good data x (expect c s x)"
  using assms unfolding expect_def
  by (auto simp: Let_def plain_simps more_major_def more_minor_def intro!: plain STRICT_good)

section \<open>Callbacks\<close>

lemma notify_good:
  assumes cb: "benign_cb cb" and e: "e \<noteq> HPE_OK" and ok: "errno (prs y) = HPE_OK"
    and er: "er \<le> length data" and rest: "rest_ok ((prs y)\<lparr>pstate := p_state y\<rparr>)"
    and k: "\<And>w. good data x (k (y\<lparr>prs := (prs y)\<lparr>pstate := p_state y\<rparr>, world := w\<rparr>))"
    and k0: "good data x (k y)"
  shows "good data x (CALLBACK_NOTIFY_ER cb e er y k)"
proof (cases cb)
  case None
  then show ?thesis using ok k0 by (simp add: CALLBACK_NOTIFY_ER_def)
next
  case (Some f)
  then obtain r e' w' where f: "f ((prs y)\<lparr>pstate := p_state y\<rparr>) (world y) = (r, (prs y)\<lparr>pstate := p_state y, errno := e'\<rparr>, w')"
    using cb unfolding benign_cb_def by fastforce
  let ?q = "(prs y)\<lparr>pstate := p_state y\<rparr>"
  have c: "call_notify f e y = y\<lparr>prs := ?q\<lparr>errno := (if r \<noteq> 0 then e else e')\<rparr>, world := w'\<rparr>"
    by (simp add: call_notify_def f)
  have same: "?q\<lparr>errno := HPE_OK\<rparr> = ?q" using ok by simp
  have kk: "good data x (k (y\<lparr>prs := ?q\<lparr>errno := HPE_OK\<rparr>, world := w'\<rparr>))"
    by (subst same) (rule k)
  have "rest_ok (?q\<lparr>errno := a\<rparr>)" for a
    using rest by (simp add: rest_ok_def nread_ok_def fresh_def)
  then show ?thesis
    using Some ok er e kk by (auto simp: CALLBACK_NOTIFY_ER_def Let_def c)
qed

text \<open>A data callback either returns with an error or goes on with the mark cleared.\<close>

lemma data_step:
  assumes cb: "benign_data_cb (the_cb S m)" and ok: "errno (prs y) = HPE_OK"
    and mk: "\<And>mk. marks y m = Some mk \<Longrightarrow> mk \<le> stop" and stop: "stop \<le> length data"
    and rest: "rest_ok ((prs y)\<lparr>pstate := p_state y\<rparr>)"
  obtains (return) z where "CALLBACK_DATA_ER S data m stop er y k = Return z er"
      "errno (prs z) \<noteq> HPE_OK" "rest_ok (prs z)"
    | (continue) q w where "q = prs y \<or> q = (prs y)\<lparr>pstate := p_state y\<rparr>"
      "CALLBACK_DATA_ER S data m stop er y k = k (y\<lparr>prs := q, world := w, marks := (marks y)(m := None)\<rparr>)"
proof (cases "marks y m")
  case None
  have "y\<lparr>prs := prs y, world := world y, marks := (marks y)(m := None)\<rparr> = y"
    using None by (cases y) auto
  then show ?thesis using ok continue [of "prs y" "world y"] None by (simp add: CALLBACK_DATA_ER_def)
next
  case (Some i)
  note i = this
  show ?thesis
  proof (cases "the_cb S m")
    case None
    then show ?thesis using ok continue [of "prs y" "world y"] i by (simp add: CALLBACK_DATA_ER_def)
  next
    case (Some f)
    let ?q = "(prs y)\<lparr>pstate := p_state y\<rparr>"
    obtain r e' w' where f: "f ?q (take (stop - i) (drop i data)) (world y) = (r, ?q\<lparr>errno := e'\<rparr>, w')"
      using cb Some unfolding benign_data_cb_def by fastforce
    let ?e = "if r \<noteq> 0 then cb_errno m else e'"
    let ?z = "y\<lparr>prs := ?q\<lparr>errno := ?e\<rparr>, world := w'\<rparr>"
    have c: "call_data f (cb_errno m) data i stop y = ?z"
      by (simp add: call_data_def f)
    show ?thesis
    proof (cases "?e = HPE_OK")
      case False
      then show ?thesis
        using i Some ok mk [OF i] stop rest
        by (intro return [of ?z]) (simp_all add: CALLBACK_DATA_ER_def Let_def c rest_ok_def nread_ok_def fresh_def)
    next
      case True
      have same: "?q\<lparr>errno := ?e\<rparr> = ?q" unfolding True using ok by simp
      have "CALLBACK_DATA_ER S data m stop er y k
        = k (y\<lparr>prs := ?q\<lparr>errno := ?e\<rparr>, world := w', marks := (marks y)(m := None)\<rparr>)"
        using i Some ok mk [OF i] stop True by (simp add: CALLBACK_DATA_ER_def Let_def c)
      then have "CALLBACK_DATA_ER S data m stop er y k
        = k (y\<lparr>prs := ?q, world := w', marks := (marks y)(m := None)\<rparr>)"
        unfolding same .
      then show ?thesis by (rule continue [of ?q w', OF disjI2 [OF refl]])
    qed
  qed
qed

lemma data_good:
  assumes cb: "benign_data_cb (the_cb S m)" and ok: "errno (prs y) = HPE_OK"
    and mk: "\<And>mk. marks y m = Some mk \<Longrightarrow> mk \<le> stop" and stop: "stop \<le> length data"
    and er: "er \<le> length data" and rest: "rest_ok ((prs y)\<lparr>pstate := p_state y\<rparr>)"
    and k: "\<And>w q. q = prs y \<or> q = (prs y)\<lparr>pstate := p_state y\<rparr> \<Longrightarrow>
      good data x (k (y\<lparr>prs := q, world := w, marks := (marks y)(m := None)\<rparr>))"
  shows "good data x (CALLBACK_DATA_ER S data m stop er y k)"
  using cb ok mk stop rest by (rule data_step [where er = er and k = k]) (use er k in auto)

lemma break_clear:
  assumes "pos x \<le> pos y" "pos y < length data" "errno (prs y) = HPE_OK"
    and "\<And>m. marks y m = None" "nread_ok (prs y)" "state_ok (prs y) (p_state y)" "fresh 0 (p_state y) (prs y)"
  shows "good data x (Break y)"
  using assms by (simp add: good_Break loop_ok_def marks_ok_def)

lemma reexecute_clear:
  assumes "pos x \<le> pos y" "pos y < length data" "errno (prs y) = HPE_OK"
    and "\<And>m. marks y m = None" "nread_ok (prs y)" "state_ok (prs y) (p_state y)" "fresh 1 (p_state y) (prs y)"
    and "rank (p_state y) < rank (p_state x)"
  shows "good data x (Reexecute y)"
  using assms by (simp add: good_Reexecute switch_ok_def marks_ok_def)

lemmas clear = break_clear reexecute_clear

lemma ok_marks: "switch_ok data x \<Longrightarrow> home (p_state x) = None \<Longrightarrow> marks x m = None"
  by (simp add: switch_ok_def marks_none)

lemma ok_marks_home: "switch_ok data x \<Longrightarrow> home (p_state x) = Some m \<Longrightarrow> m' \<noteq> m \<Longrightarrow> marks x m' = None"
  by (cases "marks x m'") (auto simp: switch_ok_def marks_ok_def)

lemma ok_mark_le: "switch_ok data x \<Longrightarrow> marks x m = Some k \<Longrightarrow> k \<le> pos x"
  by (auto simp: switch_ok_def marks_ok_def)

lemma ok_nread: "switch_ok data x \<Longrightarrow> nread_ok (prs x)"
  by (simp add: switch_ok_def)

lemma nread_ok_inert [simp]:
  "nread_ok (q\<lparr>pstate := a\<rparr>) = nread_ok q" "nread_ok (q\<lparr>errno := e\<rparr>) = nread_ok q"
  "nread_ok (q\<lparr>meth := m\<rparr>) = nread_ok q" "nread_ok (q\<lparr>index := i\<rparr>) = nread_ok q"
  "nread_ok (q\<lparr>http_major := v\<rparr>) = nread_ok q" "nread_ok (q\<lparr>http_minor := v\<rparr>) = nread_ok q"
  "nread_ok (q\<lparr>header_state := h\<rparr>) = nread_ok q" "nread_ok (q\<lparr>content_length := n\<rparr>) = nread_ok q"
  "nread_ok (q\<lparr>flags := f\<rparr>) = nread_ok q" "nread_ok (q\<lparr>nread := 0\<rparr>)" "nread_ok (q\<lparr>upgrade := u\<rparr>) = nread_ok q"
  "nread_ok (header_flags q) = nread_ok q" "nread_ok (set_flag fl q) = nread_ok q"
  by (simp_all add: nread_ok_def set_flag_def)

lemmas cb_simps = CALLBACK_NOTIFY_def CALLBACK_NOTIFY_NOADVANCE_def CALLBACK_DATA_def
  CALLBACK_DATA_NOADVANCE_def rest_ok_def fresh_def

lemma break_mark:
  assumes x: "switch_ok data x" "home (p_state x) = None" and m: "marks y = (marks x)(m := Some (pos x))"
    and y: "home (p_state y) = Some m" "errno (prs y) = HPE_OK" "pos y = pos x" "nread (prs y) = nread (prs x)"
      "state_ok (prs y) (p_state y)" "p_state y \<noteq> s_chunk_size_start"
  shows "good data x (Break y)"
proof -
  have "marks_ok (y\<lparr>pos := pos y + 1\<rparr>)"
    using y(1,3) m ok_marks [OF x] by (simp add: marks_ok_def)
  moreover have "nread_ok (prs y)" using ok_nread [OF x(1)] y(4) by (simp add: nread_ok_def)
  ultimately show ?thesis
    using y ok_pos [OF x(1)] by (simp add: good_Break loop_ok_def fresh_def)
qed

lemma break_keep:
  assumes "switch_ok data x" "home (p_state y) = home (p_state x)" "marks y = marks x"
    and "pos x \<le> pos y" "pos y < length data" "errno (prs y) = HPE_OK" "nread_ok (prs y)"
    and "state_ok (prs y) (p_state y)" "fresh 0 (p_state y) (prs y)"
  shows "good data x (Break y)"
proof -
  have "marks_ok (y\<lparr>pos := pos y + 1\<rparr>)"
    by (rule marks_move [of x]) (use assms in \<open>simp_all add: switch_ok_def\<close>)
  then show ?thesis using assms by (simp add: good_Break loop_ok_def)
qed

lemma COUNT_good:
  assumes "pos y \<le> length data"
    and "\<And>n. unat n \<le> HTTP_MAX_HEADER_SIZE \<Longrightarrow> good data x (k (y\<lparr>prs := (prs y)\<lparr>nread := n\<rparr>\<rparr>))"
  shows "good data x (COUNT_HEADER_SIZE v y k)"
  using assms by (simp add: COUNT_HEADER_SIZE_def Let_def on_prs_def)

lemma method_length: "3 \<le> length (method_strings m) \<and> length (method_strings m) \<le> 11"
  by (cases m) simp_all

lemma method_table_length:
  "map_of method_table (m, i, c) = Some m' \<Longrightarrow> i < length (method_strings m')"
  by (simp add: method_table_def split: if_splits)

lemma index_next: "unat (i :: 7 word) < 100 \<Longrightarrow> unat (i + 1) = unat i + 1"
  by (simp add: unat_word_ariths)

lemma url_states:
  "parse_url_char s c \<in> {s_dead, s_req_schema, s_req_schema_slash, s_req_schema_slash_slash,
     s_req_server_start, s_req_server, s_req_server_with_at, s_req_path, s_req_query_string_start,
     s_req_query_string, s_req_fragment_start, s_req_fragment}"
  by (cases s) (simp_all add: parse_url_char_def url_alpha_start_def url_server_def)

lemma url_home:
  "parse_url_char s c \<noteq> s_dead \<Longrightarrow> home (parse_url_char s c) = Some Url
     \<and> state_ok q (parse_url_char s c) \<and> parse_url_char s c \<noteq> s_chunk_size_start"
  using url_states [of s c] by (auto simp: home_def state_ok_def)

lemma good_s_res_status_start:
  "switch_ok data x \<Longrightarrow> p_state x = s_res_status_start \<Longrightarrow> good data x (do_s_res_status_start x)"
  by (auto simp: do_s_res_status_start_def plain_simps ok_marks intro!: good_if intro: plain break_mark)

lemma good_s_req_method:
  assumes ok: "switch_ok data x" and s: "p_state x = s_req_method"
  shows "good data x (do_s_req_method x)"
proof -
  let ?q = "prs x" and ?i = "unat (index (prs x))"
  have i: "?i \<le> length (method_strings (meth ?q))" using ok s by (simp add: switch_ok_def state_ok_def)
  have "?i < 100" using i method_length [of "meth ?q"] by simp
  note nx = index_next [OF this]
  have adv: "good data x (Break (x\<lparr>prs := ?q\<lparr>meth := m, index := index ?q + 1\<rparr>\<rparr>))"
    if "?i < length (method_strings m)" for m
    using that ok s nx by (intro break_plain) (simp_all add: plain_simps)
  have same: "?q\<lparr>index := index ?q + 1\<rparr> = ?q\<lparr>meth := meth ?q, index := index ?q + 1\<rparr>" by simp
  obtain c where c: "c_char_at (method_strings (meth ?q)) ?i = Some c"
    and cn: "c \<noteq> NUL \<Longrightarrow> ?i < length (method_strings (meth ?q))"
    using i by (auto simp: c_char_at_def le_less)
  have "good data x (Break (x\<lparr>p_state := s_req_spaces_before_url, prs := ?q\<lparr>index := index ?q + 1\<rparr>\<rparr>))"
    using ok s by (intro break_plain) (simp_all add: plain_simps)
  then show ?thesis
    using ok s cn adv [of "meth ?q"] adv method_table_length [of "meth ?q" ?i "cch x"] method_length [of HTTP_MSEARCH]
    unfolding do_s_req_method_def Let_def c
    by (auto simp: upd ok_pos_le split: option.split)
qed

lemma good_url_step:
  assumes ok: "switch_ok data x" and y: "prs y = prs x" "pos y = pos x"
    and m: "home (p_state x) = None \<and> marks y = (marks x)(Url := Some (pos x))
       \<or> home (p_state x) = Some Url \<and> marks y = marks x"
  shows "good data x (url_step y)"
proof (cases "parse_url_char (p_state y) (cch y) = s_dead")
  case True
  then show ?thesis using ok y by (simp add: url_step_def upd ok_pos_le)
next
  case False
  note h = url_home [OF this, of "prs x"]
  have "good data x (Break (UPDATE_STATE (parse_url_char (p_state y) (cch y)) y))"
    using m
  proof
    assume "home (p_state x) = None \<and> marks y = (marks x)(Url := Some (pos x))"
    then show ?thesis using ok y h by (intro break_mark [where m = Url]) (simp_all add: upd ok_errno)
  next
    assume "home (p_state x) = Some Url \<and> marks y = marks x"
    then show ?thesis using ok y h by (intro break_plain) (simp_all add: upd ok_errno)
  qed
  then show ?thesis using False by (simp add: url_step_def Let_def upd)
qed

lemma good_s_req_spaces_before_url:
  "switch_ok data x \<Longrightarrow> p_state x = s_req_spaces_before_url \<Longrightarrow> good data x (do_s_req_spaces_before_url x)"
  by (auto simp: do_s_req_spaces_before_url_def Let_def upd ok_marks home_def intro!: good_url_step)

lemma good_s_req_schema:
  "switch_ok data x \<Longrightarrow> home (p_state x) = Some Url \<Longrightarrow> good data x (do_s_req_schema x)"
  by (auto simp: do_s_req_schema_def ok_pos_le intro!: good_url_step)

lemma good_s_header_field_start:
  "switch_ok data x \<Longrightarrow> p_state x = s_header_field_start \<Longrightarrow> good data x (do_s_header_field_start x)"
  by (auto simp: do_s_header_field_start_def Let_def plain_simps ok_marks field_state_def
      intro!: good_if intro: plain break_mark [where m = Header_field])

section \<open>The loops over a header\<close>

text \<open>What the header loops leave alone.\<close>

definition same_message :: "http_parser \<Rightarrow> http_parser \<Rightarrow> bool" where
  "same_message q q' \<longleftrightarrow> errno q' = errno q \<and> nread q' = nread q"

lemma header_field_char_ok:
  assumes "field_state (header_state q)"
  shows "\<exists>q'. header_field_char c ch q = Some q' \<and> field_state (header_state q') \<and> same_message q q'"
  using assms
  by (cases "header_state q")
    (simp_all add: field_state_def header_field_char_def header_field_match_def match_token_def
      same_message_def Let_def)

lemma header_field_loop_ok:
  "field_state (header_state q) \<Longrightarrow>
   \<exists>q' p' ch'. header_field_loop ds p ch q = Some (q', p', ch') \<and> field_state (header_state q')
     \<and> same_message q q' \<and> p \<le> p' \<and> p' \<le> p + length ds"
proof (induction ds arbitrary: p ch q)
  case Nil
  then show ?case by (simp add: same_message_def)
next
  case (Cons d ds)
  show ?case
  proof (cases "TOKEN d = NUL")
    case True
    with Cons.prems show ?thesis by (simp add: same_message_def)
  next
    case False
    obtain q1 where q1: "header_field_char (TOKEN d) d q = Some q1" "field_state (header_state q1)" "same_message q q1"
      using header_field_char_ok [OF Cons.prems] by blast
    from Cons.IH [OF q1(2), of "p + 1" d] show ?thesis
      using q1 False by (auto simp: same_message_def)
  qed
qed

lemma header_value_char_ok:
  assumes "value_state h"
  shows "case header_value_char h ch q of None \<Rightarrow> False | Some (Inl e) \<Rightarrow> e \<noteq> HPE_OK \<and> e \<noteq> HPE_PAUSED
    | Some (Inr (h', q')) \<Rightarrow> value_state h' \<and> same_message q q'"
  using assms
  by (cases h)
    (auto simp: value_state_def header_value_char_def value_match_def match_token_def same_message_def
      Let_def content_length_digit_def token_start_def connection_done_char_def connection_flag_def
      set_flag_def split: if_splits)

lemma memchr_less: "memchr c xs = Some i \<Longrightarrow> i < length xs"
  by (induction xs arbitrary: i) (auto split: if_splits)

lemma general_skip_le: "p < length data \<Longrightarrow> general_skip data p \<le> length data"
  by (auto simp: general_skip_def Let_def dest!: memchr_less split: option.split)

definition value_exit_ok :: "char list \<Rightarrow> nat \<Rightarrow> http_parser \<Rightarrow> value_exit \<Rightarrow> bool" where
  "value_exit_ok data p0 q0 r = (case r of
      Value_end h q p ch \<Rightarrow> p = length data \<and> value_state h \<and> same_message q0 q
    | Value_cr h q p \<Rightarrow> p0 \<le> p \<and> p < length data \<and> value_state h \<and> same_message q0 q
    | Value_lf h q p \<Rightarrow> p0 \<le> p \<and> p < length data \<and> value_state h \<and> same_message q0 q
    | Value_fail e q p ch \<Rightarrow> p < length data \<and> e \<noteq> HPE_OK \<and> e \<noteq> HPE_PAUSED
    | Value_assert \<Rightarrow> False)"

lemma value_exit_ok_mono:
  "value_exit_ok data p1 q1 r \<Longrightarrow> p0 \<le> p1 \<Longrightarrow> same_message q0 q1 \<Longrightarrow> value_exit_ok data p0 q0 r"
  by (auto simp: value_exit_ok_def same_message_def split: value_exit.splits)

lemma header_value_loop_ok:
  "value_state h \<Longrightarrow> p \<le> length data \<Longrightarrow> value_exit_ok data p q (header_value_loop lenient data p ch h q)"
proof (induction lenient data p ch h q rule: header_value_loop.induct)
  case (1 lenient data p ch0 h q)
  show ?case
  proof (cases "length data \<le> p")
    case True
    with 1 show ?thesis by (subst header_value_loop.simps) (simp add: value_exit_ok_def same_message_def)
  next
    case False
    let ?ch = "data ! p"
    show ?thesis
    proof (cases "?ch = CR \<or> ?ch = LF \<or> \<not> lenient \<and> \<not> IS_HEADER_CHAR ?ch")
      case True
      then show ?thesis using 1(3) False
        by (subst header_value_loop.simps) (auto simp: value_exit_ok_def same_message_def Let_def)
    next
      case ch: False
      show ?thesis
      proof (cases "h = h_general")
        case True
        have le: "general_skip data p \<le> length data" "p \<le> general_skip data p"
          using False ch general_skip_le [of p data] general_skip_greater [of p data] by auto
        have "value_exit_ok data (general_skip data p) q (header_value_loop lenient data (general_skip data p) ?ch h q)"
          using 1(1) [OF False refl] ch True 1(3) le by simp
        then have "value_exit_ok data p q (header_value_loop lenient data (general_skip data p) ?ch h q)"
          by (rule value_exit_ok_mono) (use le in \<open>simp_all add: same_message_def\<close>)
        then show ?thesis using False ch True by (subst header_value_loop.simps) (auto simp: Let_def)
      next
        case hg: False
        show ?thesis
        proof (cases "header_value_char h ?ch q")
          case None
          then show ?thesis using header_value_char_ok [OF 1(3), where ch = ?ch and q = q] by simp
        next
          case (Some r)
          note r = this
          show ?thesis
          proof (cases r)
            case (Inl e)
            then show ?thesis using False ch hg r header_value_char_ok [OF 1(3), where ch = ?ch and q = q]
              by (subst header_value_loop.simps) (auto simp: value_exit_ok_def Let_def)
          next
            case (Inr hq)
            obtain h' q' where hq: "hq = (h', q')" by (cases hq)
            then have ok: "value_state h'" "same_message q q'"
              using header_value_char_ok [OF 1(3), where ch = ?ch and q = q] r Inr by simp_all
            have "value_exit_ok data (p + 1) q' (header_value_loop lenient data (p + 1) ?ch h' q')"
              using 1(2) [OF False refl] ch hg r Inr hq ok False by simp
            then have "value_exit_ok data p q (header_value_loop lenient data (p + 1) ?ch h' q')"
              by (rule value_exit_ok_mono) (use ok in simp_all)
            then show ?thesis using False ch hg r Inr hq by (subst header_value_loop.simps) (auto simp: Let_def)
          qed
        qed
      qed
    qed
  qed
qed

lemma word_small: "0 \<le> i \<Longrightarrow> i < 2 ^ 64 \<Longrightarrow> unat (of_int i :: u64) = nat i"
proof -
  assume i: "0 \<le> i" "i < 2 ^ 64"
  then have "(of_int i :: u64) = of_nat (nat i)" by simp
  moreover have "nat i < 2 ^ 64" using i by simp
  ultimately show ?thesis by (simp only: unat_of_nat) simp
qed

lemma unat_ULLONG_MAX: "unat ULLONG_MAX = 2 ^ 64 - 1"
  by (simp add: ULLONG_MAX_def unsigned_minus_1_eq_mask mask_eq_exp_minus_1)

section \<open>The header states\<close>

lemma good_value_start:
  assumes ok: "switch_ok data x" and s: "home (p_state x) = None"
  shows "good data x (do_s_header_value_start x)"
proof -
  have b: "good data x (Break (x\<lparr>marks := (marks x)(Header_value := Some (pos x)), p_state := s_header_value, prs := q\<rparr>))"
    if "value_state (header_state q)" "errno q = HPE_OK" "nread q = nread (prs x)" for q
    by (rule break_mark [where m = Header_value, OF ok s]) (use that in \<open>simp_all add: home_def state_ok_def\<close>)
  have m: "marks x Header_value = None" using ok s by (rule ok_marks)
  show ?thesis
    unfolding do_s_header_value_start_def Let_def value_start_content_length_def
    using b ok m
    by (auto simp: upd ok_errno ok_pos_le value_state_def set_flag_def split: header_states.split)
qed

lemma good_s_header_value_discard_ws:
  "switch_ok data x \<Longrightarrow> p_state x = s_header_value_discard_ws \<Longrightarrow> good data x (do_s_header_value_discard_ws x)"
  by (auto simp: do_s_header_value_discard_ws_def plain_simps intro!: good_if good_value_start intro: plain)

definition config_ok :: "char list \<Rightarrow> 'w config \<Rightarrow> bool" where
  "config_ok data c = (case c of
      At_loop x \<Rightarrow> loop_ok data x
    | At_switch x \<Rightarrow> switch_ok data x
    | Done x n \<Rightarrow> n \<le> length data
        \<and> (errno (prs x) = HPE_OK \<or> errno (prs x) = HPE_PAUSED \<longrightarrow> rest_ok (prs x))
        \<and> (errno (prs x) = HPE_OK \<longrightarrow> n = length data \<or> upgrade (prs x))
    | Assertion \<Rightarrow> False)"

definition config_measure :: "char list \<Rightarrow> 'w config \<Rightarrow> nat" where
  "config_measure data c = (case c of
      At_loop x \<Rightarrow> 6 * (length data - pos x) + 1
    | At_switch x \<Rightarrow> 6 * (length data - pos x) - 5 + rank (p_state x)
    | _ \<Rightarrow> 0)"

lemma rank_nonzero [simp]: "rank s \<noteq> 0"
  by (cases s; simp add: rank_def)

lemma rank_pos: "0 < rank s" and rank_le: "rank s \<le> 4"
  by (cases s; simp add: rank_def)+

context benign_settings
begin

lemmas benign = benign_message_begin benign_headers_complete benign_message_complete
  benign_chunk_header benign_chunk_complete benign_data [of Header_field, simplified]
  benign_data [of Header_value, simplified] benign_data [of Url, simplified]
  benign_data [of Body, simplified] benign_data [of Status, simplified]

lemma good_s_start_req_or_res:
  "switch_ok data x \<Longrightarrow> p_state x = s_start_req_or_res \<Longrightarrow> good data x (do_s_start_req_or_res S x)"
  by (auto simp: do_s_start_req_or_res_def reset_message_def Let_def plain_simps cb_simps ok_nread ok_marks benign
      intro!: notify_good good_if plain)

lemma good_s_start_res:
  "switch_ok data x \<Longrightarrow> p_state x = s_start_res \<Longrightarrow> good data x (do_s_start_res S x)"
  by (auto simp: do_s_start_res_def reset_message_def Let_def plain_simps cb_simps ok_nread ok_marks benign
      intro!: notify_good good_if plain)

lemma good_s_res_status:
  "switch_ok data x \<Longrightarrow> p_state x = s_res_status \<Longrightarrow> good data x (do_s_res_status S data x)"
  by (auto simp: do_s_res_status_def plain_simps cb_simps ok_nread ok_marks_home benign
      dest: ok_mark_le intro!: data_good clear good_if intro: break_plain)
lemma good_s_start_req:
  "switch_ok data x \<Longrightarrow> p_state x = s_start_req \<Longrightarrow> good data x (do_s_start_req S x)"
proof -
  assume ok: "switch_ok data x" and s: "p_state x = s_start_req"
  have len: "Suc 0 \<le> length (method_strings m)" for m using method_length [of m] by simp
  show ?thesis
    using ok s len
    by (auto simp: do_s_start_req_def reset_message_def Let_def plain_simps cb_simps ok_nread benign
        split: option.split intro!: notify_good good_if plain)
qed

lemma good_s_req_url:
  assumes "switch_ok data x" "home (p_state x) = Some Url" "p_state x \<noteq> s_chunk_size_start"
  shows "good data x (do_s_req_url S data x)"
  using assms
  by (auto simp: do_s_req_url_def upd ok_errno ok_pos ok_pos_le Suc_le_eq state_ok_def cb_simps ok_nread
      ok_marks_home benign dest: ok_mark_le intro!: good_if data_good clear good_url_step)

lemma good_header_field_end:
  assumes ok: "switch_ok data x" and s: "p_state x = s_header_field"
    and y: "errno (prs y) = HPE_OK" "pos x \<le> pos y" "pos y \<le> length data" "marks y = marks x"
      "p_state y = s_header_field" "nread_ok (prs y)" "state_ok (prs y) s_header_field"
  shows "good data x (header_field_end S data y)"
proof -
  have h: "home (p_state x) = Some Header_field" by (simp add: s home_def)
  have "good data x (Break (y\<lparr>pos := pos y - 1\<rparr>))" if "pos y = length data"
    using that y s ok_pos [OF ok] by (intro break_keep [OF ok]) (simp_all add: fresh_def)
  moreover have "good data x (CALLBACK_DATA S data Header_field (UPDATE_STATE s_header_value_discard_ws y) Break)"
    if "pos y \<noteq> length data"
    using that y ok_marks_home [OF ok h] ok_mark_le [OF ok, of Header_field]
    by (auto simp: cb_simps upd state_ok_def benign Suc_le_eq intro!: data_good break_clear
        dest: le_trans [OF _ y(2)])
  ultimately show ?thesis using y by (auto simp: header_field_end_def)
qed

lemma good_s_header_field:
  assumes ok: "switch_ok data x" and s: "p_state x = s_header_field"
  shows "good data x (do_s_header_field S data x)"
proof -
  obtain q p ch where l: "header_field_loop (drop (pos x) data) (pos x) (cch x) (prs x) = Some (q, p, ch)"
    and q: "field_state (header_state q)" "same_message (prs x) q" and p: "pos x \<le> p" "p \<le> length data"
    using header_field_loop_ok [of "prs x" "drop (pos x) data" "pos x" "cch x"] ok s ok_pos [OF ok]
    by (auto simp: switch_ok_def state_ok_def)
  have e: "errno q = HPE_OK" using q(2) ok_errno [OF ok] by (simp add: same_message_def)
  show ?thesis
    unfolding do_s_header_field_def l option.case prod.case
    by (rule COUNT_good, use p in simp, rule good_header_field_end [OF ok s])
      (use p e q(1) s in \<open>simp_all add: nread_ok_def state_ok_def\<close>)
qed

lemma good_header_value_end:
  assumes ok: "switch_ok data x" and s: "p_state x = s_header_value"
    and y: "errno (prs y) = HPE_OK" "pos x \<le> pos y" "pos y \<le> length data" "value_state h"
      "marks y = marks x \<and> p_state y = s_header_value
        \<or> (\<forall>m. marks y m = None) \<and> p_state y = s_header_almost_done"
  shows "good data x (header_value_end data p0 h y)"
  unfolding header_value_end_def
proof (rule COUNT_good)
  show "pos (on_prs (\<lambda>q. q\<lparr>header_state := h\<rparr>) y) \<le> length data" using y by (simp add: upd)
  fix n :: u32 assume n: "unat n \<le> HTTP_MAX_HEADER_SIZE"
  let ?z = "on_prs (\<lambda>q. q\<lparr>header_state := h\<rparr>) y\<lparr>prs := prs (on_prs (\<lambda>q. q\<lparr>header_state := h\<rparr>) y)\<lparr>nread := n\<rparr>\<rparr>"
  let ?w = "if pos ?z = length data then ?z\<lparr>pos := pos ?z - 1\<rparr> else ?z"
  have w: "errno (prs ?w) = HPE_OK" "nread_ok (prs ?w)" "pos x \<le> pos ?w" "pos ?w < length data"
    "marks ?w = marks y" "p_state ?w = p_state y" "state_ok (prs ?w) (p_state y)"
    using y n ok_pos [OF ok] by (auto simp: upd nread_ok_def state_ok_def)
  have "home s_header_value = Some Header_value" by (simp add: home_def)
  then show "good data x (Break ?w)"
    using y(5)
  proof (elim disjE conjE)
    assume "marks y = marks x" "p_state y = s_header_value"
    then show ?thesis using w s by (intro break_keep [OF ok]) (simp_all add: fresh_def)
  next
    assume "\<forall>m. marks y m = None" "p_state y = s_header_almost_done"
    then show ?thesis using w by (intro break_clear) (simp_all add: fresh_def)
  qed
qed

lemma good_s_header_value:
  assumes ok: "switch_ok data x" and s: "p_state x = s_header_value"
  shows "good data x (do_s_header_value S data lenient x)"
proof -
  have h: "home (p_state x) = Some Header_value" by (simp add: s home_def)
  have v: "value_exit_ok data (pos x) (prs x)
      (header_value_loop lenient data (pos x) (cch x) (header_state (prs x)) (prs x))"
    using ok s by (intro header_value_loop_ok) (simp_all add: switch_ok_def state_ok_def)
  have e: "errno q = HPE_OK \<and> nread_ok q" if "same_message (prs x) q" for q
    using that ok by (simp add: same_message_def switch_ok_def nread_ok_def)
  have rk: "rank s_header_almost_done < rank (p_state x)" by (simp add: s rank_def)
  note cleared = ok_marks_home [OF ok h] and mk = ok_mark_le [OF ok, of Header_value]
  show ?thesis
  proof (cases "header_value_loop lenient data (pos x) (cch x) (header_state (prs x)) (prs x)")
    case (Value_end h' q p ch)
    then show ?thesis using v e ok_pos [OF ok] s unfolding do_s_header_value_def
      by (auto simp: value_exit_ok_def intro!: good_header_value_end [OF ok s])
  next
    case (Value_cr h' q p)
    have cl: "(if m = Header_value then None else marks x m) = None" for m using cleared by simp
    show ?thesis using Value_cr v e [of q] mk unfolding do_s_header_value_def
      by (auto simp: value_exit_ok_def cb_simps upd state_ok_def benign Suc_le_eq cl
          intro!: data_good good_header_value_end [OF ok s] dest: le_trans)
  next
    case (Value_lf h' q p)
    then show ?thesis using v e [of q] cleared mk rk unfolding do_s_header_value_def
      by (auto simp: value_exit_ok_def cb_simps upd state_ok_def benign nread_ok_def
          intro!: COUNT_good data_good reexecute_clear dest: le_trans)
  next
    case (Value_fail e q p ch)
    then show ?thesis using v by (simp add: do_s_header_value_def value_exit_ok_def)
  next
    case Value_assert
    then show ?thesis using v by (simp add: value_exit_ok_def)
  qed
qed

lemma good_s_header_value_discard_lws:
  assumes ok: "switch_ok data x" and s: "p_state x = s_header_value_discard_lws"
  shows "good data x (do_s_header_value_discard_lws S data x)"
proof -
  have h: "home (p_state x) = None" by (simp add: s home_def)
  show ?thesis
    unfolding do_s_header_value_discard_lws_def
    using ok s ok_marks [OF ok h]
    by (auto simp: plain_simps cb_simps ok_nread benign intro!: good_if data_good plain reexecute_clear)
qed

lemma good_s_headers_almost_done:
  assumes ok: "switch_ok data x" and s: "p_state x = s_headers_almost_done"
  shows "good data x (do_s_headers_almost_done S x)"
proof -
  have h: "home (p_state x) = None" by (simp add: s home_def)
  note m = ok_marks [OF ok h]
  define k :: "'w exec \<Rightarrow> 'w outcome"
    where "k = (\<lambda>y. if errno (prs y) \<noteq> HPE_OK then RETURN (pos y) y else Reexecute y)"
  have k: "good data x (k y)"
    if "pos y = pos x" "p_state y = s_headers_done" "nread_ok (prs y)" "\<And>m. marks y m = None" for y
    using that ok_pos [OF ok] s
    by (auto simp: k_def RETURN_def upd rest_ok_def state_ok_def fresh_def rank_def intro!: reexecute_clear)
  have hc: "good data x (headers_complete S y k)"
    if y: "pos y = pos x" "p_state y = s_headers_done" "nread_ok (prs y)" "\<And>m. marks y m = None" for y
  proof (cases "on_headers_complete S")
    case None
    then show ?thesis using k [OF y] by (simp add: headers_complete_def)
  next
    case (Some f)
    obtain r e w where f: "f (prs y) (world y) = (r, (prs y)\<lparr>errno := e\<rparr>, w)"
      using benign_headers_complete Some unfolding benign_cb_def by blast
    show ?thesis
      unfolding headers_complete_def Some option.case f Let_def prod.case
      using y ok_pos [OF ok]
      by (auto simp: upd RETURN_def rest_ok_def state_ok_def fresh_def intro!: k)
  qed
  show ?thesis
    unfolding do_s_headers_almost_done_def k_def [symmetric]
    using ok s m
    by (auto simp: plain_simps cb_simps ok_nread benign
        intro!: STRICT_good good_if notify_good hc reexecute_clear)
qed

lemma new_message_state: "NEW_MESSAGE q \<in> {s_start_req, s_start_res, s_dead}"
  by (simp add: NEW_MESSAGE_def start_state_def)

lemma message_complete_good:
  assumes y: "errno (prs y) = HPE_OK" "nread_ok (prs y)" "pos y < length data"
    and k: "\<And>z. errno (prs z) = HPE_OK \<Longrightarrow> nread_ok (prs z) \<Longrightarrow> upgrade (prs z) = upgrade (prs y) \<Longrightarrow>
      pos z = pos y \<Longrightarrow> marks z = marks y \<Longrightarrow> p_state z = NEW_MESSAGE (prs y) \<Longrightarrow> good data x (k z)"
  shows "good data x (message_complete S y k)"
proof -
  have n: "state_ok q (NEW_MESSAGE (prs y))" "fresh v (NEW_MESSAGE (prs y)) q" for q v
    using new_message_state [of "prs y"] by (auto simp: state_ok_def fresh_def)
  show ?thesis
    unfolding message_complete_def CALLBACK_NOTIFY_def
    by (rule notify_good [OF benign_message_complete])
      (use y n in \<open>simp_all add: new_message_def upd rest_ok_def k\<close>)
qed

lemma break_new_message:
  assumes "pos y = pos x" "pos x < length data" "errno (prs y) = HPE_OK" "nread_ok (prs y)" "\<And>m. marks y m = None"
    and "p_state y = NEW_MESSAGE q"
  shows "good data x (Break y)"
  using assms new_message_state [of q] by (intro break_clear) (auto simp: state_ok_def fresh_def)

lemma good_s_headers_done:
  assumes ok: "switch_ok data x" and s: "p_state x = s_headers_done"
  shows "good data x (do_s_headers_done S x)"
proof -
  have h: "home (p_state x) = None" by (simp add: s home_def)
  note m = ok_marks [OF ok h]
  let ?y = "on_prs (\<lambda>q. q\<lparr>nread := 0\<rparr>) x"
  have y: "errno (prs ?y) = HPE_OK" "nread_ok (prs ?y)" "pos ?y = pos x" "pos ?y < length data"
    "marks ?y = marks x" "nread (prs ?y) = 0"
    using ok by (simp_all add: upd ok_errno ok_pos)
  have mc: "good data x (message_complete S ?y Break)"
    by (rule message_complete_good) (use y m in \<open>auto intro: break_new_message\<close>)
  have mr: "good data x (message_complete S ?y (\<lambda>y. RETURN (pos y + 1) y))" if "upgrade (prs ?y)"
    by (rule message_complete_good)
      (use y that new_message_state [of "prs ?y"] in
        \<open>auto simp: RETURN_def on_prs_def rest_ok_def state_ok_def fresh_def\<close>)
  have b: "good data x (Break (UPDATE_STATE st ?y))"
    if "state_ok (prs ?y) st" for st
    using that y m by (intro break_clear) (simp_all add: UPDATE_STATE_def fresh_def)
  show ?thesis
    unfolding do_s_headers_done_def Let_def
    by (intro STRICT_good good_if mc mr b)
      (use ok_pos_le [OF ok] in \<open>auto simp: state_ok_def chunked_def body_length_ok_def\<close>)
qed

lemma good_s_message_done:
  assumes ok: "switch_ok data x" and s: "p_state x = s_message_done"
  shows "good data x (do_s_message_done S x)"
proof -
  have h: "home (p_state x) = None" by (simp add: s home_def)
  note m = ok_marks [OF ok h]
  show ?thesis
    unfolding do_s_message_done_def
    by (rule message_complete_good)
      (use ok_errno [OF ok] ok_nread [OF ok] ok_pos [OF ok] m new_message_state [of "prs x"] in
        \<open>auto simp: RETURN_def on_prs_def rest_ok_def state_ok_def fresh_def intro!: break_new_message\<close>)
qed

text \<open>Reading a stretch of the body.\<close>

lemma body_advance_ok:
  assumes ok: "switch_ok data x" and n: "content_length (prs x) \<noteq> 0" and h: "home (p_state x) = Some Body"
  defines "y \<equiv> body_advance data x"
  shows "pos x \<le> pos y" "pos y < length data" "errno (prs y) = HPE_OK" "nread_ok (prs y)"
    "p_state y = p_state x" "\<And>m. m \<noteq> Body \<Longrightarrow> marks y m = None" "\<And>k. marks y Body = Some k \<Longrightarrow> k \<le> pos x"
    "content_length (prs y) \<noteq> ULLONG_MAX \<or> content_length (prs x) = ULLONG_MAX"
    "flags (prs y) = flags (prs x)"
proof -
  let ?n = "body_to_read data x"
  have n1: "0 < ?n" "?n \<le> length data - pos x" "?n \<le> unat (content_length (prs x))"
    using n ok_pos [OF ok] by (auto simp: body_to_read_def unat_gt_0)
  show "pos x \<le> pos y" "pos y < length data" "errno (prs y) = HPE_OK" "nread_ok (prs y)"
    "p_state y = p_state x" "flags (prs y) = flags (prs x)"
    using n1 ok_pos [OF ok] ok_errno [OF ok] ok_nread [OF ok]
    by (auto simp: y_def body_advance_def Let_def upd)
  show "marks y m = None" if "m \<noteq> Body" for m
    using ok_marks_home [OF ok h that] that by (auto simp: y_def body_advance_def Let_def upd)
  show "k \<le> pos x" if "marks y Body = Some k" for k
    using that ok_mark_le [OF ok, of Body] by (auto simp: y_def body_advance_def Let_def upd split: if_splits)
  have "unat (of_nat ?n :: u64) = ?n"
  proof -
    have "unat (content_length (prs x)) < 2 ^ LENGTH(64)" by (rule unsigned_less)
    then show ?thesis using n1(3) by (simp add: unat_of_nat)
  qed
  then have "unat (content_length (prs x) - of_nat ?n) = unat (content_length (prs x)) - ?n"
    using n1(3) by (subst unat_sub) (simp_all add: word_le_nat_alt)
  then have "unat (content_length (prs y)) < unat (content_length (prs x))"
    using n1(1,3) by (simp add: y_def body_advance_def Let_def upd)
  moreover have "unat (content_length (prs x)) < 2 ^ LENGTH(64)" by (rule unsigned_less)
  ultimately have "unat (content_length (prs y)) < unat ULLONG_MAX" by (simp add: unat_ULLONG_MAX)
  then show "content_length (prs y) \<noteq> ULLONG_MAX \<or> content_length (prs x) = ULLONG_MAX" by auto
qed

lemma break_body:
  assumes "pos x \<le> pos y" "pos y < length data" "errno (prs y) = HPE_OK" "nread_ok (prs y)"
    and "\<And>m. m \<noteq> Body \<Longrightarrow> marks y m = None" "\<And>k. marks y Body = Some k \<Longrightarrow> k \<le> pos y"
    and "home (p_state y) = Some Body" "state_ok (prs y) (p_state y)"
  shows "good data x (Break y)"
proof -
  have "marks_ok (y\<lparr>pos := pos y + 1\<rparr>)"
    unfolding marks_ok_def
  proof (intro allI impI)
    fix m k assume "marks (y\<lparr>pos := pos y + 1\<rparr>) m = Some k"
    then show "home (p_state (y\<lparr>pos := pos y + 1\<rparr>)) = Some m \<and> k \<le> pos (y\<lparr>pos := pos y + 1\<rparr>)"
      using assms(5) [of m] assms(6) [of k] assms(7) by (cases "m = Body") auto
  qed
  moreover have "p_state y \<noteq> s_chunk_size_start" using assms(7) by (auto simp: home_def)
  ultimately show ?thesis using assms by (simp add: good_Break loop_ok_def fresh_def)
qed

lemma good_s_body_identity:
  assumes ok: "switch_ok data x" and s: "p_state x = s_body_identity"
  shows "good data x (do_s_body_identity S data x)"
proof -
  have h: "home (p_state x) = Some Body" by (simp add: s home_def)
  have n: "content_length (prs x) \<noteq> 0" "content_length (prs x) \<noteq> ULLONG_MAX"
    using ok s by (auto simp: switch_ok_def state_ok_def body_length_ok_def)
  note y = body_advance_ok [OF ok n(1) h]
  let ?y = "body_advance data x"
  have "good data x (CALLBACK_DATA_ER S data Body (pos ?y + 1) (pos ?y) (UPDATE_STATE s_message_done ?y) Reexecute)"
    by (rule data_good)
      (use y s in \<open>auto simp: UPDATE_STATE_def benign rest_ok_def state_ok_def fresh_def rank_def
         dest: le_trans [OF _ y(1)] intro!: reexecute_clear\<close>)
  moreover have "good data x (Break ?y)" if "content_length (prs ?y) \<noteq> 0"
    by (rule break_body)
      (use y s n that h in \<open>auto simp: state_ok_def body_length_ok_def dest: le_trans [OF _ y(1)]\<close>)
  ultimately show ?thesis using n by (simp add: do_s_body_identity_def Let_def)
qed

lemma good_s_body_identity_eof:
  assumes ok: "switch_ok data x" and s: "p_state x = s_body_identity_eof"
  shows "good data x (do_s_body_identity_eof data x)"
proof -
  have h: "home (p_state x) = Some Body" by (simp add: s home_def)
  show ?thesis
    unfolding do_s_body_identity_eof_def
    by (rule break_body)
      (use ok_pos [OF ok] ok_errno [OF ok] ok_nread [OF ok] ok_marks_home [OF ok h] ok_mark_le [OF ok] s h in
        \<open>auto simp: upd state_ok_def split: if_splits\<close>, fastforce+)
qed

lemma unhex_not_max: "unhex c \<noteq> - 1 \<Longrightarrow> (of_int (unhex c) :: u64) \<noteq> ULLONG_MAX"
proof
  assume "unhex c \<noteq> - 1" and m: "(of_int (unhex c) :: u64) = ULLONG_MAX"
  then have u: "0 \<le> unhex c" "unhex c < 16" using unhex_bounds [of c] by auto
  then have "unat (of_int (unhex c) :: u64) = nat (unhex c)" by (intro word_small) simp_all
  then show False using u m by (simp add: unat_ULLONG_MAX)
qed

lemma chunk_digit_not_max:
  assumes "\<not> (ULLONG_MAX - 16) div 16 < n" "unhex c \<noteq> - 1"
  shows "n * 16 + of_int (unhex c) \<noteq> ULLONG_MAX"
proof
  assume m: "n * 16 + of_int (unhex c) = ULLONG_MAX"
  have u: "0 \<le> unhex c" "unhex c < 16" using unhex_bounds [of c] assms(2) by auto
  have "unat ((ULLONG_MAX - 16) div 16) = 2 ^ 60 - 2"
    by (simp add: ULLONG_MAX_def)
  then have n: "unat n \<le> 2 ^ 60 - 2" using assms(1) by (simp add: not_less word_le_nat_alt)
  have "unat (of_int (unhex c) :: u64) = nat (unhex c)" using u by (intro word_small) simp_all
  then have "unat (n * 16 + of_int (unhex c)) = unat n * 16 + nat (unhex c)"
    using n u by (simp add: unat_word_ariths)
  also have "\<dots> < 2 ^ 64 - 1" using n u by simp
  finally show False using m by (simp add: unat_ULLONG_MAX)
qed

lemma good_assert_chunked: "chunked (prs x) \<Longrightarrow> good data x r \<Longrightarrow> good data x (assert_chunked x r)"
  by (simp add: assert_chunked_def chunked_def)

lemma chunked_inert [simp]:
  "chunked (q\<lparr>pstate := a\<rparr>) = chunked q" "chunked (q\<lparr>content_length := n\<rparr>) = chunked q"
  "chunked (q\<lparr>nread := m\<rparr>) = chunked q"
  by (simp_all add: chunked_def has_flag_def)

lemma ok_state: "switch_ok data x \<Longrightarrow> state_ok (prs x) (p_state x)"
  by (simp add: switch_ok_def)

lemma good_s_chunk_size_start:
  assumes ok: "switch_ok data x" and s: "p_state x = s_chunk_size_start"
  shows "good data x (do_s_chunk_size_start x)"
proof -
  have c: "chunked (prs x)" "nread (prs x) = 1"
    using ok s by (simp_all add: switch_ok_def state_ok_def fresh_def)
  have "good data x (Break (UPDATE_STATE s_chunk_size (on_prs (\<lambda>q. q\<lparr>content_length := of_int (unhex (cch x))\<rparr>) x)))"
    if "unhex (cch x) \<noteq> - 1"
    by (rule break_plain [OF ok])
      (use s c unhex_not_max [OF that] ok_errno [OF ok] in \<open>simp_all add: home_def upd state_ok_def\<close>)
  then show ?thesis
    unfolding do_s_chunk_size_start_def using c ok_pos_le [OF ok] by (auto intro!: good_assert_chunked)
qed

lemma good_s_chunk_size:
  assumes ok: "switch_ok data x" and s: "p_state x = s_chunk_size"
  shows "good data x (do_s_chunk_size x)"
proof -
  have c: "chunked (prs x)" "content_length (prs x) \<noteq> ULLONG_MAX"
    using ok_state [OF ok] s by (simp_all add: state_ok_def)
  have b: "good data x (Break y)"
    if "prs y = (prs x)\<lparr>content_length := n\<rparr> \<or> prs y = prs x" "n \<noteq> ULLONG_MAX" "pos y = pos x" "marks y = marks x"
      "p_state y \<in> {s_chunk_size, s_chunk_size_almost_done, s_chunk_parameters}" for n y
    by (rule break_plain [OF ok])
      (use s c that ok_errno [OF ok] in \<open>auto simp: home_def state_ok_def\<close>)
  show ?thesis
    unfolding do_s_chunk_size_def
    using c ok_pos_le [OF ok] chunk_digit_not_max [of "content_length (prs x)" "cch x"] s
    by (auto simp: upd intro!: good_assert_chunked good_if intro: b)
qed

lemma good_s_chunk_parameters:
  assumes ok: "switch_ok data x" and s: "p_state x = s_chunk_parameters"
  shows "good data x (do_s_chunk_parameters x)"
proof -
  have c: "chunked (prs x)" "content_length (prs x) \<noteq> ULLONG_MAX"
    using ok_state [OF ok] s by (simp_all add: state_ok_def)
  have "good data x (Break (UPDATE_STATE s_chunk_size_almost_done x))"
    by (rule break_plain [OF ok]) (use s c ok_errno [OF ok] in \<open>simp_all add: home_def upd state_ok_def\<close>)
  then show ?thesis
    unfolding do_s_chunk_parameters_def using c ok s by (auto intro!: good_assert_chunked)
qed

lemma good_s_chunk_size_almost_done:
  assumes ok: "switch_ok data x" and s: "p_state x = s_chunk_size_almost_done"
  shows "good data x (do_s_chunk_size_almost_done S x)"
proof -
  have h: "home (p_state x) = None" by (simp add: s home_def)
  have c: "chunked (prs x)" "content_length (prs x) \<noteq> ULLONG_MAX"
    using ok_state [OF ok] s by (simp_all add: state_ok_def)
  show ?thesis
    unfolding do_s_chunk_size_almost_done_def Let_def CALLBACK_NOTIFY_def
    by (intro good_assert_chunked STRICT_good notify_good [OF benign_chunk_header] break_clear)
      (use c ok_pos [OF ok] ok_errno [OF ok] ok_nread [OF ok] ok_marks [OF ok h] in
        \<open>auto simp: upd rest_ok_def state_ok_def fresh_def body_length_ok_def set_flag_def\<close>)
qed

lemma good_s_chunk_data:
  assumes ok: "switch_ok data x" and s: "p_state x = s_chunk_data"
  shows "good data x (do_s_chunk_data data x)"
proof -
  have h: "home (p_state x) = Some Body" by (simp add: s home_def)
  have c: "chunked (prs x)" and n: "content_length (prs x) \<noteq> 0" "content_length (prs x) \<noteq> ULLONG_MAX"
    using ok_state [OF ok] s by (simp_all add: state_ok_def body_length_ok_def)
  note y = body_advance_ok [OF ok n(1) h]
  let ?y = "body_advance data x"
  have c': "chunked (prs ?y)" using c y(9) by (simp add: chunked_def has_flag_def)
  let ?z = "if content_length (prs ?y) = 0 then UPDATE_STATE s_chunk_data_almost_done ?y else ?y"
  have z: "prs ?z = prs ?y" "pos ?z = pos ?y" "marks ?z = marks ?y"
    "p_state ?z = (if content_length (prs ?y) = 0 then s_chunk_data_almost_done else s_chunk_data)"
    using y(5) s by (simp_all add: upd)
  have "good data x (Break ?z)"
    by (rule break_body)
      (use z y c' n in \<open>auto simp: state_ok_def body_length_ok_def home_def dest: le_trans [OF _ y(1)]\<close>)
  then show ?thesis
    unfolding do_s_chunk_data_def Let_def using c n by (simp add: assert_chunked_def chunked_def)
qed

lemma good_s_chunk_data_almost_done:
  assumes ok: "switch_ok data x" and s: "p_state x = s_chunk_data_almost_done"
  shows "good data x (do_s_chunk_data_almost_done S data x)"
proof -
  have h: "home (p_state x) = Some Body" by (simp add: s home_def)
  have c: "chunked (prs x)" "content_length (prs x) = 0"
    using ok_state [OF ok] s by (simp_all add: state_ok_def)
  have "good data x (CALLBACK_DATA S data Body (UPDATE_STATE s_chunk_data_done x) Break)"
    unfolding CALLBACK_DATA_def
    by (rule data_good)
      (use c ok_pos [OF ok] ok_errno [OF ok] ok_nread [OF ok] ok_marks_home [OF ok h] ok_mark_le [OF ok] in
        \<open>auto simp: upd benign rest_ok_def state_ok_def fresh_def intro!: break_clear\<close>)
  then show ?thesis
    unfolding do_s_chunk_data_almost_done_def
    using c ok_pos_le [OF ok] by (auto intro!: good_assert_chunked STRICT_good)
qed

lemma good_s_chunk_data_done:
  assumes ok: "switch_ok data x" and s: "p_state x = s_chunk_data_done"
  shows "good data x (do_s_chunk_data_done S x)"
proof -
  have h: "home (p_state x) = None" by (simp add: s home_def)
  have c: "chunked (prs x)" using ok_state [OF ok] s by (simp add: state_ok_def)
  show ?thesis
    unfolding do_s_chunk_data_done_def CALLBACK_NOTIFY_def
    by (intro good_assert_chunked STRICT_good notify_good [OF benign_chunk_complete] break_clear)
      (use c ok_pos [OF ok] ok_errno [OF ok] ok_marks [OF ok h] in
        \<open>auto simp: upd rest_ok_def state_ok_def fresh_def\<close>)
qed

section \<open>The whole switch\<close>

lemmas good_states =
  good_s_dead good_s_start_req_or_res good_s_res_or_resp_H good_s_start_res good_s_res_first_http_major
  good_s_res_http_major good_s_res_first_http_minor good_s_res_http_minor good_s_res_first_status_code
  good_s_res_status_code good_s_res_status_start good_s_res_status good_s_res_line_almost_done
  good_s_start_req good_s_req_method good_s_req_spaces_before_url good_s_req_http_start
  good_s_req_first_http_major good_s_req_http_major good_s_req_first_http_minor good_s_req_http_minor
  good_s_req_line_almost_done good_s_header_field_start good_s_header_field
  good_s_header_value_discard_ws good_s_header_value_discard_ws_almost_done
  good_s_header_value_discard_lws good_s_header_value good_s_header_value_lws good_s_header_almost_done
  good_s_chunk_size_start good_s_chunk_size good_s_chunk_parameters good_s_chunk_size_almost_done
  good_s_headers_almost_done good_s_headers_done good_s_chunk_data good_s_chunk_data_almost_done
  good_s_chunk_data_done good_s_body_identity good_s_body_identity_eof good_s_message_done

lemma switch_good: "switch_ok data x \<Longrightarrow> good data x (switch_state S data lenient x)"
  unfolding switch_state_def
  by (cases "p_state x"; simp only: state.case)
    (simp_all add: good_states good_s_req_schema good_s_req_url good_value_start good_expect home_def state_ok_def)

end

end
