(* ===== verification/HttpRun.thy ===== *)
theory HttpRun
  imports HttpSafety
begin

text \<open>
  Steps and runs of \<open>http_parser_execute\<close>, and its life: under the contract \<open>benign_settings\<close>
  every step keeps the invariant and decreases \<open>config_measure\<close>, so a run ends within its fuel and
  never fails an assertion; \<open>reachable\<close> closes that under initialising, executing and pausing.
\<close>

context benign_settings
begin


text \<open>The callbacks behind the loop.\<close>

definition exit_ok :: "char list \<Rightarrow> 'w exec \<Rightarrow> bool" where
  "exit_ok data y \<longleftrightarrow> errno (prs y) = HPE_OK \<and> pos y = length data
     \<and> (\<forall>m k. marks y m = Some k \<longrightarrow> k \<le> length data) \<and> rest_ok ((prs y)\<lparr>pstate := p_state y\<rparr>)"

definition exit_return :: "char list \<Rightarrow> 'w outcome \<Rightarrow> bool" where
  "exit_return data r \<longleftrightarrow> (\<exists>y. r = Return y (length data) \<and> rest_ok (prs y))"

lemma exit_callback:
  assumes "exit_ok data y" and "\<And>z. exit_ok data z \<Longrightarrow> exit_return data (k z)"
  shows "exit_return data (CALLBACK_DATA_NOADVANCE S data m y k)"
  unfolding CALLBACK_DATA_NOADVANCE_def
proof (rule data_step [where S = S and m = m and y = y and stop = "pos y" and data = data])
  fix q w assume q: "q = prs y \<or> q = (prs y)\<lparr>pstate := p_state y\<rparr>"
    and e: "CALLBACK_DATA_ER S data m (pos y) (pos y) y k
      = k (y\<lparr>prs := q, world := w, marks := (marks y)(m := None)\<rparr>)"
  have "exit_ok data (y\<lparr>prs := q, world := w, marks := (marks y)(m := None)\<rparr>)"
    using assms(1) q by (auto simp: exit_ok_def rest_ok_def)
  then show "exit_return data (CALLBACK_DATA_ER S data m (pos y) (pos y) y k)"
    unfolding e by (rule assms(2))
next
  fix z assume "CALLBACK_DATA_ER S data m (pos y) (pos y) y k = Return z (pos y)" "rest_ok (prs z)"
  then show "exit_return data (CALLBACK_DATA_ER S data m (pos y) (pos y) y k)"
    using assms(1) by (simp add: exit_ok_def exit_return_def)
qed (use assms(1) benign_data in \<open>auto simp: exit_ok_def\<close>)

lemma marks_one: "marks_ok x \<Longrightarrow> mark_count x \<le> 1"
proof (cases "home (p_state x)")
  case (Some m)
  assume ok: "marks_ok x"
  have "marks x m' = None" if "m' \<noteq> m" for m'
    using ok Some that by (cases "marks x m'") (auto simp: marks_ok_def)
  then show ?thesis by (cases m) (simp_all add: mark_count_def)
qed (auto simp: mark_count_def marks_none)

lemma loop_exit_good:
  assumes x: "loop_ok data x" "pos x = length data"
  shows "exit_return data (loop_exit S data x)"
proof -
  have "exit_ok data x"
    using x by (auto simp: exit_ok_def loop_ok_def marks_ok_def rest_ok_def fresh_def)
  moreover have "exit_return data (RETURN (length data) z)" if "exit_ok data z" for z :: "'w exec"
    using that by (simp add: exit_return_def exit_ok_def RETURN_def on_prs_def)
  moreover have "\<not> 1 < mark_count x" using x marks_one [of x] by (simp add: loop_ok_def not_less)
  ultimately show ?thesis
    unfolding loop_exit_def by (simp add: exit_callback del: One_nat_def)
qed

lemma measure_Done: "config_measure data (Done x n) = 0"
  by (simp add: config_measure_def)

lemma measure_At_loop: "0 < config_measure data (At_loop x)"
  by (simp add: config_measure_def)

lemma step_ok:
  assumes "config_ok data c" and "\<forall>x n. c \<noteq> Done x n"
  shows "config_ok data (step S data lenient c)
    \<and> config_measure data (step S data lenient c) < config_measure data c"
proof (cases c)
  case (At_switch x)
  then have ok: "switch_ok data x" using assms by (simp add: config_ok_def)
  note r = rank_pos [of "p_state x"] ok_pos [OF ok]
  show ?thesis
  proof (cases "switch_state S data lenient x")
    case (Break y)
    then have "pos x \<le> pos y" "loop_ok data (y\<lparr>pos := pos y + 1\<rparr>)"
      using switch_good [OF ok, of lenient] by (simp_all add: good_Break)
    then show ?thesis
      using At_switch Break r by (simp add: step_def next_config_def config_ok_def config_measure_def)
  next
    case (Reexecute y)
    then show ?thesis
      using At_switch r switch_good [OF ok, of lenient]
      by (simp add: good_Reexecute step_def next_config_def config_ok_def config_measure_def) linarith
  next
    case (Return y n)
    then show ?thesis
      using At_switch r switch_good [OF ok, of lenient]
      by (simp add: step_def next_config_def config_ok_def config_measure_def)
  next
    case (Goto_error y)
    then show ?thesis
      using At_switch r switch_good [OF ok, of lenient]
      by (simp add: step_def next_config_def config_ok_def config_measure_def error_exit_def RETURN_def upd)
  next
    case Assert_failed
    then show ?thesis using switch_good [OF ok, of lenient] by simp
  qed
next
  case (At_loop x)
  then have ok: "loop_ok data x" using assms by (simp add: config_ok_def)
  show ?thesis
  proof (cases "pos x = length data")
    case True
    with loop_exit_good [OF ok] show ?thesis
      using At_loop
      by (auto simp: exit_return_def step_def loop_head_def next_config_def config_ok_def config_measure_def)
  next
    case False
    let ?y = "x\<lparr>cch := data ! pos x\<rparr>"
    let ?z = "on_prs (\<lambda>q. q\<lparr>nread := nread q + 1\<rparr>) ?y"
    have p: "pos x < length data" using ok False by (simp add: loop_ok_def)
    have y: "switch_ok data ?y" if "\<not> PARSING_HEADER (p_state x)"
      using that ok p by (auto simp: loop_ok_def switch_ok_def marks_ok_def fresh_def PARSING_HEADER_code)
    have z: "switch_ok data ?z" if "unat (nread (prs ?z)) \<le> HTTP_MAX_HEADER_SIZE"
      using that ok p by (auto simp: loop_ok_def switch_ok_def marks_ok_def fresh_def upd nread_ok_def)
    have m: "config_measure data (At_switch y') < config_measure data c" if "pos y' = pos x" for y'
      using At_loop p that rank_le [of "p_state y'"] by (simp add: config_measure_def)
    show ?thesis
      using At_loop False p y z m [of ?y] m [of ?z]
      by (auto simp: step_def loop_head_def Let_def COUNT_HEADER_SIZE_def FAIL_def next_config_def config_ok_def
          error_exit_def RETURN_def upd measure_Done measure_At_loop)
  qed
next
  case (Done x n)
  then show ?thesis using assms(2) by simp
next
  case Assertion
  then show ?thesis using assms(1) by (simp add: config_ok_def)
qed

lemma run_ok:
  "config_ok data c \<Longrightarrow> config_measure data c \<le> fuel \<Longrightarrow>
   \<exists>x n. run S data lenient fuel c = Some (x, n) \<and> config_ok data (Done x n)"
proof (induction fuel arbitrary: c)
  case (0 c)
  then obtain x n where "c = Done x n"
    using rank_pos by (cases c) (auto simp: config_measure_def config_ok_def)
  with 0 show ?case by (subst run.simps) simp
next
  case (Suc fuel c)
  show ?case
  proof (cases "\<exists>x n. c = Done x n")
    case True
    with Suc show ?thesis by (subst run.simps) auto
  next
    case False
    with step_ok [OF Suc.prems(1), of lenient] Suc.prems(2)
    have "\<exists>x n. run S data lenient fuel (step S data lenient c) = Some (x, n) \<and> config_ok data (Done x n)"
      by (intro Suc.IH) auto
    moreover have "run S data lenient (Suc fuel) c = run S data lenient fuel (step S data lenient c)"
      using False Suc.prems(1) by (subst run.simps) (cases c; simp add: config_ok_def)
    ultimately show ?thesis by simp
  qed
qed

lemma execute_ok:
  assumes "errno q = HPE_OK" "rest_ok q"
  shows "\<exists>q' w' n. http_parser_execute S q w data = Some (q', w', n)
    \<and> n \<le> max 1 (length data) \<and> (errno q' = HPE_OK \<or> errno q' = HPE_PAUSED \<longrightarrow> rest_ok q')
    \<and> (errno q' = HPE_OK \<longrightarrow> n = length data \<or> upgrade q')"
proof (cases "data = []")
  case True
  let ?x = "start_exec q w\<lparr>marks := \<lambda>_. None\<rparr>"
  have "\<exists>y n. execute_eof S ?x = Return y n \<and> n \<le> 1
    \<and> (errno (prs y) = HPE_OK \<or> errno (prs y) = HPE_PAUSED \<longrightarrow> rest_ok (prs y) \<and> n = 0)"
  proof (cases "pstate q = s_body_identity_eof \<and> on_message_complete S \<noteq> None")
    case True
    then obtain f where f: "on_message_complete S = Some f" by auto
    then obtain r e w' where "f (q\<lparr>pstate := s_body_identity_eof\<rparr>) w
        = (r, q\<lparr>pstate := s_body_identity_eof, errno := e\<rparr>, w')"
      using benign_message_complete unfolding benign_cb_def by fastforce
    then show ?thesis
      using assms True f
      by (auto simp: execute_eof_def start_exec_def CALLBACK_NOTIFY_NOADVANCE_def CALLBACK_NOTIFY_ER_def
          call_notify_def Let_def rest_ok_def state_ok_def fresh_def)
  next
    case False
    then show ?thesis
      using assms
      by (auto simp: execute_eof_def start_exec_def CALLBACK_NOTIFY_NOADVANCE_def CALLBACK_NOTIFY_ER_def upd)
  qed
  then show ?thesis using True assms(1) by (auto simp: http_parser_execute_def Let_def)
next
  case False
  have "marks_ok (start_exec q w)"
    by (auto simp: marks_ok_def start_exec_def initial_marks_def home_def split: if_splits)
  then have "config_ok data (At_loop (start_exec q w))"
    using assms by (simp add: config_ok_def loop_ok_def start_exec_def rest_ok_def)
  moreover have "config_measure data (At_loop (start_exec q w)) \<le> exec_fuel data"
    by (simp add: config_measure_def exec_fuel_def)
  ultimately obtain x n where
    "run S data (lenient_http_headers q) (exec_fuel data) (At_loop (start_exec q w)) = Some (x, n)"
    "config_ok data (Done x n)"
    using run_ok by blast
  then show ?thesis
    using False assms(1) by (auto simp: http_parser_execute_def Let_def config_ok_def)
qed

end

section \<open>Properties\<close>

text \<open>
  What a parser object must satisfy between calls: nothing after an error, otherwise the invariant
  of its state.
\<close>

definition parser_ok :: "http_parser \<Rightarrow> bool" where
  "parser_ok q \<longleftrightarrow> (errno q = HPE_OK \<or> errno q = HPE_PAUSED \<longrightarrow> rest_ok q)"

lemma execute_safe:
  assumes "benign_settings S" and "parser_ok q"
  shows "\<exists>q' w' n. http_parser_execute S q w data = Some (q', w', n)
    \<and> n \<le> max 1 (length data) \<and> parser_ok q'
    \<and> (errno q' = HPE_OK \<longrightarrow> n = length data \<or> upgrade q')"
proof (cases "errno q = HPE_OK")
  case True
  with benign_settings.execute_ok [OF assms(1) True, of w data] assms(2) show ?thesis
    by (simp add: parser_ok_def)
next
  case False
  with assms(2) show ?thesis by (simp add: http_parser_execute_def)
qed

lemma parser_ok_init: "parser_ok (http_parser_init q t)"
  by (cases t) (simp_all add: parser_ok_def http_parser_init_def rest_ok_def nread_ok_def
      state_ok_def fresh_def start_state_def)

lemma rest_ok_errno: "rest_ok (q\<lparr>errno := e\<rparr>) = rest_ok q"
  by (simp add: rest_ok_def nread_ok_def fresh_def)

lemma parser_ok_pause: "parser_ok q \<Longrightarrow> http_parser_pause q b = Some q' \<Longrightarrow> parser_ok q'"
  by (simp add: parser_ok_def http_parser_pause_def rest_ok_errno split: if_splits)
     (auto simp: rest_ok_errno)

text \<open>
  The life of a parser object as its client sees it: initialised, then fed bytes, paused and
  resumed in any order; between calls the client may act on its own world.
\<close>

inductive reachable :: "'w http_parser_settings \<Rightarrow> http_parser \<Rightarrow> 'w \<Rightarrow> bool" for S where
  initialised: "reachable S (http_parser_init q t) w"
| executed: "reachable S q w \<Longrightarrow> http_parser_execute S q w data = Some (q', w', n) \<Longrightarrow> reachable S q' w'"
| paused: "reachable S q w \<Longrightarrow> http_parser_pause q b = Some q' \<Longrightarrow> reachable S q' w"
| client: "reachable S q w \<Longrightarrow> reachable S q w'"

lemma reachable_ok: "reachable S q w \<Longrightarrow> benign_settings S \<Longrightarrow> parser_ok q"
proof (induction rule: reachable.induct)
  case (executed q w data q' w' n)
  with execute_safe [of S q w data] show ?case by auto
qed (auto simp: parser_ok_init dest: parser_ok_pause)

text \<open>
  C4: safety and termination of the parser over its whole life.  With callbacks that touch nothing
  of the parser but its error number, after any sequence of executes and pauses on any bytes, a
  further \<open>http_parser_execute\<close> returns within its fuel and fails no assertion; it reports at
  most the bytes it was given (one at end of input), and when it reports no error it has consumed
  everything unless it stopped for an upgrade.
\<close>

theorem http_parser_execute_safe:
  assumes "benign_settings S" and "reachable S q w"
  shows "\<exists>q' w' n. http_parser_execute S q w data = Some (q', w', n)
    \<and> n \<le> max 1 (length data) \<and> (errno q' = HPE_OK \<longrightarrow> n = length data \<or> upgrade q')"
  using execute_safe [OF assms(1) reachable_ok [OF assms(2,1)]] by blast

text \<open>The settings \<open>http_parser_settings_init\<close> leaves, with no callback at all, meet the contract.\<close>

interpretation no_callbacks: benign_settings http_parser_settings_init
proof
  show "benign_data_cb (the_cb http_parser_settings_init m)" for m
    by (cases m) (simp_all add: http_parser_settings_init_def benign_data_cb_def)
qed (simp_all add: http_parser_settings_init_def benign_cb_def)

definition zeroed_parser :: http_parser where
  "zeroed_parser = \<lparr>ptype = HTTP_REQUEST, flags = 0, pstate = s_dead, header_state = h_general,
     index = 0, lenient_http_headers = False, nread = 0, content_length = 0, http_major = 0,
     http_minor = 0, status_code = 0, meth = HTTP_DELETE, errno = HPE_OK, upgrade = False, user_data = 0\<rparr>"

theorem http_parser_execute_safe_witness:
  "\<exists>q' w' n. http_parser_execute http_parser_settings_init (http_parser_init zeroed_parser HTTP_REQUEST) ()
      ''GET / HTTP/1.1'' = Some (q', w', n)
    \<and> n \<le> max 1 (length ''GET / HTTP/1.1'') \<and> (errno q' = HPE_OK \<longrightarrow> n = length ''GET / HTTP/1.1'' \<or> upgrade q')"
  by (rule http_parser_execute_safe [OF no_callbacks.benign_settings_axioms reachable.initialised])

end
