(* ===== verification/HttpParameter.thy ===== *)
theory HttpParameter
  imports Prelude "HOL-Library.Char_ord" "HOL-Library.List_Lexorder"
begin

text \<open>
  Request parameters: \<open>SpliteString\<close> and the number conversions of \<open>src/Common/CommonFunc.cpp\<close>, and
  \<open>HttpParameter\<close> of \<open>src/ServerEngine/baseinet/HttpParameter.cpp\<close>, a sorted map of strings that is parsed
  from and printed as \<open>key=value&\<close>.  \<open>None\<close> is an access outside a vector, or a number conversion
  whose value does not fit, which C leaves undefined.
\<close>

section \<open>\<open>CommonFunc\<close>\<close>

text \<open>\<open>std::search\<close>: the position of the first occurrence, the end of the string when there is none.\<close>

fun search :: "char list \<Rightarrow> char list \<Rightarrow> nat" where
  "search d [] = 0"
| "search d (c # s) = (if take (length d) (c # s) = d then 0 else Suc (search d s))"

lemma search_le: "search d s \<le> length s"
  by (induction s) simp_all

function split_loop :: "char list \<Rightarrow> char list \<Rightarrow> char list list" where
  "split_loop d s =
     (if d = [] then []
      else let i = search d s; temp = (if take i s = [] then [] else [take i s])
        in if length s \<le> i then temp else temp @ split_loop d (drop (i + length d) s))"
  by pat_completeness auto
termination
  by (relation "measure (length \<circ> snd)") (auto simp: neq_Nil_conv)

declare split_loop.simps [simp del]

definition SpliteString :: "char list \<Rightarrow> char list \<Rightarrow> char list list" where
  "SpliteString strSrc strDelim = (if strDelim = [] then [strSrc] else split_loop strDelim strSrc)"

definition StringToInt :: "char list \<Rightarrow> u32 option" where
  "StringToInt s = atoi s"

definition StringToInt64 :: "char list \<Rightarrow> u64 option" where
  "StringToInt64 s = atoi64 s"

definition IntToString :: "u32 \<Rightarrow> char list" where
  "IntToString v = (if sint v < 0 then CHR ''-'' # dec_digits (nat (- sint v)) else dec_digits (nat (sint v)))"

section \<open>\<open>HttpParameter\<close>\<close>

type_synonym param_map = "(char list \<times> char list) list"

text \<open>\<open>std::map\<close> as the list of its pairs in order; \<open>insert\<close> keeps an existing pair.\<close>

fun map_insert :: "char list \<Rightarrow> char list \<Rightarrow> param_map \<Rightarrow> param_map" where
  "map_insert k v [] = [(k, v)]"
| "map_insert k v ((k', v') # m) =
     (if k < k' then (k, v) # (k', v') # m
      else if k = k' then (k', v') # m
      else (k', v') # map_insert k v m)"

text \<open>One field between ampersands; the iterator test looks behind the first element of the vector.\<close>

definition parse_field :: "char list \<Rightarrow> param_map \<Rightarrow> param_map option" where
  "parse_field f m = (case SpliteString f ''='' of
      [] \<Rightarrow> None
    | [k] \<Rightarrow> Some m
    | k # v # r \<Rightarrow> Some (map_insert k v m))"

fun parse_fields :: "char list list \<Rightarrow> param_map \<Rightarrow> param_map option" where
  "parse_fields [] m = Some m"
| "parse_fields (f # fs) m = do { m' \<leftarrow> parse_field f m; parse_fields fs m' }"

definition ParseStringToMap :: "char list \<Rightarrow> param_map \<Rightarrow> (bool \<times> param_map) option" where
  "ParseStringToMap strParam m =
     (if strParam = [] then Some (False, m)
      else map_option (Pair True) (parse_fields (SpliteString strParam ''&'') m))"

definition GetResultString :: "param_map \<Rightarrow> char list" where
  "GetResultString m = concat (map (\<lambda>(k, v). k @ ''='' @ v @ ''&'') m)"

definition HasKey :: "char list \<Rightarrow> param_map \<Rightarrow> bool" where
  "HasKey k m = (map_of m k \<noteq> None)"

definition GetStrValue :: "char list \<Rightarrow> param_map \<Rightarrow> char list" where
  "GetStrValue k m = (case map_of m k of None \<Rightarrow> [] | Some v \<Rightarrow> v)"

definition GetIntValue :: "char list \<Rightarrow> param_map \<Rightarrow> u32 option" where
  "GetIntValue k m = (case map_of m k of None \<Rightarrow> Some 0 | Some v \<Rightarrow> StringToInt (c_str v))"

definition GetLongValue :: "char list \<Rightarrow> param_map \<Rightarrow> u64 option" where
  "GetLongValue k m = (case map_of m k of None \<Rightarrow> Some 0 | Some v \<Rightarrow> StringToInt64 (c_str v))"

definition SetKeyValue_int :: "char list \<Rightarrow> u32 \<Rightarrow> param_map \<Rightarrow> bool \<times> param_map" where
  "SetKeyValue_int k i m = (True, map_insert k (IntToString i) m)"

definition SetKeyValue_str :: "char list \<Rightarrow> char list \<Rightarrow> param_map \<Rightarrow> bool \<times> param_map" where
  "SetKeyValue_str k v m = (True, map_insert k v m)"

text \<open>The 64-bit value is converted to the 32-bit argument of \<open>IntToString\<close>.\<close>

definition SetKeyValue_long :: "char list \<Rightarrow> u64 \<Rightarrow> param_map \<Rightarrow> bool \<times> param_map" where
  "SetKeyValue_long k i m = (True, map_insert k (IntToString (ucast i)) m)"

section \<open>Splitting at one character\<close>

text \<open>The fields between the delimiters, empty ones too.\<close>

fun fields :: "char \<Rightarrow> char list \<Rightarrow> char list list" where
  "fields d [] = [[]]"
| "fields d (c # s) =
     (if c = d then [] # fields d s
      else (case fields d s of [] \<Rightarrow> [[c]] | f # fs \<Rightarrow> (c # f) # fs))"

lemma fields_nonempty [simp]: "fields d s \<noteq> []"
  by (induction s) (auto split: list.split)

lemma fields_end: "d \<notin> set s \<Longrightarrow> fields d s = [s]"
  by (induction s) auto

lemma fields_sep: "d \<notin> set s \<Longrightarrow> fields d (s @ d # t) = s # fields d t"
  by (induction s) auto

lemma search_single: "search [d] s = length (takeWhile (\<lambda>c. c \<noteq> d) s)"
  by (induction s) auto

lemma split_fields: "split_loop [d] s = filter (\<lambda>f. f \<noteq> []) (fields d s)"
proof (induction s rule: length_induct)
  case (1 s)
  let ?f = "takeWhile (\<lambda>c. c \<noteq> d) s"
  have i: "search [d] s = length ?f" by (rule search_single)
  have t: "take (length ?f) s = ?f" by (simp add: takeWhile_eq_take [symmetric])
  have nd: "d \<notin> set ?f" by (auto dest: set_takeWhileD)
  show ?case
  proof (cases "length ?f < length s")
    case False
    then have f: "?f = s" using t length_takeWhile_le [of "\<lambda>c. c \<noteq> d" s] by simp
    have "split_loop [d] s = (if s = [] then [] else [s])"
      unfolding split_loop.simps [of "[d]" s] i f by (simp add: Let_def)
    with nd f show ?thesis by (simp add: fields_end)
  next
    case True
    let ?r = "drop (length ?f + 1) s"
    have "s ! length ?f = d" using nth_length_takeWhile [OF True] by simp
    then have s: "s = ?f @ d # ?r"
      using True by (metis Cons_nth_drop_Suc Suc_eq_plus1 append_take_drop_id t)
    have "split_loop [d] ?r = filter (\<lambda>f. f \<noteq> []) (fields d ?r)" using 1 True by simp
    moreover have "fields d s = ?f # fields d ?r" using fields_sep [OF nd, of ?r] s by simp
    ultimately show ?thesis using True t
      by (subst split_loop.simps) (simp add: i Let_def)
  qed
qed

lemma SpliteString_single: "SpliteString s [d] = filter (\<lambda>f. f \<noteq> []) (fields d s)"
  by (simp add: SpliteString_def split_fields)


section \<open>Printing and parsing\<close>

definition plain_text :: "char list \<Rightarrow> bool" where
  "plain_text s \<longleftrightarrow> s \<noteq> [] \<and> CHR ''&'' \<notin> set s \<and> CHR ''='' \<notin> set s"

definition plain_map :: "param_map \<Rightarrow> bool" where
  "plain_map m \<longleftrightarrow> sorted (map fst m) \<and> distinct (map fst m) \<and> (\<forall>(k, v) \<in> set m. plain_text k \<and> plain_text v)"

lemma parse_field_plain:
  assumes "plain_text k" "plain_text v"
  shows "parse_field (k @ ''='' @ v) m = Some (map_insert k v m)"
  using assms
  by (simp add: parse_field_def SpliteString_single plain_text_def fields_sep fields_end)

lemma fields_GetResultString:
  assumes "\<forall>(k, v) \<in> set m. plain_text k \<and> plain_text v"
  shows "fields (CHR ''&'') (GetResultString m) = map (\<lambda>(k, v). k @ ''='' @ v) m @ [[]]"
  using assms
proof (induction m)
  case Nil
  show ?case by (simp add: GetResultString_def)
next
  case (Cons a m)
  obtain k v where a: "a = (k, v)" by fastforce
  from Cons.prems have "CHR ''&'' \<notin> set (k @ ''='' @ v)" by (simp add: a plain_text_def)
  from fields_sep [OF this, of "GetResultString m"]
  have "fields (CHR ''&'') (GetResultString (a # m)) = (k @ ''='' @ v) # fields (CHR ''&'') (GetResultString m)"
    by (simp add: a GetResultString_def)
  with Cons show ?case by (simp add: a)
qed

lemma map_insert_above: "(\<forall>k' \<in> fst ` set m. k' < k) \<Longrightarrow> map_insert k v m = m @ [(k, v)]"
  by (induction m rule: map_insert.induct [of _ k v]) (auto dest: less_asym)

lemma parse_fields_plain:
  assumes "sorted (map fst (m' @ m))" "distinct (map fst (m' @ m))" "\<forall>(k, v) \<in> set m. plain_text k \<and> plain_text v"
  shows "parse_fields (map (\<lambda>(k, v). k @ ''='' @ v) m) m' = Some (m' @ m)"
  using assms
proof (induction m arbitrary: m')
  case (Cons a m)
  obtain k v where a: "a = (k, v)" by fastforce
  have "\<forall>k' \<in> fst ` set m'. k' < k"
    using Cons.prems(1,2) by (auto simp: a sorted_append less_le)
  then have "map_insert k v m' = m' @ [a]" by (simp add: map_insert_above a)
  moreover have "parse_field (k @ ''='' @ v) m' = Some (map_insert k v m')"
    by (rule parse_field_plain) (use Cons.prems(3) a in auto)
  moreover have "parse_fields (map (\<lambda>(k, v). k @ ''='' @ v) m) (m' @ [a]) = Some ((m' @ [a]) @ m)"
    by (rule Cons.IH) (use Cons.prems in auto)
  ultimately show ?case by (simp add: a)
qed simp

lemma parse_print:
  assumes "plain_map m" "m \<noteq> []"
  shows "ParseStringToMap (GetResultString m) [] = Some (True, m)"
proof -
  have p: "\<forall>(k, v) \<in> set m. plain_text k \<and> plain_text v" using assms by (simp add: plain_map_def)
  have "filter (\<lambda>f. f \<noteq> []) (map (\<lambda>(k, v). k @ ''='' @ v) m @ [[]]) = map (\<lambda>(k, v). k @ ''='' @ v) m"
    by (auto simp: filter_id_conv)
  then have "SpliteString (GetResultString m) ''&'' = map (\<lambda>(k, v). k @ ''='' @ v) m"
    by (simp only: SpliteString_single fields_GetResultString [OF p])
  moreover have "GetResultString m \<noteq> []" using assms(2) by (cases m) (auto simp: GetResultString_def)
  ultimately show ?thesis
    using parse_fields_plain [of "[]" m] assms(1) p by (simp add: ParseStringToMap_def plain_map_def)
qed


section \<open>Looking up what was set\<close>

definition map_ordered :: "param_map \<Rightarrow> bool" where
  "map_ordered m = sorted_wrt (<) (map fst m)"

lemma fst_map_insert: "fst ` set (map_insert k v m) = insert k (fst ` set m)"
  by (induction m rule: map_insert.induct [of _ k v]) auto

lemma map_insert_ordered [simp]: "map_ordered m \<Longrightarrow> map_ordered (map_insert k v m)"
proof (induction m rule: map_insert.induct [of _ k v])
  case (2 k v k' v' m)
  have "\<forall>x \<in> fst ` set (map_insert k v m). k' < x" if "k' < k"
    using 2(2) that by (simp add: fst_map_insert map_ordered_def)
  with 2 show ?case by (auto simp: map_ordered_def not_less le_less)
qed (simp add: map_ordered_def)

lemma map_ordered_Nil [simp]: "map_ordered []"
  by (simp add: map_ordered_def)

lemma map_of_below: "\<forall>x \<in> set (map fst (m :: param_map)). k < x \<Longrightarrow> map_of m k = None"
  by (induction m) auto

lemma map_of_map_insert:
  "map_ordered m \<Longrightarrow> map_of (map_insert k v m) =
     (map_of m)(k \<mapsto> (case map_of m k of None \<Rightarrow> v | Some w \<Rightarrow> w))"
proof (induction m rule: map_insert.induct [of _ k v])
  case (2 k v k' v' m)
  have b: "\<forall>x \<in> set (map fst m). k' < x" using 2(2) by (simp add: map_ordered_def)
  have l: "map_of m k = None" if "k < k'"
    by (rule map_of_below) (use b that in \<open>auto dest: less_trans\<close>)
  from 2 b l show ?case by (auto simp: map_ordered_def fun_eq_iff)
qed auto

lemma parse_fields_ordered:
  "map_ordered m \<Longrightarrow> parse_fields fs m = Some m' \<Longrightarrow> map_ordered m'"
  by (induction fs m rule: parse_fields.induct)
     (auto simp: parse_field_def Let_def split: list.splits Option.bind_splits)

lemma GetStrValue_insert:
  assumes "map_ordered m"
  shows "GetStrValue k (map_insert k' v m) =
    (if k = k' \<and> \<not> HasKey k m then v else GetStrValue k m)"
  using assms by (auto simp: GetStrValue_def HasKey_def map_of_map_insert split: option.splits)

section \<open>Numbers\<close>

lemma c_number_IntToString [simp]: "c_number (IntToString v) = sint v"
  by (simp add: IntToString_def)

lemma nul_free_IntToString [simp]: "nul_free (IntToString v)"
  using nul_free_decimal [OF is_decimal_digits] by (auto simp: IntToString_def nul_free_def)

lemma StringToInt_IntToString: "StringToInt (IntToString v) = Some v"
proof -
  have "- (2 ^ 31) \<le> sint v \<and> sint v < 2 ^ 31"
    using sint_ge [of v] sint_lt [of v] by simp
  then show ?thesis by (simp add: StringToInt_def atoi_def)
qed

lemma StringToInt64_IntToString: "StringToInt64 (IntToString v) = Some (scast v)"
proof -
  have "sint v < 2 ^ 63" using sint_lt [of v] by (rule less_le_trans) simp
  moreover have "- (2 ^ 63) \<le> sint v" using sint_ge [of v] by (rule order_trans [rotated]) simp
  ultimately show ?thesis
    unfolding StringToInt64_def atoi64_def Let_def c_number_IntToString scast_eq by simp
qed

section \<open>Values of a type kept as strings\<close>

text \<open>
  What the accessors of one type rely on: an insertion that keeps an existing value, and a way to
  write a value of the type and to read it, which gives back what of the value is \<open>kept\<close>.
\<close>

locale typed_parameters =
  fixes put :: "'a \<Rightarrow> 'v" and get :: "'v \<Rightarrow> 'b option" and kept :: "'a \<Rightarrow> 'b"
    and insert_new :: "'k \<Rightarrow> 'v \<Rightarrow> 'm \<Rightarrow> 'm" and find_key :: "'m \<Rightarrow> 'k \<Rightarrow> 'v option" and ordered :: "'m \<Rightarrow> bool"
  assumes get_put: "get (put x) = Some (kept x)"
    and ordered_insert: "ordered m \<Longrightarrow> ordered (insert_new k v m)"
    and find_insert: "ordered m \<Longrightarrow>
      find_key (insert_new k v m) = (find_key m)(k \<mapsto> (case find_key m k of None \<Rightarrow> v | Some w \<Rightarrow> w))"
begin

lemma set_new: "ordered m \<Longrightarrow> find_key m k = None \<Longrightarrow> Option.bind (find_key (insert_new k (put x) m) k) get = Some (kept x)"
  by (simp add: find_insert get_put)

lemma set_present: "ordered m \<Longrightarrow> find_key m k \<noteq> None \<Longrightarrow> find_key (insert_new k v m) = find_key m"
  by (auto simp: find_insert)

lemma set_other: "ordered m \<Longrightarrow> k' \<noteq> k \<Longrightarrow> find_key (insert_new k v m) k' = find_key m k'"
  by (simp add: find_insert)

end

interpretation ints: typed_parameters IntToString "StringToInt \<circ> c_str" "\<lambda>i. i" map_insert map_of map_ordered
  by unfold_locales (simp_all add: StringToInt_IntToString map_of_map_insert)

interpretation longs: typed_parameters "\<lambda>i :: u64. IntToString (ucast i)" "StringToInt64 \<circ> c_str" "\<lambda>i. scast (ucast i :: u32)"
    map_insert map_of map_ordered
  by unfold_locales (simp_all add: StringToInt64_IntToString map_of_map_insert)

lemma GetIntValue_bind: "Option.bind (map_of m k) (StringToInt \<circ> c_str) = Some v \<Longrightarrow> GetIntValue k m = Some v"
  by (cases "map_of m k") (simp_all add: GetIntValue_def)

lemma GetLongValue_bind: "Option.bind (map_of m k) (StringToInt64 \<circ> c_str) = Some v \<Longrightarrow> GetLongValue k m = Some v"
  by (cases "map_of m k") (simp_all add: GetLongValue_def)

section \<open>Properties\<close>

text \<open>
  C32: with a one-character delimiter \<open>SpliteString\<close> returns the non-empty stretches between
  the delimiters, in order; its search loop, which skips empty stretches as it meets them,
  agrees with splitting first and filtering afterwards.
\<close>
theorem SpliteString_fields:
  "SpliteString s [d] = filter (\<lambda>f. f \<noteq> []) (fields d s)"
  by (rule SpliteString_single)

text \<open>
  C25: the text \<open>GetResultString\<close> prints for a map whose keys and values are not empty
  and hold no ampersand and no equals sign is parsed by \<open>ParseStringToMap\<close> to the same map.
\<close>
theorem parse_GetResultString:
  assumes "plain_map m" "m \<noteq> []"
  shows "ParseStringToMap (GetResultString m) [] = Some (True, m)"
  using assms by (rule parse_print)

theorem parse_GetResultString_witness:
  "ParseStringToMap ''area=2&id=17&'' [] = Some (True, [(''area'', ''2''), (''id'', ''17'')])"
proof -
  have "plain_map [(''area'', ''2''), (''id'', ''17'')]" by (simp add: plain_map_def plain_text_def)
  from parse_GetResultString [OF this] show ?thesis by (simp add: GetResultString_def)
qed

text \<open>
  C33: in a map kept in order, setting an integer under a new key and reading it gives the
  integer back; setting under a key that is present changes nothing, and the map stays ordered.
\<close>
theorem GetIntValue_SetKeyValue:
  assumes "map_ordered m"
  shows "map_ordered (snd (SetKeyValue_int k i m)) \<and>
    GetIntValue k (snd (SetKeyValue_int k i m)) = (if HasKey k m then GetIntValue k m else Some i) \<and>
    (\<forall>k'. k' \<noteq> k \<longrightarrow> GetStrValue k' (snd (SetKeyValue_int k i m)) = GetStrValue k' m)"
proof (cases "HasKey k m")
  case True
  then have "map_of (snd (SetKeyValue_int k i m)) = map_of m"
    using ints.set_present [OF assms] by (simp add: HasKey_def SetKeyValue_int_def)
  with True assms show ?thesis by (simp add: SetKeyValue_int_def GetIntValue_def GetStrValue_def)
next
  case False
  then have n: "map_of m k = None" by (simp add: HasKey_def)
  have "GetIntValue k (map_insert k (IntToString i) m) = Some i"
    by (rule GetIntValue_bind, rule ints.set_new [OF assms n])
  with False assms show ?thesis by (simp add: SetKeyValue_int_def GetStrValue_def ints.set_other)
qed

theorem GetIntValue_SetKeyValue_witness:
  "GetIntValue ''id'' (snd (SetKeyValue_int ''id'' (- 5) [(''area'', ''2'')])) = Some (- 5)"
proof -
  have m: "map_ordered [(''area'', ''2'')]" by (simp add: map_ordered_def)
  show ?thesis using GetIntValue_SetKeyValue [OF m, of "''id''" "- 5"]
    by (simp add: HasKey_def)
qed

text \<open>
  a 64-bit value is printed through a 32-bit argument, so what \<open>GetLongValue\<close> reads back
  is the sign extension of its low 32 bits and not the value.
\<close>
theorem SetKeyValue_long_truncates:
  assumes "map_ordered m" "\<not> HasKey k m"
  shows "GetLongValue k (snd (SetKeyValue_long k i m)) = Some (scast (ucast i :: u32))"
proof -
  have n: "map_of m k = None" using assms(2) by (simp add: HasKey_def)
  have "GetLongValue k (map_insert k (IntToString (ucast i)) m) = Some (scast (ucast i :: u32))"
    by (rule GetLongValue_bind, rule longs.set_new [OF assms(1) n])
  then show ?thesis by (simp add: SetKeyValue_long_def)
qed

theorem SetKeyValue_long_truncates_witness:
  "GetLongValue ''id'' (snd (SetKeyValue_long ''id'' 4294967296 [])) = Some 0"
  using SetKeyValue_long_truncates [of "[]" "''id''" 4294967296] by (simp add: HasKey_def)

text \<open>
  a field made of equals signs alone splits into no pieces, and the test for a second piece
  then steps behind the end of the empty vector: parsing such a text has no defined result.
\<close>
theorem parse_equals_field_undefined:
  "ParseStringToMap (replicate (Suc n) (CHR ''='')) m = None"
proof -
  have f: "fields (CHR ''='') (replicate j (CHR ''='')) = replicate (Suc j) []" for j
    by (induction j) simp_all
  have "fields (CHR ''&'') (replicate (Suc n) (CHR ''='')) = [replicate (Suc n) (CHR ''='')]"
    by (rule fields_end) (simp add: in_set_replicate)
  then show ?thesis using f [of "Suc n"]
    by (simp add: ParseStringToMap_def SpliteString_single parse_field_def)
qed

end
