(* ===== verification/RcString.thy ===== *)
theory RcString
  imports Prelude
begin

text \<open>
  The growing string buffers of \<open>src/ServerEngine/mjson/json.c\<close> (\<open>rcs_create\<close> to
  \<open>rcs_length\<close>).  A buffer is its memory, in which a byte that was never written is
  \<open>None\<close>, with the length and the capacity the code keeps beside it.  Stores outside the
  memory are \<open>None\<close>, and so is reading a byte that was never written.  Allocation is
  assumed to succeed.  The locale \<open>string_buffer\<close> is what the clients of the buffers rely on.
\<close>

section \<open>The code\<close>

record rcstring =
  rtext :: "char option list"
  rlength :: nat
  rmax :: nat

definition RSTRING_INCSTEP :: nat where "RSTRING_INCSTEP = 5"
definition RSTRING_DEFAULT :: nat where "RSTRING_DEFAULT = 8"

definition rcs_create :: "nat \<Rightarrow> rcstring" where
  "rcs_create n = \<lparr>rtext = (replicate (n + 1) None)[0 := Some NUL], rlength = 0, rmax = n\<rparr>"

text \<open>\<open>realloc\<close>: the common prefix is kept, the rest is not written yet.\<close>

definition realloc :: "char option list \<Rightarrow> nat \<Rightarrow> char option list" where
  "realloc m n = take n m @ replicate (n - length m) None"

definition rcs_resize :: "rcstring \<Rightarrow> nat \<Rightarrow> rcstring" where
  "rcs_resize r n = r\<lparr>rtext := (realloc (rtext r) (n + 1))[n := Some NUL], rmax := n\<rparr>"

text \<open>\<open>strncpy\<close> writes \<open>n\<close> bytes: the string, then nul bytes.\<close>

definition strncpy :: "char option list \<Rightarrow> nat \<Rightarrow> char list \<Rightarrow> nat \<Rightarrow> char option list option" where
  "strncpy m at s n =
     (if at + n \<le> length m
      then Some (take at m @ map Some (take n (s @ replicate n NUL)) @ drop (at + n) m) else None)"

definition rcs_catcs :: "rcstring \<Rightarrow> char list \<Rightarrow> nat \<Rightarrow> rcstring option" where
  "rcs_catcs r s n =
     (let r1 = (if rmax r < rlength r + n then rcs_resize r (rlength r + n + RSTRING_INCSTEP) else r)
      in do {
        t1 \<leftarrow> strncpy (rtext r1) (rlength r1) s n;
        t2 \<leftarrow> poke t1 (rlength r1 + n) (Some NUL);
        Some (r1\<lparr>rtext := t2, rlength := rlength r1 + n\<rparr>) })"

definition rcs_catc :: "rcstring \<Rightarrow> char \<Rightarrow> rcstring option" where
  "rcs_catc r c =
     (let r1 = (if rmax r \<le> rlength r then rcs_resize r (rmax r + RSTRING_INCSTEP) else r)
      in do {
        t1 \<leftarrow> poke (rtext r1) (rlength r1) (Some c);
        t2 \<leftarrow> poke t1 (rlength r1 + 1) (Some NUL);
        Some (r1\<lparr>rtext := t2, rlength := rlength r1 + 1\<rparr>) })"

text \<open>The C string at the start of a memory block: its bytes up to the first nul byte.\<close>

fun c_string :: "char option list \<Rightarrow> char list option" where
  "c_string [] = None"
| "c_string (None # m) = None"
| "c_string (Some c # m) = (if c = NUL then Some [] else map_option (Cons c) (c_string m))"

definition rcs_unwrap :: "rcstring \<Rightarrow> char list option" where
  "rcs_unwrap r = c_string (rtext r)"

definition rcs_length :: "rcstring \<Rightarrow> nat" where
  "rcs_length r = rlength r"

section \<open>The contract\<close>

locale string_buffer =
  fixes new :: "nat \<Rightarrow> 'b"
    and add :: "'b \<Rightarrow> char \<Rightarrow> 'b option"
    and adds :: "'b \<Rightarrow> char list \<Rightarrow> nat \<Rightarrow> 'b option"
    and text_of :: "'b \<Rightarrow> char list option"
    and holds :: "'b \<Rightarrow> char list \<Rightarrow> bool"
  assumes new_holds: "holds (new n) []"
    and add_holds: "holds b s \<Longrightarrow> \<exists>b'. add b c = Some b' \<and> holds b' (s @ [c])"
    and adds_holds: "holds b s \<Longrightarrow> \<exists>b'. adds b t (length t) = Some b' \<and> holds b' (s @ t)"
    and text_holds: "holds b s \<Longrightarrow> text_of b = Some (c_str s)"
begin

lemma addE:
  assumes "holds b s"
  obtains b' where "add b c = Some b'" "holds b' (s @ [c])"
  using add_holds [OF assms] by blast

lemma addsE:
  assumes "holds b s" "n = length t"
  obtains b' where "adds b t n = Some b'" "holds b' (s @ t)"
  using adds_holds [OF assms(1)] assms(2) by blast

text \<open>A loop that appends the image of every element of a list.\<close>

lemma loop_holds:
  assumes "\<And>b s x xs. holds b s \<Longrightarrow> \<exists>b'. loop b (x # xs) = loop b' xs \<and> holds b' (s @ f x)"
    and "\<And>b. loop b [] = Some b" and "holds b s"
  shows "\<exists>b'. loop b xs = Some b' \<and> holds b' (s @ concat (map f xs))"
  using assms(3)
proof (induction xs arbitrary: b s)
  case Nil
  with assms(2) show ?case by simp
next
  case (Cons x xs)
  with assms(1) [of b s x xs] Cons.IH show ?case by fastforce
qed

end

section \<open>The buffers keep the contract\<close>

text \<open>A buffer holds a string when its memory starts with it and a nul byte follows.\<close>

definition rcs_holds :: "rcstring \<Rightarrow> char list \<Rightarrow> bool" where
  "rcs_holds r s \<longleftrightarrow> rlength r = length s \<and> length (rtext r) = rmax r + 1 \<and> length s \<le> rmax r
     \<and> take (length s + 1) (rtext r) = map Some s @ [Some NUL]"

lemma c_string_prefix: "take (length s + 1) m = map Some s @ [Some NUL] \<Longrightarrow> c_string m = Some (c_str s)"
proof (induction s arbitrary: m)
  case Nil
  then show ?case by (cases m) (auto simp: c_str_def)
next
  case (Cons c s)
  then obtain m' where "m = Some c # m'" "take (length s + 1) m' = map Some s @ [Some NUL]"
    by (cases m) auto
  with Cons show ?case by (simp add: c_str_def)
qed

lemma rcs_holds_resize:
  "rcs_holds r s \<Longrightarrow> rmax r < n \<Longrightarrow> rcs_holds (rcs_resize r n) s"
  by (simp add: rcs_holds_def rcs_resize_def realloc_def take_update_cancel)

lemma rcs_holds_extend:
  assumes "rcs_holds r s" "length s + length t \<le> rmax r"
  shows "rcs_holds (r\<lparr>rtext := (take (length s) (rtext r) @ map Some t @ drop (length s + length t) (rtext r))
    [length s + length t := Some NUL], rlength := length s + length t\<rparr>) (s @ t)"
proof -
  have p: "take (length s) (rtext r) = map Some s"
  proof -
    have "take (length s) (take (length s + 1) (rtext r)) = map Some s"
      using assms(1) by (simp add: rcs_holds_def)
    then show ?thesis by simp
  qed
  obtain d ds where d: "drop (length s + length t) (rtext r) = d # ds"
    using assms by (cases "drop (length s + length t) (rtext r)") (auto simp: rcs_holds_def)
  show ?thesis
    using assms unfolding rcs_holds_def
    by (simp add: p d list_update_append)
       (use arg_cong [OF d, of length] in simp)
qed

lemma rcs_catcs_holds:
  assumes "rcs_holds r s"
  shows "\<exists>r'. rcs_catcs r t (length t) = Some r' \<and> rcs_holds r' (s @ t)"
proof -
  let ?r = "if rmax r < rlength r + length t then rcs_resize r (rlength r + length t + RSTRING_INCSTEP) else r"
  have h: "rcs_holds ?r s" and m: "length s + length t \<le> rmax ?r"
    using assms rcs_holds_resize [OF assms, of "rlength r + length t + RSTRING_INCSTEP"]
    by (auto simp: rcs_resize_def RSTRING_INCSTEP_def rcs_holds_def)
  from h m have l: "rlength ?r = length s" "length s + length t < length (rtext ?r)"
    by (simp_all add: rcs_holds_def)
  have "rcs_catcs r t (length t) = Some (?r\<lparr>rtext := (take (length s) (rtext ?r) @ map Some t
      @ drop (length s + length t) (rtext ?r))[length s + length t := Some NUL],
      rlength := length s + length t\<rparr>)"
    using l by (simp add: rcs_catcs_def Let_def strncpy_def poke_def)
  with rcs_holds_extend [OF h m] show ?thesis by blast
qed

lemma rcs_catc_holds:
  assumes "rcs_holds r s"
  shows "\<exists>r'. rcs_catc r c = Some r' \<and> rcs_holds r' (s @ [c])"
proof -
  let ?r = "if rmax r \<le> rlength r then rcs_resize r (rmax r + RSTRING_INCSTEP) else r"
  have h: "rcs_holds ?r s" and m: "length s + length [c] \<le> rmax ?r"
    using assms rcs_holds_resize [OF assms, of "rmax r + RSTRING_INCSTEP"]
    by (auto simp: rcs_resize_def RSTRING_INCSTEP_def rcs_holds_def)
  from h m have l: "rlength ?r = length s" "Suc (length s) < length (rtext ?r)"
    by (simp_all add: rcs_holds_def)
  have "(rtext ?r)[length s := Some c] = take (length s) (rtext ?r) @ map Some [c] @ drop (length s + length [c]) (rtext ?r)"
    using l by (simp add: upd_conv_take_nth_drop)
  then have "rcs_catc r c = Some (?r\<lparr>rtext := (take (length s) (rtext ?r) @ map Some [c]
      @ drop (length s + length [c]) (rtext ?r))[length s + length [c] := Some NUL],
      rlength := length s + length [c]\<rparr>)"
    using l by (simp add: rcs_catc_def Let_def)
  with rcs_holds_extend [OF h m] show ?thesis by blast
qed

lemma rcs_create_holds: "rcs_holds (rcs_create n) []"
  by (simp add: rcs_holds_def rcs_create_def)

interpretation rcs: string_buffer rcs_create rcs_catc rcs_catcs rcs_unwrap rcs_holds
proof
  show "rcs_holds r s \<Longrightarrow> rcs_unwrap r = Some (c_str s)" for r s
    using c_string_prefix [of s "rtext r"] by (simp add: rcs_holds_def rcs_unwrap_def)
qed (simp_all add: rcs_create_holds rcs_catc_holds rcs_catcs_holds)

end
