(* ===== verification/JsonText.thy ===== *)
theory JsonText
  imports RcString
begin

text \<open>
  The text transformations of \<open>src/ServerEngine/mjson/json.c\<close>: \<open>json_escape\<close>,
  \<open>json_unescape\<close>, \<open>json_strip_white_spaces\<close> (in place) and \<open>json_format_string\<close>, with
  every access to their strings and buffers checked.  A C string is the list of its characters
  without the nul byte; \<open>char\<close> is signed, so characters from 0x80 on are negative.
\<close>

section \<open>Escaping\<close>

definition hex_digit :: "nat \<Rightarrow> char" where
  "hex_digit n = (if n < 10 then char_of (48 + n) else char_of (87 + n))"

text \<open>\<open>sprintf (buffer, "\u%4.4x", text[i])\<close> for a character below 0x20.\<close>

definition u_escape :: "char \<Rightarrow> char list" where
  "u_escape c = [BSL, CHR ''u'', CHR ''0'', CHR ''0'', hex_digit (ord c div 16), hex_digit (ord c mod 16)]"

definition escape_char :: "rcstring \<Rightarrow> char \<Rightarrow> rcstring option" where
  "escape_char r c =
     (if c = BSL then rcs_catcs r [BSL, BSL] 2
      else if c = DQ then rcs_catcs r [BSL, DQ] 2
      else if c = CHR ''/'' then rcs_catcs r [BSL, CHR ''/''] 2
      else if c = CHR 0x08 then rcs_catcs r [BSL, CHR ''b''] 2
      else if c = CHR 0x0C then rcs_catcs r [BSL, CHR ''f''] 2
      else if c = CHR 0x0A then rcs_catcs r [BSL, CHR ''n''] 2
      else if c = CHR 0x0D then rcs_catcs r [BSL, CHR ''r''] 2
      else if c = CHR 0x09 then rcs_catcs r [BSL, CHR ''t''] 2
      else if 128 \<le> ord c then rcs_catc r c
      else if ord c < 32 then rcs_catcs r (u_escape c) 6
      else rcs_catc r c)"

fun escape_loop :: "rcstring \<Rightarrow> char list \<Rightarrow> rcstring option" where
  "escape_loop r [] = Some r"
| "escape_loop r (c # cs) = do { r1 \<leftarrow> escape_char r c; escape_loop r1 cs }"

definition json_escape :: "char list \<Rightarrow> char list option" where
  "json_escape t = do { r \<leftarrow> escape_loop (rcs_create (length t)) t; rcs_unwrap r }"

section \<open>Unescaping\<close>

definition is_space :: "char \<Rightarrow> bool" where
  "is_space c \<longleftrightarrow> c = CHR 0x20 \<or> (9 \<le> ord c \<and> ord c \<le> 13)"

definition hex_value :: "char \<Rightarrow> nat option" where
  "hex_value c = (let n = ord c in
     if 48 \<le> n \<and> n \<le> 57 then Some (n - 48)
     else if 97 \<le> n \<and> n \<le> 102 then Some (n - 87)
     else if 65 \<le> n \<and> n \<le> 70 then Some (n - 55)
     else None)"

fun hex_digits :: "nat \<Rightarrow> char list \<Rightarrow> nat" where
  "hex_digits a [] = a"
| "hex_digits a (c # cs) = (case hex_value c of None \<Rightarrow> a | Some v \<Rightarrow> hex_digits (16 * a + v) cs)"

text \<open>
  \<open>strtol (buf, NULL, 16)\<close> on at most four characters, so that nothing overflows: white space,
  a sign, the prefix \<open>0x\<close> when a digit follows it, then the hexadecimal digits.
\<close>

definition strtol16 :: "char list \<Rightarrow> int" where
  "strtol16 s =
     (let s1 = dropWhile is_space s;
          (neg, s2) = (case s1 of
              c # r \<Rightarrow> if c = CHR ''-'' then (True, r) else if c = CHR ''+'' then (False, r) else (False, s1)
            | [] \<Rightarrow> (False, s1));
          s3 = (case s2 of
              z # x # d # r \<Rightarrow> if z = CHR ''0'' \<and> (x = CHR ''x'' \<or> x = CHR ''X'') \<and> hex_value d \<noteq> None
                then d # r else s2
            | _ \<Rightarrow> s2);
          v = int (hex_digits 0 s3)
      in if neg then - v else v)"

text \<open>The conversion to \<open>char\<close> keeps the low eight bits.\<close>

definition to_char :: "int \<Rightarrow> char" where
  "to_char i = char_of (nat (i mod 256))"

text \<open>The four characters read by \<open>text[++r]\<close> after position \<open>r\<close>.\<close>

definition four_chars :: "char list \<Rightarrow> nat \<Rightarrow> char list option" where
  "four_chars s r = do {
     a \<leftarrow> c_char_at s (r + 1); b \<leftarrow> c_char_at s (r + 2);
     c \<leftarrow> c_char_at s (r + 3); d \<leftarrow> c_char_at s (r + 4); Some [a, b, c, d] }"

text \<open>The bytes written for a code unit that is not a high surrogate.\<close>

definition utf8_unit :: "int \<Rightarrow> char list" where
  "utf8_unit u =
     (if u < 0x80 then [to_char u]
      else if u < 0x800 then
        [to_char (0xC0 + (drop_bit 6 u AND 0x1F)), to_char (0x80 + (u AND 0x3F))]
      else [to_char (0xE0 + (drop_bit 12 u AND 0xF)), to_char (0x80 + (drop_bit 6 u AND 0x3F)),
            to_char (0x80 + (u AND 0x3F))])"

text \<open>The four bytes for a surrogate pair; the arithmetic is in \<open>uint64_t\<close>.\<close>

definition utf8_pair :: "int \<Rightarrow> int \<Rightarrow> char list" where
  "utf8_pair high low =
     (let u = push_bit 10 (of_int high - 0xD800 :: u64) + (of_int low - 0xDC00) + 0x10000;
          part = (\<lambda>n. uint (drop_bit n u))
      in [to_char (0xF0 + (part 18 AND 0x7)), to_char (0x80 + (part 12 AND 0x3F)),
          to_char (0x80 + (part 6 AND 0x3F)), to_char (0x80 + (part 0 AND 0x3F))])"

text \<open>\<open>case 'u'\<close>: from the position of the \<open>u\<close>, the position behind it and the bytes to write.\<close>

definition unescape_u :: "char list \<Rightarrow> nat \<Rightarrow> (nat \<times> char list) option" where
  "unescape_u s r = do {
     h \<leftarrow> four_chars s r;
     let u = strtol16 (c_str h);
     let r1 = r + 4;
     if u < 0x10000 \<and> (u < 0xD800 \<or> 0xDBFF < u) then Some (r1, utf8_unit u)
     else if u < 0x10000 then do {
       c1 \<leftarrow> c_char_at s (r1 + 1);
       if c1 \<noteq> BSL then Some (r1 + 1, []) else do {
         c2 \<leftarrow> c_char_at s (r1 + 2);
         if c2 \<noteq> CHR ''u'' then Some (r1 + 2, []) else do {
           l \<leftarrow> four_chars s (r1 + 2);
           Some (r1 + 6, utf8_pair u (strtol16 (c_str l))) } } }
     else Some (r1, []) }"

text \<open>The inner switch on the character behind a backslash; \<open>None\<close> for the assertion.\<close>

definition unescape_escape :: "char list \<Rightarrow> nat \<Rightarrow> (nat \<times> char list) option" where
  "unescape_escape s r = do {
     c \<leftarrow> c_char_at s r;
     if c = DQ \<or> c = BSL \<or> c = CHR ''/'' then Some (r, [c])
     else if c = CHR ''b'' then Some (r, [CHR 0x08])
     else if c = CHR ''f'' then Some (r, [CHR 0x0C])
     else if c = CHR ''n'' then Some (r, [CHR 0x0A])
     else if c = CHR ''r'' then Some (r, [CHR 0x0D])
     else if c = CHR ''t'' then Some (r, [CHR 0x09])
     else if c = CHR ''u'' then unescape_u s r
     else None }"

fun puts :: "char option list \<Rightarrow> nat \<Rightarrow> char list \<Rightarrow> (char option list \<times> nat) option" where
  "puts m w [] = Some (m, w)"
| "puts m w (c # cs) = do { m1 \<leftarrow> poke m w (Some c); puts m1 (w + 1) cs }"

lemma unescape_u_advances: "unescape_u s r = Some (r', out) \<Longrightarrow> r < r'"
  by (auto simp: unescape_u_def Let_def split: if_splits Option.bind_splits)

lemma unescape_escape_advances: "unescape_escape s r = Some (r', out) \<Longrightarrow> r \<le> r'"
  by (auto simp: unescape_escape_def split: if_splits Option.bind_splits dest: unescape_u_advances)

lemma c_char_at_SomeD: "c_char_at s r = Some c \<Longrightarrow> r \<le> length s"
  by (auto simp: c_char_at_def split: if_splits)

text \<open>\<open>for (r = w = 0; text[r]; r++)\<close>, from read position \<open>r\<close> and write position \<open>w\<close>.\<close>

function unescape_loop :: "char list \<Rightarrow> nat \<Rightarrow> char option list \<Rightarrow> nat \<Rightarrow> char option list option" where
  "unescape_loop s r m w =
     (case c_char_at s r of
        None \<Rightarrow> None
      | Some c \<Rightarrow>
          if c = NUL then poke m w (Some NUL)
          else case (if c = BSL then unescape_escape s (r + 1) else Some (r, [c])) of
            None \<Rightarrow> None
          | Some (r1, out) \<Rightarrow>
              (case puts m w out of
                 None \<Rightarrow> None
               | Some (m1, w1) \<Rightarrow> unescape_loop s (r1 + 1) m1 w1))"
  by pat_completeness auto
termination
proof (relation "measure (\<lambda>(s, r, m, w). length s + 1 - r)")
  fix s r m w c x r1 out y m1 w1
  assume "c_char_at s r = Some c"
    and "(if c = BSL then unescape_escape s (r + 1) else Some (r, [c])) = Some x" "(r1, out) = x"
  then have "r \<le> length s" "r \<le> r1"
    by (auto dest: c_char_at_SomeD dest!: unescape_escape_advances split: if_splits)
  then show "((s, r1 + 1, m1, w1), (s, r, m, w)) \<in> measure (\<lambda>(s, r, m, w). length s + 1 - r)"
    by simp
qed simp

declare unescape_loop.simps [simp del]

definition json_unescape :: "char list \<Rightarrow> char list option" where
  "json_unescape s = do { m \<leftarrow> unescape_loop s 0 (replicate (length s + 1) None) 0; c_string m }"

section \<open>Stripping white space in place\<close>

definition is_ws :: "char \<Rightarrow> bool" where
  "is_ws c \<longleftrightarrow> c = CHR 0x20 \<or> c = CHR 0x09 \<or> c = CHR 0x0A \<or> c = CHR 0x0D"

text \<open>The loop over the memory of the string; \<open>st\<close> is set inside a JSON string.\<close>

function strip_loop :: "nat \<Rightarrow> char list \<Rightarrow> nat \<Rightarrow> nat \<Rightarrow> bool \<Rightarrow> char list option" where
  "strip_loop len m i out st =
     (if i < len then
        (case peek m i of
           None \<Rightarrow> None
         | Some c \<Rightarrow>
             if is_ws c \<and> \<not> st then strip_loop len m (i + 1) out st
             else
               (case (if c = DQ then (if st then map_option (\<lambda>p. p = BSL) (if 0 < i then peek m (i - 1) else None)
                                      else Some True)
                      else Some st) of
                  None \<Rightarrow> None
                | Some st1 \<Rightarrow>
                    (case poke m out c of
                       None \<Rightarrow> None
                     | Some m1 \<Rightarrow> strip_loop len m1 (i + 1) (out + 1) st1)))
      else poke m out NUL)"
  by pat_completeness auto
termination
  by (relation "measure (\<lambda>(len, m, i, out, st). len - i)") auto

declare strip_loop.simps [simp del]

text \<open>The memory of the string before and after the call.\<close>

definition json_strip_white_spaces :: "char list \<Rightarrow> char list option" where
  "json_strip_white_spaces m = strip_loop (length (c_str m)) m 0 0 False"

section \<open>Formatting\<close>

fun catc_tabs :: "nat \<Rightarrow> rcstring \<Rightarrow> rcstring option" where
  "catc_tabs 0 r = Some r"
| "catc_tabs (Suc n) r = do { r1 \<leftarrow> rcs_catc r (CHR 0x09); catc_tabs n r1 }"

text \<open>One round of the inner loop: the position of the character appended last, the buffer, \<open>loop\<close>.\<close>

definition format_string_char :: "char list \<Rightarrow> nat \<Rightarrow> rcstring \<Rightarrow> (nat \<times> rcstring \<times> bool) option" where
  "format_string_char s p r = do {
     c \<leftarrow> c_char_at s p;
     (p1, r1, loop) \<leftarrow>
       (if c = BSL then do {
          r1 \<leftarrow> rcs_catc r BSL;
          c1 \<leftarrow> c_char_at s (p + 1);
          if c1 = DQ then do { r2 \<leftarrow> rcs_catc r1 DQ; Some (p + 2, r2, True) }
          else Some (p + 1, r1, True) }
        else Some (p, r, c \<noteq> DQ));
     d \<leftarrow> c_char_at s p1;
     r2 \<leftarrow> rcs_catc r1 d;
     Some (p1, r2, loop) }"

lemma format_string_char_advances: "format_string_char s p r = Some (p1, r1, l) \<Longrightarrow> p \<le> p1"
  by (auto simp: format_string_char_def split: if_splits Option.bind_splits)

function format_in_string :: "char list \<Rightarrow> nat \<Rightarrow> rcstring \<Rightarrow> (nat \<times> rcstring) option" where
  "format_in_string s p r =
     (case format_string_char s p r of
        None \<Rightarrow> None
      | Some (p1, r1, loop) \<Rightarrow>
          if loop \<and> p1 + 1 < length s then format_in_string s (p1 + 1) r1 else Some (p1 + 1, r1))"
  by pat_completeness auto
termination
  by (relation "measure (\<lambda>(s, p, r). length s - p)") (auto dest: format_string_char_advances)

declare format_in_string.simps [simp del]

lemma format_in_string_advances: "format_in_string s p r = Some (p', r') \<Longrightarrow> p < p'"
proof (induction s p r rule: format_in_string.induct)
  case (1 s p r)
  from 1(2) obtain p1 r1 loop where c: "format_string_char s p r = Some (p1, r1, loop)"
    by (subst (asm) format_in_string.simps) (auto split: option.splits)
  with format_string_char_advances have "p \<le> p1" by blast
  with 1(1) [OF c refl refl] 1(2) show ?case
    by (subst (asm) format_in_string.simps) (auto simp: c split: if_splits)
qed

function format_loop :: "char list \<Rightarrow> nat \<Rightarrow> u32 \<Rightarrow> rcstring \<Rightarrow> rcstring option" where
  "format_loop s p ind r =
     (if p < length s then
        let c = s ! p in
        if is_ws c then format_loop s (p + 1) ind r
        else if c = CHR ''{'' then
          (case (do { r1 \<leftarrow> rcs_catcs r [CHR ''{'', CHR 0x0A] 2; catc_tabs (unat (ind + 1)) r1 }) of
             None \<Rightarrow> None | Some r1 \<Rightarrow> format_loop s (p + 1) (ind + 1) r1)
        else if c = CHR ''}'' then
          (case (do { r1 \<leftarrow> rcs_catc r (CHR 0x0A); r2 \<leftarrow> catc_tabs (unat (ind - 1)) r1; rcs_catc r2 (CHR ''}'') }) of
             None \<Rightarrow> None | Some r1 \<Rightarrow> format_loop s (p + 1) (ind - 1) r1)
        else if c = CHR '':'' then
          (case rcs_catcs r [CHR '':'', CHR 0x20] 2 of
             None \<Rightarrow> None | Some r1 \<Rightarrow> format_loop s (p + 1) ind r1)
        else if c = CHR '','' then
          (case (do { r1 \<leftarrow> rcs_catcs r [CHR '','', CHR 0x0A] 2; catc_tabs (unat ind) r1 }) of
             None \<Rightarrow> None | Some r1 \<Rightarrow> format_loop s (p + 1) ind r1)
        else if c = DQ then
          (case (do { r1 \<leftarrow> rcs_catc r DQ; format_in_string s (p + 1) r1 }) of
             None \<Rightarrow> None | Some (p1, r1) \<Rightarrow> format_loop s p1 ind r1)
        else
          (case rcs_catc r c of None \<Rightarrow> None | Some r1 \<Rightarrow> format_loop s (p + 1) ind r1)
      else Some r)"
  by pat_completeness auto
termination
  by (relation "measure (\<lambda>(s, p, ind, r). length s - p)")
     (auto split: Option.bind_splits dest!: format_in_string_advances intro: diff_less_mono2)

declare format_loop.simps [simp del]

definition json_format_string :: "char list \<Rightarrow> char list option" where
  "json_format_string s = do { r \<leftarrow> format_loop s 0 0 (rcs_create (length s)); rcs_unwrap r }"

section \<open>Escaping appends the escape of every character\<close>

definition esc :: "char \<Rightarrow> char list" where
  "esc c =
     (if c = BSL then [BSL, BSL]
      else if c = DQ then [BSL, DQ]
      else if c = CHR ''/'' then [BSL, CHR ''/'']
      else if c = CHR 0x08 then [BSL, CHR ''b'']
      else if c = CHR 0x0C then [BSL, CHR ''f'']
      else if c = CHR 0x0A then [BSL, CHR ''n'']
      else if c = CHR 0x0D then [BSL, CHR ''r'']
      else if c = CHR 0x09 then [BSL, CHR ''t'']
      else if ord c < 32 then u_escape c
      else [c])"

lemma escape_char_esc:
  "escape_char r c = (if esc c = [c] then rcs_catc r c else rcs_catcs r (esc c) (length (esc c)))"
  by (simp add: escape_char_def esc_def u_escape_def flip: numeral_2_eq_2)

lemma escape_char_holds: "rcs_holds r s \<Longrightarrow> \<exists>r'. escape_char r c = Some r' \<and> rcs_holds r' (s @ esc c)"
  using rcs.adds_holds [of r s "esc c"] rcs.add_holds [of r s c] by (simp add: escape_char_esc)

lemma escape_loop_holds:
  "rcs_holds r s \<Longrightarrow> \<exists>r'. escape_loop r t = Some r' \<and> rcs_holds r' (s @ concat (map esc t))"
proof (rule rcs.loop_holds)
  show "rcs_holds r s \<Longrightarrow> \<exists>r'. escape_loop r (x # xs) = escape_loop r' xs \<and> rcs_holds r' (s @ esc x)" for r s x xs
    using escape_char_holds [of r s x] by auto
qed simp_all

lemma hex_digit_not_nul: "n < 16 \<Longrightarrow> hex_digit n \<noteq> NUL"
  by (auto simp: hex_digit_def char_of_eq_iff take_bit_nat_eq_self)

lemma esc_nul_free: "c \<noteq> NUL \<Longrightarrow> nul_free (esc c)"
  by (simp add: esc_def u_escape_def hex_digit_not_nul less_mult_imp_div_less)

lemma escaped_nul_free: "nul_free t \<Longrightarrow> nul_free (concat (map esc t))"
  by (induction t) (simp_all add: esc_nul_free)

lemma escape_text: "nul_free t \<Longrightarrow> json_escape t = Some (concat (map esc t))"
  using escape_loop_holds [OF rcs.new_holds, of "length t" t] rcs.text_holds escaped_nul_free [of t]
  by (auto simp: json_escape_def)

section \<open>Unescaping what was escaped\<close>

lemma puts_spec:
  "w + length cs \<le> length m \<Longrightarrow>
   puts m w cs = Some (take w m @ map Some cs @ drop (w + length cs) m, w + length cs)"
proof (induction cs arbitrary: m w)
  case (Cons c cs)
  then show ?case by (simp add: upd_conv_take_nth_drop add.commute)
qed simp

lemma hex_value_digit: "n < 16 \<Longrightarrow> hex_value (hex_digit n) = Some n"
  by (auto simp: hex_value_def hex_digit_def Let_def take_bit_nat_eq_self)

lemma u_escape_value: "ord c < 32 \<Longrightarrow> strtol16 (c_str (drop 2 (u_escape c))) = int (ord c)"
  by (simp add: u_escape_def c_str_def hex_digit_not_nul hex_value_digit less_mult_imp_div_less
      strtol16_def is_space_def hex_value_def [of "CHR ''0''"])

lemma c_char_at_append: "c_char_at (p @ s) (length p + k) = c_char_at s k"
  by (auto simp: c_char_at_def nth_append)

lemma c_char_at_Cons [simp]: "c_char_at (c # s) 0 = Some c" "c_char_at (c # s) (Suc k) = c_char_at s k"
  by (auto simp: c_char_at_def)

lemma four_chars_append: "four_chars (p @ s) (length p + k) = four_chars s k"
  by (simp only: four_chars_def c_char_at_append add.assoc)

text \<open>The u-escape of a control character, read at its second character.\<close>

lemma unescape_u_escape:
  assumes "ord c < 32"
  shows "unescape_u (p @ u_escape c @ post) (length p + 1) = Some (length p + 5, [c])"
proof -
  have "four_chars (p @ u_escape c @ post) (length p + 1) = Some (drop 2 (u_escape c))"
    unfolding four_chars_append by (simp add: four_chars_def u_escape_def c_char_at_def)
  with assms show ?thesis
    by (simp add: unescape_u_def u_escape_value utf8_unit_def to_char_def)
qed

lemma unescape_esc:
  "\<exists>r1. (if hd (esc c) = BSL then unescape_escape (p @ esc c @ post) (length p + 1)
      else Some (length p, [c])) = Some (r1, [c]) \<and> r1 + 1 = length p + length (esc c)"
proof (cases "esc c = u_escape c")
  case True
  then have c: "ord c < 32" by (auto simp: esc_def u_escape_def split: if_splits)
  have "c_char_at (p @ u_escape c @ post) (length p + 1) = Some (CHR ''u'')"
    unfolding c_char_at_append by (simp add: u_escape_def)
  then show ?thesis
    using unescape_u_escape [OF c, of p post] True by (simp add: unescape_escape_def u_escape_def)
next
  case False
  then show ?thesis
    using c_char_at_append [of p "esc c @ post" 1]
    by (auto simp: esc_def unescape_escape_def)
qed

lemma unescape_loop_step:
  assumes "c_char_at s r = Some c" "c \<noteq> NUL" "w < length m"
    and "(if c = BSL then unescape_escape s (r + 1) else Some (r, [c])) = Some (r1, [d])"
  shows "unescape_loop s r m w = unescape_loop s (r1 + 1) (m[w := Some d]) (w + 1)"
  by (subst unescape_loop.simps) (use assms in \<open>simp del: if_split\<close>)

lemma esc_cases: "(\<exists>x xs. esc c = BSL # x # xs) \<or> esc c = [c] \<and> c \<noteq> BSL"
  by (simp add: esc_def u_escape_def)

lemma hd_esc: "esc c \<noteq> []" "c \<noteq> NUL \<Longrightarrow> hd (esc c) \<noteq> NUL" "hd (esc c) \<noteq> BSL \<Longrightarrow> hd (esc c) = c"
  using esc_cases [of c] by auto

lemma unescape_loop_escaped:
  assumes "nul_free t" "w + length t < length m"
  shows "unescape_loop (p @ concat (map esc t)) (length p) m w
    = Some (take w m @ map Some t @ Some NUL # drop (w + length t + 1) m)"
  using assms
proof (induction t arbitrary: p m w)
  case Nil
  then show ?case by (subst unescape_loop.simps) (simp add: upd_conv_take_nth_drop)
next
  case (Cons c t)
  let ?s = "p @ esc c @ concat (map esc t)"
  obtain r1 where r: "(if hd (esc c) = BSL then unescape_escape ?s (length p + 1) else Some (length p, [c])) = Some (r1, [c])"
    "r1 + 1 = length (p @ esc c)"
    using unescape_esc [of c p] by auto
  have h: "c_char_at ?s (length p) = Some (hd (esc c))" "hd (esc c) \<noteq> NUL"
    "hd (esc c) \<noteq> BSL \<Longrightarrow> hd (esc c) = c"
    using c_char_at_append [of p "esc c @ concat (map esc t)" 0] Cons.prems hd_esc [of c]
    by (auto simp: neq_Nil_conv)
  have k: "(if hd (esc c) = BSL then unescape_escape ?s (length p + 1) else Some (length p, [hd (esc c)]))
    = Some (r1, [c])"
    using r(1) h(3) by (auto split: if_splits)
  let ?m = "m[w := Some c]"
  have "unescape_loop ?s (length p) m w = unescape_loop ((p @ esc c) @ concat (map esc t)) (length (p @ esc c)) ?m (w + 1)"
    unfolding r(2) [symmetric] append_assoc using Cons.prems(2)
    by (intro unescape_loop_step [OF h(1,2) _ k]) simp
  also have "\<dots> = Some (take (w + 1) ?m @ map Some t @ Some NUL # drop (w + 1 + length t + 1) ?m)"
    using Cons.prems by (intro Cons.IH) simp_all
  finally show ?case
    using Cons.prems by (simp add: take_Suc_conv_app_nth add.commute)
qed

lemma c_string_Some: "c_string (map Some t @ Some NUL # m) = Some (c_str t)"
  by (induction t) (simp_all add: c_str_def)

lemma esc_length: "Suc 0 \<le> length (esc c)"
  by (simp add: esc_def u_escape_def)

lemma escaped_length: "length t \<le> length (concat (map esc t))"
proof (induction t)
  case (Cons c t)
  with esc_length [of c] show ?case by (simp del: length_greater_0_conv)
qed simp

text \<open>
  C24: for every string, \<open>json_escape\<close> stays inside its buffers and \<open>json_unescape\<close> applied to
  its result stays inside its buffers and gives the string back.
\<close>

theorem unescape_escape:
  assumes "nul_free t"
  shows "\<exists>e. json_escape t = Some e \<and> json_unescape e = Some t"
proof -
  let ?e = "concat (map esc t)"
  have "json_unescape ?e = Some t"
    using unescape_loop_escaped [OF assms, of 0 "replicate (length ?e + 1) None" "[]"] escaped_length [of t]
    by (simp add: json_unescape_def c_string_Some assms)
  with escape_text [OF assms] show ?thesis by blast
qed

theorem unescape_escape_witness:
  "\<exists>e. json_escape [CHR ''a'', DQ, BSL, CHR 0x1F, CHR 0xC3, CHR 0xA9] = Some e
    \<and> json_unescape e = Some [CHR ''a'', DQ, BSL, CHR 0x1F, CHR 0xC3, CHR 0xA9]"
  by (rule unescape_escape) simp

section \<open>A lone high surrogate at the end of a string\<close>

text \<open>
  a string that ends in the escape of a high surrogate is read past its nul byte: the test for the
  backslash of the low surrogate consumes the terminator and the loop goes on behind it.
\<close>

theorem unescape_surrogate_overread:
  "json_unescape ([BSL] @ ''uD800'') = None"
  by (simp add: json_unescape_def unescape_loop.simps unescape_escape_def unescape_u_def four_chars_def
      c_char_at_def strtol16_def hex_value_def is_space_def c_str_def)

section \<open>Stripping\<close>

text \<open>
  The characters kept: \<open>st\<close> inside a JSON string, \<open>p\<close> the character read before.
\<close>

fun strip :: "bool \<Rightarrow> char \<Rightarrow> char list \<Rightarrow> char list" where
  "strip st p [] = []"
| "strip st p (c # cs) =
     (if is_ws c \<and> \<not> st then strip st c cs
      else c # strip (if c = DQ then st \<longrightarrow> p = BSL else st) c cs)"

lemma strip_outside: "strip False p cs = strip False q cs"
  by (induction cs) auto

lemma strip_idem: "strip st p (strip st p cs) = strip st p cs"
proof (induction st p cs rule: strip.induct)
  case (2 st p c cs)
  then show ?case by (auto simp: strip_outside [of p _ c])
qed simp

lemma strip_nul_free: "nul_free cs \<Longrightarrow> nul_free (strip st p cs)"
  by (induction st p cs rule: strip.induct) auto

lemma take_drop_Suc: "i < n \<Longrightarrow> n \<le> length m \<Longrightarrow> take (n - i) (drop i m) = m ! i # take (n - Suc i) (drop (Suc i) m)"
  by (simp add: Suc_diff_Suc [symmetric] Cons_nth_drop_Suc [symmetric] take_Cons)

lemma strip_loop_spec:
  assumes "out \<le> i" "i \<le> len" "len < length m" "st \<longrightarrow> 0 < i"
  shows "\<exists>r. strip_loop len m i out st
    = Some (take out m @ strip st (m ! (i - 1)) (take (len - i) (drop i m)) @ NUL # r)"
  using assms
proof (induction len m i out st rule: strip_loop.induct)
  case (1 len m i out st)
  show ?case
  proof (cases "i < len")
    case False
    with 1(3-) show ?thesis by (subst strip_loop.simps) (auto simp: upd_conv_take_nth_drop)
  next
    case True
    let ?c = "m ! i"
    have s: "take (len - i) (drop i m) = ?c # take (len - Suc i) (drop (Suc i) m)"
      using True 1(5) by (simp add: take_drop_Suc)
    have pk: "peek m i = Some ?c" using True 1(5) by simp
    show ?thesis
    proof (cases "is_ws ?c \<and> \<not> st")
      case ws: True
      from 1(1) [OF True pk ws] 1(3-) True ws obtain r where
        "strip_loop len m (i + 1) out st
          = Some (take out m @ strip st ?c (take (len - Suc i) (drop (Suc i) m)) @ NUL # r)" by auto
      with True pk ws s show ?thesis by (subst strip_loop.simps) simp
    next
      case nws: False
      let ?st = "if ?c = DQ then st \<longrightarrow> m ! (i - 1) = BSL else st"
      let ?m = "m[out := ?c]"
      have st: "(if ?c = DQ then (if st then map_option (\<lambda>p. p = BSL) (if 0 < i then peek m (i - 1) else None)
          else Some True) else Some st) = Some ?st"
        using 1(3-) True by auto
      have po: "poke m out ?c = Some ?m" using 1(3-) True by simp
      have "?m ! i = ?c" using 1(3-) True by (auto simp: nth_list_update)
      with 1(2) [OF True pk nws st po] 1(3-) True obtain r where
        "strip_loop len ?m (i + 1) (out + 1) ?st
          = Some (take (out + 1) ?m @ strip ?st ?c (take (len - Suc i) (drop (Suc i) m)) @ NUL # r)"
        by auto
      moreover have "take (out + 1) ?m = take out m @ [?c]"
        using 1(3-) True by (simp add: take_Suc_conv_app_nth)
      moreover have "strip_loop len m i out st = strip_loop len ?m (i + 1) (out + 1) ?st"
        by (subst strip_loop.simps) (simp only: True pk nws st po if_True if_False option.case)
      moreover have "strip st p (?c # cs) = ?c # strip (if ?c = DQ then st \<longrightarrow> p = BSL else st) ?c cs" for p cs
        by (simp only: strip.simps nws if_False)
      ultimately show ?thesis unfolding s by simp
    qed
  qed
qed

lemma strip_memory:
  assumes "nul_free t"
  shows "\<exists>r. json_strip_white_spaces (t @ NUL # m) = Some (strip False NUL t @ NUL # r)"
  using strip_loop_spec [of 0 0 "length t" "t @ NUL # m" False] assms
    strip_outside [of "(t @ NUL # m) ! (0 - 1)" t NUL]
  by (simp add: json_strip_white_spaces_def)

text \<open>
  \<open>json_strip_white_spaces\<close> stays inside the memory of its string and leaves in it the
  characters that are inside a string or not white space; a second call changes nothing.
\<close>

theorem strip_white_spaces_idem:
  assumes "nul_free t"
  shows "\<exists>m1 m2. json_strip_white_spaces (t @ NUL # m) = Some m1 \<and> c_str m1 = strip False NUL t
    \<and> json_strip_white_spaces m1 = Some m2 \<and> c_str m2 = c_str m1"
proof -
  have n: "nul_free (strip False NUL t)" using assms by (rule strip_nul_free)
  obtain r where r: "json_strip_white_spaces (t @ NUL # m) = Some (strip False NUL t @ NUL # r)"
    using strip_memory [OF assms] by blast
  obtain r2 where "json_strip_white_spaces (strip False NUL t @ NUL # r)
      = Some (strip False NUL (strip False NUL t) @ NUL # r2)"
    using strip_memory [OF n] by blast
  with r n show ?thesis by (simp add: strip_idem)
qed

theorem strip_white_spaces_idem_witness:
  "\<exists>m1 m2. json_strip_white_spaces ([CHR ''{'', CHR 0x20, DQ, CHR 0x20, DQ, CHR 0x0A, CHR ''}''] @ NUL # []) = Some m1
    \<and> c_str m1 = strip False NUL [CHR ''{'', CHR 0x20, DQ, CHR 0x20, DQ, CHR 0x0A, CHR ''}'']
    \<and> json_strip_white_spaces m1 = Some m2 \<and> c_str m2 = c_str m1"
  by (rule strip_white_spaces_idem) simp

section \<open>Formatting adds white space only\<close>

text \<open>What is appended, for a document without backslashes; \<open>st\<close> inside a JSON string.\<close>

fun fmt :: "bool \<Rightarrow> u32 \<Rightarrow> char list \<Rightarrow> char list" where
  "fmt st ind [] = []"
| "fmt st ind (c # cs) =
     (if st then c # fmt (c \<noteq> DQ) ind cs
      else if is_ws c then fmt False ind cs
      else if c = CHR ''{'' then [c, CHR 0x0A] @ replicate (unat (ind + 1)) (CHR 0x09) @ fmt False (ind + 1) cs
      else if c = CHR ''}'' then CHR 0x0A # replicate (unat (ind - 1)) (CHR 0x09) @ c # fmt False (ind - 1) cs
      else if c = CHR '':'' then [c, CHR 0x20] @ fmt False ind cs
      else if c = CHR '','' then [c, CHR 0x0A] @ replicate (unat ind) (CHR 0x09) @ fmt False ind cs
      else c # fmt (c = DQ) ind cs)"

lemma catc_tabs_holds: "rcs_holds r s \<Longrightarrow> \<exists>r'. catc_tabs n r = Some r' \<and> rcs_holds r' (s @ replicate n (CHR 0x09))"
proof (induction n arbitrary: r s)
  case (Suc n)
  obtain r1 where "rcs_catc r (CHR 0x09) = Some r1" "rcs_holds r1 (s @ [CHR 0x09])"
    using rcs.addE [OF Suc.prems] .
  with Suc.IH [of r1 "s @ [CHR 0x09]"] show ?case by (simp add: replicate_app_Cons_same)
qed simp

text \<open>The inner loop appends up to the closing quote, the end, or the nul byte behind the end.\<close>

lemma format_in_string_holds:
  assumes "rcs_holds r a" "p \<le> length s" "BSL \<notin> set s" "nul_free s" "nul_free a"
  shows "\<exists>p' r' b. format_in_string s p r = Some (p', r') \<and> rcs_holds r' b \<and> p < p'
    \<and> (p' \<le> length s \<longrightarrow> nul_free b \<and> b @ fmt False ind (drop p' s) = a @ fmt True ind (drop p s))
    \<and> (length s < p' \<longrightarrow> c_str b = a @ fmt True ind (drop p s))"
  using assms
proof (induction s p r arbitrary: a rule: format_in_string.induct)
  case (1 s p r)
  show ?case
  proof (cases "p < length s")
    case True
    let ?c = "s ! p"
    have c: "?c \<noteq> BSL" "?c \<noteq> NUL" using 1(4,5) nth_mem [OF True] unfolding nul_free_def by metis+
    obtain r1 where r1: "rcs_catc r ?c = Some r1" "rcs_holds r1 (a @ [?c])" using rcs.addE [OF 1(2)] .
    have f: "format_string_char s p r = Some (p, r1, ?c \<noteq> DQ)"
      using True c r1 by (simp add: format_string_char_def)
    have d: "drop p s = ?c # drop (p + 1) s" using True by (simp add: Cons_nth_drop_Suc)
    show ?thesis
    proof (cases "?c \<noteq> DQ \<and> p + 1 < length s")
      case more: True
      then obtain p' r' b where *: "format_in_string s (p + 1) r1 = Some (p', r') \<and> rcs_holds r' b \<and> p + 1 < p'
        \<and> (p' \<le> length s \<longrightarrow> nul_free b \<and> b @ fmt False ind (drop p' s) = (a @ [?c]) @ fmt True ind (drop (p + 1) s))
        \<and> (length s < p' \<longrightarrow> c_str b = (a @ [?c]) @ fmt True ind (drop (p + 1) s))"
        using 1(1) [OF f refl refl, of "a @ [?c]"] 1(4-6) c r1 by auto
      have "format_in_string s p r = Some (p', r')"
        using more f * by (subst format_in_string.simps) auto
      with * d more show ?thesis by (intro exI [of _ p'] exI [of _ r'] exI [of _ b]) auto
    next
      case False
      then have "format_in_string s p r = Some (p + 1, r1)"
        by (subst format_in_string.simps) (simp add: f del: de_Morgan_conj)
      with False True d r1 c 1(6) show ?thesis by (cases "?c = DQ") (auto simp: not_less le_Suc_eq)
    qed
  next
    case False
    with 1(3) have p: "p = length s" by simp
    obtain r1 where r1: "rcs_catc r NUL = Some r1" "rcs_holds r1 (a @ [NUL])" using rcs.addE [OF 1(2)] .
    have "format_in_string s p r = Some (p + 1, r1)"
      by (subst format_in_string.simps) (simp add: p format_string_char_def r1)
    with r1 p 1(6) show ?thesis by auto
  qed
qed

text \<open>The text one round of the outer loop appends outside a string, and the indentation after it.\<close>

definition fmt_head :: "u32 \<Rightarrow> char \<Rightarrow> char list \<times> u32" where
  "fmt_head ind c =
     (if is_ws c then ([], ind)
      else if c = CHR ''{'' then ([c, CHR 0x0A] @ replicate (unat (ind + 1)) (CHR 0x09), ind + 1)
      else if c = CHR ''}'' then (CHR 0x0A # replicate (unat (ind - 1)) (CHR 0x09) @ [c], ind - 1)
      else if c = CHR '':'' then ([c, CHR 0x20], ind)
      else if c = CHR '','' then ([c, CHR 0x0A] @ replicate (unat ind) (CHR 0x09), ind)
      else ([c], ind))"

lemma fmt_head: "c \<noteq> DQ \<Longrightarrow> fmt False ind (c # cs) = fst (fmt_head ind c) @ fmt False (snd (fmt_head ind c)) cs"
  by (simp add: fmt_head_def)

lemma fmt_head_nul_free: "c \<noteq> NUL \<Longrightarrow> nul_free (fst (fmt_head ind c))"
  by (auto simp: fmt_head_def nul_free_def)

lemma format_loop_head:
  assumes "rcs_holds r a" "p < length s" "s ! p \<noteq> DQ"
  shows "\<exists>r1. rcs_holds r1 (a @ fst (fmt_head ind (s ! p)))
    \<and> format_loop s p ind r = format_loop s (p + 1) (snd (fmt_head ind (s ! p))) r1"
proof -
  let ?c = "s ! p"
  have tabs: "\<exists>r1. (do { r1 \<leftarrow> rcs_catcs r t 2; catc_tabs n r1 }) = Some r1
      \<and> rcs_holds r1 (a @ t @ replicate n (CHR 0x09))" if "length t = 2" for t n
  proof -
    from that have n: "2 = length t" by simp
    obtain r1 where r1: "rcs_catcs r t 2 = Some r1" "rcs_holds r1 (a @ t)"
      using rcs.addsE [OF assms(1) n] .
    with catc_tabs_holds [OF r1(2), of n] show ?thesis by auto
  qed
  have close: "\<exists>r1. (do { r1 \<leftarrow> rcs_catc r x; r2 \<leftarrow> catc_tabs n r1; rcs_catc r2 y }) = Some r1
      \<and> rcs_holds r1 (a @ x # replicate n (CHR 0x09) @ [y])" for x y n
  proof -
    obtain r1 where r1: "rcs_catc r x = Some r1" "rcs_holds r1 (a @ [x])" using rcs.addE [OF assms(1)] .
    obtain r2 where r2: "catc_tabs n r1 = Some r2" "rcs_holds r2 ((a @ [x]) @ replicate n (CHR 0x09))"
      using catc_tabs_holds [OF r1(2)] by blast
    obtain r3 where r3: "rcs_catc r2 y = Some r3" "rcs_holds r3 (((a @ [x]) @ replicate n (CHR 0x09)) @ [y])"
      using rcs.addE [OF r2(2)] .
    with r1 r2 show ?thesis by simp
  qed
  note fl = format_loop.simps [of s p ind r]
  consider (ws) "is_ws ?c" | (brace) "?c = CHR ''{''" | (unbrace) "?c = CHR ''}''" | (colon) "?c = CHR '':''"
    | (comma) "?c = CHR '',''" | (other) "\<not> is_ws ?c" "?c \<notin> set ''{}:,''" by auto
  then show ?thesis
  proof cases
    case ws
    with assms show ?thesis by (auto simp: fl fmt_head_def)
  next
    case brace
    with tabs [of "[?c, CHR 0x0A]" "unat (ind + 1)"] assms(2) show ?thesis
      by (auto simp: fl fmt_head_def is_ws_def)
  next
    case unbrace
    with close [of "CHR 0x0A" "unat (ind - 1)" ?c] assms(2) show ?thesis
      by (auto simp: fl fmt_head_def is_ws_def)
  next
    case colon
    with tabs [of "[?c, CHR 0x20]" 0] assms(2) show ?thesis by (auto simp: fl fmt_head_def is_ws_def)
  next
    case comma
    with tabs [of "[?c, CHR 0x0A]" "unat ind"] assms(2) show ?thesis
      by (auto simp: fl fmt_head_def is_ws_def)
  next
    case other
    with rcs.add_holds [OF assms(1), of ?c] assms(2,3) show ?thesis
      by (auto simp: fl fmt_head_def Let_def)
  qed
qed

lemma format_loop_holds:
  assumes "rcs_holds r a" "BSL \<notin> set s" "nul_free s" "nul_free a"
  shows "\<exists>r' b. format_loop s p ind r = Some r' \<and> rcs_holds r' b \<and> c_str b = a @ fmt False ind (drop p s)"
  using assms(1,4)
proof (induction "length s - p" arbitrary: p ind r a rule: less_induct)
  case less
  show ?case
  proof (cases "p < length s")
    case False
    with less.prems show ?thesis by (subst format_loop.simps) auto
  next
    case True
    let ?c = "s ! p"
    have d: "drop p s = ?c # drop (p + 1) s" using True by (simp add: Cons_nth_drop_Suc)
    have c: "?c \<noteq> NUL" using assms(3) nth_mem [OF True] unfolding nul_free_def by metis
    show ?thesis
    proof (cases "?c = DQ")
      case False
      obtain r1 where "rcs_holds r1 (a @ fst (fmt_head ind ?c))"
        and s: "format_loop s p ind r = format_loop s (p + 1) (snd (fmt_head ind ?c)) r1"
        using format_loop_head [OF less.prems(1) True False] by blast
      then have "\<exists>r' b. format_loop s (p + 1) (snd (fmt_head ind ?c)) r1 = Some r' \<and> rcs_holds r' b
        \<and> c_str b = (a @ fst (fmt_head ind ?c)) @ fmt False (snd (fmt_head ind ?c)) (drop (p + 1) s)"
        using True less.prems(2) fmt_head_nul_free [OF c] by (intro less.hyps) auto
      then show ?thesis unfolding d fmt_head [OF False] s by simp
    next
      case dq: True
      obtain r1 where r1: "rcs_catc r DQ = Some r1" "rcs_holds r1 (a @ [DQ])"
        using rcs.addE [OF less.prems(1)] .
      obtain p' r' b where f: "format_in_string s (p + 1) r1 = Some (p', r')" "rcs_holds r' b" "p + 1 < p'"
        and b: "p' \<le> length s \<Longrightarrow> nul_free b \<and> b @ fmt False ind (drop p' s) = (a @ [DQ]) @ fmt True ind (drop (p + 1) s)"
          "length s < p' \<Longrightarrow> c_str b = (a @ [DQ]) @ fmt True ind (drop (p + 1) s)"
        using format_in_string_holds [OF r1(2) _ assms(2,3), of "p + 1" ind] True less.prems(2) by auto
      have s: "format_loop s p ind r = format_loop s p' ind r'"
        using True dq r1 f by (subst format_loop.simps) (simp add: is_ws_def)
      have e: "a @ fmt False ind (drop p s) = (a @ [DQ]) @ fmt True ind (drop (p + 1) s)"
        unfolding d dq by (simp add: is_ws_def)
      show ?thesis
      proof (cases "p' \<le> length s")
        case p': True
        with b f True have "\<exists>r'' b'. format_loop s p' ind r' = Some r'' \<and> rcs_holds r'' b'
          \<and> c_str b' = b @ fmt False ind (drop p' s)"
          by (intro less.hyps) auto
        then show ?thesis using b(1) [OF p'] e s by simp
      next
        case False
        then have "format_loop s p' ind r' = Some r'" by (subst format_loop.simps) simp
        then show ?thesis unfolding s e using f(2) b(2) False by auto
      qed
    qed
  qed
qed

text \<open>Outside a string the character before does not matter.\<close>

definition outside :: "char list \<Rightarrow> char list" where
  "outside = strip False NUL"

lemma strip_False: "strip False p cs = outside cs"
  unfolding outside_def by (rule strip_outside)

lemma outside_Cons:
  "outside (c # cs) = (if is_ws c then outside cs else c # (if c = DQ then strip True DQ cs else outside cs))"
  by (simp add: outside_def strip_outside [of c _ NUL])

lemma outside_tabs: "outside (replicate n (CHR 0x09) @ cs) = outside cs"
  by (induction n) (simp_all add: outside_Cons is_ws_def)

lemma outside_head:
  "c \<noteq> DQ \<Longrightarrow> outside (fst (fmt_head ind c) @ cs) = (if is_ws c then outside cs else c # outside cs)"
  by (simp add: fmt_head_def outside_Cons outside_tabs) (auto simp: is_ws_def)

lemma fmt_quote: "fmt False ind (DQ # cs) = DQ # fmt True ind cs"
  by (simp add: is_ws_def)

lemma strip_fmt: "BSL \<notin> set cs \<Longrightarrow> st \<longrightarrow> p \<noteq> BSL \<Longrightarrow> strip st p (fmt st ind cs) = strip st p cs"
proof (induction cs arbitrary: st p ind)
  case (Cons c cs)
  then have IH: "st \<longrightarrow> q \<noteq> BSL \<Longrightarrow> strip st q (fmt st i cs) = strip st q cs" for q i st
    by simp
  show ?case
  proof (cases st)
    case True
    with Cons.prems show ?thesis by (auto simp: IH)
  next
    case False
    then show ?thesis
      using IH [of True DQ ind] IH [of False NUL "snd (fmt_head ind c)"]
      by (cases "c = DQ") (simp_all add: strip_False outside_Cons fmt_head fmt_quote outside_head is_ws_def del: fmt.simps(2) strip.simps(2))
  qed
qed simp



end
