(* ===== verification/JsonLex.thy ===== *)
theory JsonLex
  imports RcString
begin

text \<open>
  The resumable lexer of \<open>src/ServerEngine/mjson/json.c\<close>: one definition per state of its switch,
  a loop over the bytes left, and what it does on the tokens of JSON.  The pointer \<open>*p\<close> into the
  buffer is the list of the bytes it points to, the null pointer is \<open>None\<close>.
\<close>

section \<open>The code\<close>

datatype lex_value =
  LEX_MORE | LEX_INVALID_CHARACTER | LEX_TRUE | LEX_FALSE | LEX_NULL | LEX_BEGIN_OBJECT | LEX_END_OBJECT
  | LEX_BEGIN_ARRAY | LEX_END_ARRAY | LEX_NAME_SEPARATOR | LEX_VALUE_SEPARATOR | LEX_STRING | LEX_NUMBER
  | LEX_ERROR | LEX_MEMORY

text \<open>\<open>*state\<close>, \<open>*text\<close> and \<open>*line\<close>.\<close>

record lex_info =
  lex_state :: nat
  lex_text :: "rcstring option"
  line :: nat

text \<open>
  What one round of the loop does with the byte \<open>*p\<close>: go on behind it, return a token behind it
  or in front of it, or fail an assertion or a store.
\<close>

datatype lex_step = Go lex_info | Token_behind lex_value lex_info | Token_at lex_value lex_info | Lex_undefined

definition goto_state :: "nat \<Rightarrow> lex_info \<Rightarrow> lex_info" where
  "goto_state s x = x\<lparr>lex_state := s\<rparr>"

definition new_text :: "lex_info \<Rightarrow> lex_info" where
  "new_text x = x\<lparr>lex_text := Some (rcs_create RSTRING_DEFAULT)\<rparr>"

text \<open>\<open>assert (*text != NULL)\<close>, and \<open>rcs_catc (*text, c)\<close>.\<close>

definition need_text :: "lex_info \<Rightarrow> lex_step \<Rightarrow> lex_step" where
  "need_text x k = (if lex_text x = None then Lex_undefined else k)"

definition catc :: "char \<Rightarrow> lex_info \<Rightarrow> (lex_info \<Rightarrow> lex_step) \<Rightarrow> lex_step" where
  "catc c x k =
     (case lex_text x of
        None \<Rightarrow> Lex_undefined
      | Some r \<Rightarrow> (case rcs_catc r c of None \<Rightarrow> Lex_undefined | Some r' \<Rightarrow> k (x\<lparr>lex_text := Some r'\<rparr>)))"

definition is_digit :: "char \<Rightarrow> bool" where
  "is_digit c \<longleftrightarrow> 48 \<le> ord c \<and> ord c \<le> 57"

definition is_hex :: "char \<Rightarrow> bool" where
  "is_hex c \<longleftrightarrow> is_digit c \<or> (97 \<le> ord c \<and> ord c \<le> 102) \<or> (65 \<le> ord c \<and> ord c \<le> 70)"

definition is_exp :: "char \<Rightarrow> bool" where
  "is_exp c \<longleftrightarrow> c = CHR ''e'' \<or> c = CHR ''E''"

definition is_blank :: "char \<Rightarrow> bool" where
  "is_blank c \<longleftrightarrow> c = CHR 0x20 \<or> c = CHR 0x09 \<or> c = CHR 0x0A \<or> c = CHR 0x0D"

text \<open>Case 0: the root document.\<close>

definition lex_root :: "char \<Rightarrow> lex_info \<Rightarrow> lex_step" where
  "lex_root c x =
     (if c = CHR 0x20 \<or> c = CHR 0x09 then Go x
      else if c = CHR 0x0A \<or> c = CHR 0x0D then Go (x\<lparr>line := line x + 1\<rparr>)
      else if c = CHR ''{'' then Token_behind LEX_BEGIN_OBJECT x
      else if c = CHR ''}'' then Token_behind LEX_END_OBJECT x
      else if c = CHR ''['' then Token_behind LEX_BEGIN_ARRAY x
      else if c = CHR '']'' then Token_behind LEX_END_ARRAY x
      else if c = CHR '':'' then Token_behind LEX_NAME_SEPARATOR x
      else if c = CHR '','' then Token_behind LEX_VALUE_SEPARATOR x
      else if c = DQ then Go (goto_state 1 (new_text x))
      else if c = CHR ''t'' then Go (goto_state 7 x)
      else if c = CHR ''f'' then Go (goto_state 10 x)
      else if c = CHR ''n'' then Go (goto_state 14 x)
      else if c = CHR ''-'' then catc c (new_text x) (\<lambda>x. Go (goto_state 17 x))
      else if c = CHR ''0'' then catc c (new_text x) (\<lambda>x. Go (goto_state 18 x))
      else if is_digit c then catc c (new_text x) (\<lambda>x. Go (goto_state 19 x))
      else Token_behind LEX_INVALID_CHARACTER x)"

text \<open>Case 1: inside a string; case 2: behind a backslash; cases 3 to 6: the four hexadecimal digits.\<close>

definition lex_string :: "char \<Rightarrow> lex_info \<Rightarrow> lex_step" where
  "lex_string c x = need_text x
     (if ord c < 32 then Token_at LEX_INVALID_CHARACTER x
      else if c = DQ then Token_behind LEX_STRING (goto_state 0 x)
      else if c = BSL then catc c x (\<lambda>x. Go (goto_state 2 x))
      else catc c x Go)"

definition lex_escape :: "char \<Rightarrow> lex_info \<Rightarrow> lex_step" where
  "lex_escape c x = need_text x
     (if c \<in> set ([BSL, DQ] @ ''/bfnrt'') then catc c x (\<lambda>x. Go (goto_state 1 x))
      else if c = CHR ''u'' then catc c x (\<lambda>x. Go (goto_state 3 x))
      else Token_at LEX_INVALID_CHARACTER x)"

definition lex_hex :: "nat \<Rightarrow> char \<Rightarrow> lex_info \<Rightarrow> lex_step" where
  "lex_hex s c x = need_text x
     (if is_hex c then catc c x (\<lambda>x. Go (goto_state s x)) else Token_at LEX_INVALID_CHARACTER x)"

text \<open>Cases 7 to 16: the words \<open>true\<close>, \<open>false\<close> and \<open>null\<close>.\<close>

definition lex_word :: "char \<Rightarrow> lex_step \<Rightarrow> char \<Rightarrow> lex_info \<Rightarrow> lex_step" where
  "lex_word d k c x = (if c = d then k else Token_behind LEX_INVALID_CHARACTER x)"

text \<open>Cases 17 to 24: numbers; white space behind a number is consumed, a bracket or comma is not.\<close>

definition number_end :: "char \<Rightarrow> lex_info \<Rightarrow> lex_step \<Rightarrow> lex_step" where
  "number_end c x k =
     (if is_blank c then Token_behind LEX_NUMBER (goto_state 0 x)
      else if c = CHR '']'' \<or> c = CHR ''}'' \<or> c = CHR '','' then Token_at LEX_NUMBER (goto_state 0 x)
      else k)"

definition lex_minus :: "char \<Rightarrow> lex_info \<Rightarrow> lex_step" where
  "lex_minus c x = need_text x
     (if c = CHR ''0'' then catc c x (\<lambda>x. Go (goto_state 18 x))
      else if is_digit c then catc c x (\<lambda>x. Go (goto_state 19 x))
      else Token_at LEX_INVALID_CHARACTER x)"

definition lex_zero :: "char \<Rightarrow> lex_info \<Rightarrow> lex_step" where
  "lex_zero c x = need_text x (number_end c x
     (if c = CHR ''.'' then catc c x (\<lambda>x. Go (goto_state 20 x))
      else if is_exp c then catc c x (\<lambda>x. Go (goto_state 22 x))
      else Token_at LEX_INVALID_CHARACTER x))"

definition lex_int :: "char \<Rightarrow> lex_info \<Rightarrow> lex_step" where
  "lex_int c x = need_text x (number_end c x
     (if c = CHR ''.'' then catc c x (\<lambda>x. Go (goto_state 20 x))
      else if is_exp c then catc c x (\<lambda>x. Go (goto_state 22 x))
      else if is_digit c then catc c x Go
      else Token_at LEX_INVALID_CHARACTER x))"

definition lex_frac_start :: "char \<Rightarrow> lex_info \<Rightarrow> lex_step" where
  "lex_frac_start c x = need_text x
     (if is_digit c then catc c x (\<lambda>x. Go (goto_state 21 x)) else Token_at LEX_INVALID_CHARACTER x)"

definition lex_frac :: "char \<Rightarrow> lex_info \<Rightarrow> lex_step" where
  "lex_frac c x = need_text x (number_end c x
     (if is_exp c then catc c x (\<lambda>x. Go (goto_state 22 x))
      else if is_digit c then catc c x Go
      else Token_at LEX_INVALID_CHARACTER x))"

definition lex_exp_start :: "char \<Rightarrow> lex_info \<Rightarrow> lex_step" where
  "lex_exp_start c x = need_text x
     (if c = CHR ''-'' \<or> c = CHR ''+'' then catc c x (\<lambda>x. Go (goto_state 23 x))
      else if is_digit c then catc c x (\<lambda>x. Go (goto_state 24 x))
      else Token_at LEX_INVALID_CHARACTER x)"

definition lex_exp_sign :: "char \<Rightarrow> lex_info \<Rightarrow> lex_step" where
  "lex_exp_sign c x = need_text x
     (if is_digit c then catc c x (\<lambda>x. Go (goto_state 24 x)) else Token_at LEX_INVALID_CHARACTER x)"

definition lex_exp :: "char \<Rightarrow> lex_info \<Rightarrow> lex_step" where
  "lex_exp c x = need_text x (number_end c x
     (if is_digit c then catc c x Go else Token_at LEX_INVALID_CHARACTER x))"

definition lex_char :: "char \<Rightarrow> lex_info \<Rightarrow> lex_step" where
  "lex_char c x =
     (let s = lex_state x; to = (\<lambda>n. Go (goto_state n x)) in
      if s = 0 then lex_root c x
      else if s = 1 then lex_string c x
      else if s = 2 then lex_escape c x
      else if s = 3 then lex_hex 4 c x
      else if s = 4 then lex_hex 5 c x
      else if s = 5 then lex_hex 6 c x
      else if s = 6 then lex_hex 1 c x
      else if s = 7 then lex_word (CHR ''r'') (to 8) c x
      else if s = 8 then lex_word (CHR ''u'') (to 9) c x
      else if s = 9 then lex_word (CHR ''e'') (Token_behind LEX_TRUE (goto_state 0 x)) c x
      else if s = 10 then lex_word (CHR ''a'') (to 11) c x
      else if s = 11 then lex_word (CHR ''l'') (to 12) c x
      else if s = 12 then lex_word (CHR ''s'') (to 13) c x
      else if s = 13 then lex_word (CHR ''e'') (Token_behind LEX_FALSE (goto_state 0 x)) c x
      else if s = 14 then lex_word (CHR ''u'') (to 15) c x
      else if s = 15 then lex_word (CHR ''l'') (to 16) c x
      else if s = 16 then lex_word (CHR ''l'') (Token_behind LEX_NULL (goto_state 0 x)) c x
      else if s = 17 then lex_minus c x
      else if s = 18 then lex_zero c x
      else if s = 19 then lex_int c x
      else if s = 20 then lex_frac_start c x
      else if s = 21 then lex_frac c x
      else if s = 22 then lex_exp_start c x
      else if s = 23 then lex_exp_sign c x
      else if s = 24 then lex_exp c x
      else Token_at LEX_INVALID_CHARACTER x)"

text \<open>\<open>while (**p != '\0')\<close>: the token, \<open>*p\<close> and the lexer state it returns with.\<close>

fun lexer :: "char list \<Rightarrow> lex_info \<Rightarrow> (lex_value \<times> char list option \<times> lex_info) option" where
  "lexer [] x = Some (LEX_MORE, None, x)"
| "lexer (c # cs) x =
     (case lex_char c x of
        Go y \<Rightarrow> lexer cs y
      | Token_behind v y \<Rightarrow> Some (v, Some cs, y)
      | Token_at v y \<Rightarrow> Some (v, Some (c # cs), y)
      | Lex_undefined \<Rightarrow> None)"

section \<open>Every call ends and consumes something\<close>

lemmas lex_defs = lex_root_def lex_string_def lex_escape_def lex_hex_def lex_word_def lex_minus_def
  lex_zero_def lex_int_def lex_frac_start_def lex_frac_def lex_exp_start_def lex_exp_sign_def lex_exp_def

text \<open>A byte that is not consumed ends a number or is invalid.\<close>

definition progress :: "lex_info \<Rightarrow> lex_step \<Rightarrow> bool" where
  "progress x st = (case st of
      Token_behind v y \<Rightarrow> v \<noteq> LEX_MORE \<and> (v \<noteq> LEX_INVALID_CHARACTER \<longrightarrow> lex_state y = 0)
    | Token_at v y \<Rightarrow> v \<noteq> LEX_MORE \<and> (v \<noteq> LEX_INVALID_CHARACTER \<longrightarrow> lex_state x \<noteq> 0 \<and> lex_state y = 0)
    | _ \<Rightarrow> True)"

lemma progress_simps [simp]:
  "progress x (Go y)" "progress x Lex_undefined"
  "progress x (Token_behind v y) \<longleftrightarrow> v \<noteq> LEX_MORE \<and> (v \<noteq> LEX_INVALID_CHARACTER \<longrightarrow> lex_state y = 0)"
  "progress x (Token_at v y) \<longleftrightarrow> v \<noteq> LEX_MORE \<and> (v \<noteq> LEX_INVALID_CHARACTER \<longrightarrow> lex_state x \<noteq> 0 \<and> lex_state y = 0)"
  "progress x (catc c z (\<lambda>x. Go (f x)))" "progress x (catc c z Go)"
  "progress x (need_text z k) \<longleftrightarrow> (lex_text z \<noteq> None \<longrightarrow> progress x k)"
  "lex_state (goto_state n z) = n"
  by (simp_all add: progress_def catc_def need_text_def goto_state_def split: option.splits)

lemma progress_number [simp]: "lex_state x \<noteq> 0 \<Longrightarrow> progress x (number_end c y k) \<longleftrightarrow>
    (is_blank c \<or> c = CHR '']'' \<or> c = CHR ''}'' \<or> c = CHR '','' \<or> progress x k)"
  by (simp add: number_end_def)

lemma progress_states:
  "lex_state x = 0 \<Longrightarrow> progress x (lex_root c x)" "progress x (lex_string c x)" "progress x (lex_escape c x)"
  "progress x (lex_hex n c x)" "progress x k \<Longrightarrow> progress x (lex_word d k c x)" "progress x (lex_minus c x)"
  "progress x (lex_frac_start c x)" "progress x (lex_exp_start c x)" "progress x (lex_exp_sign c x)"
  "lex_state x \<noteq> 0 \<Longrightarrow> progress x (lex_zero c x)" "lex_state x \<noteq> 0 \<Longrightarrow> progress x (lex_int c x)"
  "lex_state x \<noteq> 0 \<Longrightarrow> progress x (lex_frac c x)" "lex_state x \<noteq> 0 \<Longrightarrow> progress x (lex_exp c x)"
  by (simp_all add: lex_defs)

lemma lex_char_progress: "progress x (lex_char c x)"
  unfolding lex_char_def Let_def by (simp add: progress_states)

lemma lexer_progress:
  "lexer s x = Some (v, p, y) \<Longrightarrow>
     (v = LEX_MORE \<longleftrightarrow> p = None) \<and> (v \<noteq> LEX_MORE \<and> v \<noteq> LEX_INVALID_CHARACTER \<longrightarrow> lex_state y = 0
       \<and> (length (the p) < length s \<or> length (the p) = length s \<and> lex_state x \<noteq> 0))"
proof (induction s x rule: lexer.induct)
  case (2 c cs x)
  from lex_char_progress [of x c] 2 show ?case
    by (auto split: lex_step.splits)
qed auto

section \<open>Safety\<close>

text \<open>The lexer is in state \<open>n\<close> and its text holds \<open>a\<close>.\<close>

definition in_state :: "nat \<Rightarrow> char list \<Rightarrow> lex_info \<Rightarrow> bool" where
  "in_state n a x \<longleftrightarrow> lex_state x = n \<and> (\<exists>r. lex_text x = Some r \<and> rcs_holds r a)"

text \<open>In the states of strings and numbers there is a text.\<close>

definition lex_ok :: "lex_info \<Rightarrow> bool" where
  "lex_ok x \<longleftrightarrow> lex_state x \<in> {1..6} \<union> {17..24} \<longrightarrow> (\<exists>a. in_state (lex_state x) a x)"

text \<open>A step from a state that is fine: to a state that is fine, with the text of its token.\<close>

definition safe :: "lex_step \<Rightarrow> bool" where
  "safe st = (case st of
      Go y \<Rightarrow> lex_ok y
    | Token_behind v y \<Rightarrow> v = LEX_STRING \<or> v = LEX_NUMBER \<longrightarrow> (\<exists>a. in_state 0 a y)
    | Token_at v y \<Rightarrow> v = LEX_STRING \<or> v = LEX_NUMBER \<longrightarrow> (\<exists>a. in_state 0 a y)
    | Lex_undefined \<Rightarrow> False)"

lemma in_state_goto [simp]: "in_state n a x \<Longrightarrow> in_state m a (goto_state m x)"
  by (auto simp: in_state_def goto_state_def)

lemma in_state_new [simp]: "in_state (lex_state x) [] (new_text x)"
  by (simp add: in_state_def new_text_def rcs.new_holds)

lemma catc_in_state:
  assumes "in_state n a x"
  obtains y where "\<And>k. catc c x k = k y" "in_state n (a @ [c]) y" "line y = line x"
proof -
  obtain r where r: "lex_text x = Some r" "rcs_holds r a" "lex_state x = n" using assms by (auto simp: in_state_def)
  obtain r' where r': "rcs_catc r c = Some r'" "rcs_holds r' (a @ [c])" using rcs.addE [OF r(2)] .
  show ?thesis
    by (rule that [of "x\<lparr>lex_text := Some r'\<rparr>"]) (use r r' in \<open>simp_all add: catc_def in_state_def\<close>)
qed

lemma lex_ok_in_state: "in_state n a x \<Longrightarrow> lex_ok x"
  by (auto simp: lex_ok_def in_state_def)

lemma safe_catc:
  assumes "in_state n a x"
  shows "safe (catc c x (\<lambda>x. Go (goto_state m x)))" "safe (catc c x Go)"
proof -
  obtain y where y: "\<And>k. catc c x k = k y" "in_state n (a @ [c]) y" using catc_in_state [OF assms, of c] by blast
  then show "safe (catc c x (\<lambda>x. Go (goto_state m x)))" "safe (catc c x Go)"
    by (auto simp: safe_def intro: lex_ok_in_state in_state_goto)
qed

lemma safe_simps:
  "safe (Go x) = lex_ok x"
  "safe (Token_behind v y) \<longleftrightarrow> (v = LEX_STRING \<or> v = LEX_NUMBER \<longrightarrow> (\<exists>a. in_state 0 a y))"
  "safe (Token_at v y) \<longleftrightarrow> (v = LEX_STRING \<or> v = LEX_NUMBER \<longrightarrow> (\<exists>a. in_state 0 a y))"
  by (simp_all add: safe_def)

lemma safe_number_end: "in_state n a x \<Longrightarrow> safe k \<Longrightarrow> safe (number_end c x k)"
  by (auto simp: number_end_def safe_simps dest: in_state_goto)

lemma safe_states:
  assumes a: "in_state n a x"
  shows "safe (lex_string c x)" "safe (lex_escape c x)" "safe (lex_hex m c x)" "safe (lex_minus c x)"
    "safe (lex_zero c x)" "safe (lex_int c x)" "safe (lex_frac_start c x)" "safe (lex_frac c x)"
    "safe (lex_exp_start c x)" "safe (lex_exp_sign c x)" "safe (lex_exp c x)"
proof -
  have t: "lex_text x \<noteq> None" using a by (auto simp: in_state_def)
  have e: "\<exists>b. in_state m b (goto_state m x)" for m using in_state_goto [OF a] by blast
  have i: "safe (Token_at LEX_INVALID_CHARACTER x)" by (simp add: safe_simps)
  show "safe (lex_string c x)" "safe (lex_escape c x)" "safe (lex_hex m c x)" "safe (lex_minus c x)"
    "safe (lex_zero c x)" "safe (lex_int c x)" "safe (lex_frac_start c x)" "safe (lex_frac c x)"
    "safe (lex_exp_start c x)" "safe (lex_exp_sign c x)" "safe (lex_exp c x)"
    unfolding lex_defs need_text_def
    by (simp_all add: t i e safe_catc [OF a] safe_number_end [OF a] safe_simps)
qed

lemma safe_root:
  assumes "lex_ok x" "lex_state x = 0"
  shows "safe (lex_root c x)"
proof -
  have n: "safe (catc d (new_text x) (\<lambda>x. Go (goto_state m x)))" for d m
    by (rule safe_catc [OF in_state_new])
  have q: "lex_ok (goto_state 1 (new_text x))"
    by (rule lex_ok_in_state, rule in_state_goto, rule in_state_new)
  have g: "lex_ok (goto_state m x)" if "m \<notin> {1..6} \<union> {17..24}" for m
    using that by (auto simp: lex_ok_def goto_state_def)
  have l: "lex_ok (x\<lparr>line := m\<rparr>)" for m using assms(2) by (simp add: lex_ok_def)
  show ?thesis unfolding lex_root_def using assms n q by (simp add: safe_simps g l)
qed

lemma safe_word: "safe k \<Longrightarrow> safe (lex_word d k c x)"
  by (simp add: lex_word_def safe_simps)

lemma lex_char_safe:
  assumes "lex_ok x"
  shows "safe (lex_char c x)"
proof (cases "lex_state x \<in> {1..6} \<union> {17..24}")
  case True
  then obtain a where a: "in_state (lex_state x) a x" using assms by (auto simp: lex_ok_def)
  show ?thesis
    unfolding lex_char_def Let_def using True by (auto simp: safe_states [OF a])
next
  case False
  have g: "lex_ok (goto_state m x)" if "m \<notin> {1..6} \<union> {17..24}" for m
    using that by (auto simp: lex_ok_def goto_state_def)
  show ?thesis
    unfolding lex_char_def Let_def using False safe_root [OF assms, of c]
    by (auto simp: g safe_simps intro!: safe_word)
qed

lemma lexer_safe:
  "lex_ok x \<Longrightarrow> \<exists>v p y. lexer s x = Some (v, p, y) \<and> (v = LEX_MORE \<longrightarrow> lex_ok y)
    \<and> (v = LEX_STRING \<or> v = LEX_NUMBER \<longrightarrow> (\<exists>a. in_state 0 a y))"
proof (induction s x rule: lexer.induct)
  case (2 c cs x)
  from lex_char_safe [OF 2(2), of c] lex_char_progress [of x c] 2(1) show ?case
    by (auto simp: safe_def split: lex_step.splits)
qed auto

section \<open>The tokens of JSON\<close>

text \<open>The bodies of strings and the numbers, after the grammar of RFC 8259.\<close>

inductive string_body :: "char list \<Rightarrow> bool" where
  body_end: "string_body []"
| body_char: "32 \<le> ord c \<Longrightarrow> c \<noteq> DQ \<Longrightarrow> c \<noteq> BSL \<Longrightarrow> string_body s \<Longrightarrow> string_body (c # s)"
| body_escape: "c \<in> set ([BSL, DQ] @ ''/bfnrt'') \<Longrightarrow> string_body s \<Longrightarrow> string_body (BSL # c # s)"
| body_unicode: "is_hex a \<Longrightarrow> is_hex b \<Longrightarrow> is_hex c \<Longrightarrow> is_hex d \<Longrightarrow> string_body s \<Longrightarrow>
    string_body (BSL # CHR ''u'' # a # b # c # d # s)"

definition digits :: "char list \<Rightarrow> bool" where
  "digits s \<longleftrightarrow> (\<forall>c\<in>set s. is_digit c)"

definition is_int :: "char list \<Rightarrow> bool" where
  "is_int s \<longleftrightarrow> s = ''0'' \<or> (\<exists>d ds. s = d # ds \<and> is_digit d \<and> d \<noteq> CHR ''0'' \<and> digits ds)"

definition is_frac :: "char list \<Rightarrow> bool" where
  "is_frac s \<longleftrightarrow> s = [] \<or> (\<exists>ds. s = CHR ''.'' # ds \<and> ds \<noteq> [] \<and> digits ds)"

definition is_exponent :: "char list \<Rightarrow> bool" where
  "is_exponent s \<longleftrightarrow> s = [] \<or> (\<exists>e sg ds. s = e # sg @ ds \<and> is_exp e \<and> sg \<in> {[], ''-'', ''+''} \<and> ds \<noteq> [] \<and> digits ds)"

definition is_number :: "char list \<Rightarrow> bool" where
  "is_number s \<longleftrightarrow> (\<exists>sg i f e. s = sg @ i @ f @ e \<and> sg \<in> {[], ''-''} \<and> is_int i \<and> is_frac f \<and> is_exponent e)"

text \<open>Reading \<open>s\<close> takes the lexer to state \<open>m\<close> and appends \<open>s\<close> to its text.\<close>

definition reads :: "nat \<Rightarrow> char list \<Rightarrow> nat \<Rightarrow> bool" where
  "reads n s m \<longleftrightarrow> (\<forall>a x r. in_state n a x \<longrightarrow> (\<exists>y. lexer (s @ r) x = lexer r y \<and> in_state m (a @ s) y))"

lemma reads_Nil: "reads n [] n"
  by (auto simp: reads_def)

lemma reads_append: "reads n s m \<Longrightarrow> reads m t k \<Longrightarrow> reads n (s @ t) k"
  unfolding reads_def
proof (intro allI impI)
  fix a x r
  assume s: "\<forall>a x r. in_state n a x \<longrightarrow> (\<exists>y. lexer (s @ r) x = lexer r y \<and> in_state m (a @ s) y)"
    and t: "\<forall>a x r. in_state m a x \<longrightarrow> (\<exists>y. lexer (t @ r) x = lexer r y \<and> in_state k (a @ t) y)"
    and x: "in_state n a x"
  from s x obtain y where y: "lexer (s @ (t @ r)) x = lexer (t @ r) y" "in_state m (a @ s) y" by blast
  from t y(2) obtain z where "lexer (t @ r) y = lexer r z" "in_state k ((a @ s) @ t) z" by blast
  with y(1) show "\<exists>y. lexer ((s @ t) @ r) x = lexer r y \<and> in_state k (a @ s @ t) y" by auto
qed

lemma reads_Cons: "reads n [c] m \<Longrightarrow> reads m t k \<Longrightarrow> reads n (c # t) k"
  using reads_append [of n "[c]" m t k] by simp

lemma readsI:
  assumes "\<And>x. lex_state x = n \<Longrightarrow> lex_text x \<noteq> None \<Longrightarrow> lex_char c x = catc c x (\<lambda>x. Go (goto_state m x))"
  shows "reads n [c] m"
  unfolding reads_def
proof (intro allI impI)
  fix a x r assume a: "in_state n a x"
  obtain y where y: "\<And>k. catc c x k = k y" "in_state n (a @ [c]) y" using catc_in_state [OF a, of c] by blast
  with a assms [of x] show "\<exists>y. lexer ([c] @ r) x = lexer r y \<and> in_state m (a @ [c]) y"
    by (auto simp: in_state_def intro!: exI [of _ "goto_state m y"]) (auto simp: goto_state_def)
qed

lemma goto_self: "lex_state x = n \<Longrightarrow> goto_state n x = x"
  by (simp add: goto_state_def)

lemma catc_self: "catc c x Go = catc c x (\<lambda>y. Go (goto_state (lex_state x) y))"
  by (simp add: catc_def goto_state_def split: option.split)

lemma digit_facts:
  assumes "is_digit c"
  shows "\<not> is_exp c" "c \<noteq> CHR ''.''" "c \<noteq> CHR ''-''" "c \<noteq> CHR ''+''" "number_end c x k = k"
  using assms by (auto simp: is_digit_def is_exp_def number_end_def is_blank_def)

lemma exp_facts:
  assumes "is_exp c"
  shows "\<not> is_digit c" "c \<noteq> CHR ''.''" "number_end c x k = k"
  using assms by (auto simp: is_digit_def is_exp_def number_end_def is_blank_def)

lemma dot_number: "number_end (CHR ''.'') x k = k"
  by (simp add: number_end_def is_blank_def)

lemma lex_char_state:
  "lex_state x = 0 \<Longrightarrow> lex_char c x = lex_root c x" "lex_state x = 1 \<Longrightarrow> lex_char c x = lex_string c x"
  "lex_state x = 2 \<Longrightarrow> lex_char c x = lex_escape c x" "lex_state x = 3 \<Longrightarrow> lex_char c x = lex_hex 4 c x"
  "lex_state x = 4 \<Longrightarrow> lex_char c x = lex_hex 5 c x" "lex_state x = 5 \<Longrightarrow> lex_char c x = lex_hex 6 c x"
  "lex_state x = 6 \<Longrightarrow> lex_char c x = lex_hex 1 c x" "lex_state x = 17 \<Longrightarrow> lex_char c x = lex_minus c x"
  "lex_state x = 18 \<Longrightarrow> lex_char c x = lex_zero c x" "lex_state x = 19 \<Longrightarrow> lex_char c x = lex_int c x"
  "lex_state x = 20 \<Longrightarrow> lex_char c x = lex_frac_start c x" "lex_state x = 21 \<Longrightarrow> lex_char c x = lex_frac c x"
  "lex_state x = 22 \<Longrightarrow> lex_char c x = lex_exp_start c x" "lex_state x = 23 \<Longrightarrow> lex_char c x = lex_exp_sign c x"
  "lex_state x = 24 \<Longrightarrow> lex_char c x = lex_exp c x"
  by (simp_all add: lex_char_def)

lemma lex_char_word:
  "lex_state x = 7 \<Longrightarrow> lex_char c x = lex_word (CHR ''r'') (Go (goto_state 8 x)) c x"
  "lex_state x = 8 \<Longrightarrow> lex_char c x = lex_word (CHR ''u'') (Go (goto_state 9 x)) c x"
  "lex_state x = 9 \<Longrightarrow> lex_char c x = lex_word (CHR ''e'') (Token_behind LEX_TRUE (goto_state 0 x)) c x"
  "lex_state x = 10 \<Longrightarrow> lex_char c x = lex_word (CHR ''a'') (Go (goto_state 11 x)) c x"
  "lex_state x = 11 \<Longrightarrow> lex_char c x = lex_word (CHR ''l'') (Go (goto_state 12 x)) c x"
  "lex_state x = 12 \<Longrightarrow> lex_char c x = lex_word (CHR ''s'') (Go (goto_state 13 x)) c x"
  "lex_state x = 13 \<Longrightarrow> lex_char c x = lex_word (CHR ''e'') (Token_behind LEX_FALSE (goto_state 0 x)) c x"
  "lex_state x = 14 \<Longrightarrow> lex_char c x = lex_word (CHR ''u'') (Go (goto_state 15 x)) c x"
  "lex_state x = 15 \<Longrightarrow> lex_char c x = lex_word (CHR ''l'') (Go (goto_state 16 x)) c x"
  "lex_state x = 16 \<Longrightarrow> lex_char c x = lex_word (CHR ''l'') (Token_behind LEX_NULL (goto_state 0 x)) c x"
  by (simp_all add: lex_char_def)

lemma goto_goto [simp]: "goto_state n (goto_state m x) = goto_state n x"
  by (simp add: goto_state_def)

lemma need_text: "lex_text x \<noteq> None \<Longrightarrow> need_text x k = k"
  by (auto simp: need_text_def)

lemmas char_reads = lex_char_state need_text digit_facts exp_facts dot_number

lemma reads_string:
  "32 \<le> ord c \<Longrightarrow> c \<noteq> DQ \<Longrightarrow> c \<noteq> BSL \<Longrightarrow> reads 1 [c] 1" "reads 1 [BSL] 2"
  "c \<in> set ([BSL, DQ] @ ''/bfnrt'') \<Longrightarrow> reads 2 [c] 1" "reads 2 ''u'' 3"
  "is_hex c \<Longrightarrow> reads 3 [c] 4" "is_hex c \<Longrightarrow> reads 4 [c] 5" "is_hex c \<Longrightarrow> reads 5 [c] 6" "is_hex c \<Longrightarrow> reads 6 [c] 1"
  by (rule readsI; auto simp: char_reads lex_string_def lex_escape_def lex_hex_def catc_self)+

lemma reads_number:
  "is_digit c \<Longrightarrow> c \<noteq> CHR ''0'' \<Longrightarrow> reads 17 [c] 19" "reads 17 ''0'' 18" "is_digit c \<Longrightarrow> reads 19 [c] 19"
  "reads 18 ''.'' 20" "reads 19 ''.'' 20" "is_exp c \<Longrightarrow> reads 18 [c] 22" "is_exp c \<Longrightarrow> reads 19 [c] 22"
  "is_digit c \<Longrightarrow> reads 20 [c] 21" "is_digit c \<Longrightarrow> reads 21 [c] 21" "is_exp c \<Longrightarrow> reads 21 [c] 22"
  "is_digit c \<Longrightarrow> reads 22 [c] 24" "reads 22 ''-'' 23" "reads 22 ''+'' 23"
  "is_digit c \<Longrightarrow> reads 23 [c] 24" "is_digit c \<Longrightarrow> reads 24 [c] 24"
  by (rule readsI; simp add: char_reads lex_minus_def lex_zero_def lex_int_def lex_frac_start_def
      lex_frac_def lex_exp_start_def lex_exp_sign_def lex_exp_def catc_self)+

lemma reads_body: "string_body s \<Longrightarrow> reads 1 s 1"
proof (induction rule: string_body.induct)
  case body_end
  show ?case by (rule reads_Nil)
next
  case (body_char c s)
  then show ?case by (intro reads_Cons [OF reads_string(1)])
next
  case (body_escape c s)
  then show ?case by (intro reads_Cons [OF reads_string(2)] reads_Cons [OF reads_string(3)])
next
  case (body_unicode a b c d s)
  then show ?case
    by (intro reads_Cons [OF reads_string(2)] reads_Cons [OF reads_string(4)] reads_Cons [OF reads_string(5)]
        reads_Cons [OF reads_string(6)] reads_Cons [OF reads_string(7)] reads_Cons [OF reads_string(8)])
qed

lemma reads_digits: "(\<And>c. is_digit c \<Longrightarrow> reads n [c] n) \<Longrightarrow> digits s \<Longrightarrow> reads n s n"
  by (induction s) (auto simp: digits_def intro: reads_Nil reads_Cons)

text \<open>A number, from the state behind its sign to one of the states it may end in.\<close>

lemma reads_exponent:
  assumes "is_exponent e" "n \<in> {18, 19, 21}"
  shows "reads n e n \<or> reads n e 24"
proof (cases "e = []")
  case True
  then show ?thesis by (simp add: reads_Nil)
next
  case False
  with assms(1) obtain x sg ds0 where e0: "e = x # sg @ ds0" "is_exp x" "sg \<in> {[], ''-'', ''+''}"
    "ds0 \<noteq> []" "digits ds0"
    unfolding is_exponent_def by blast
  then obtain d ds where e: "e = x # sg @ d # ds" "is_exp x" "sg \<in> {[], ''-'', ''+''}" "is_digit d" "digits ds"
    by (cases ds0) (auto simp: digits_def)
  have tail: "reads 24 ds 24" using reads_number(15) e(5) by (rule reads_digits)
  have "reads n [x] 22" using assms(2) e(2) reads_number(6,7,10) by auto
  moreover have "reads 22 (d # ds) 24" "reads 23 (d # ds) 24"
    using reads_Cons [OF reads_number(11) [OF e(4)] tail] reads_Cons [OF reads_number(14) [OF e(4)] tail]
    by simp_all
  then have "reads 22 (sg @ d # ds) 24"
    using e(3) reads_Cons [OF reads_number(12)] reads_Cons [OF reads_number(13)] by auto
  ultimately show ?thesis using e(1) reads_Cons [of n x 22 "sg @ d # ds" 24] by simp
qed

lemma reads_frac:
  assumes "is_frac f" "n \<in> {18, 19}"
  shows "reads n f n \<or> reads n f 21"
proof (cases "f = []")
  case True
  then show ?thesis by (simp add: reads_Nil)
next
  case False
  with assms(1) obtain d ds where f: "f = CHR ''.'' # d # ds" "is_digit d" "digits ds"
    by (auto simp: is_frac_def digits_def neq_Nil_conv)
  have "reads 21 ds 21" using reads_number(9) f(3) by (rule reads_digits)
  then have "reads 20 (d # ds) 21" using reads_number(8) [OF f(2)] by (rule reads_Cons [rotated])
  moreover have "reads n ''.'' 20" using assms(2) reads_number(4,5) by auto
  ultimately show ?thesis using f(1) reads_Cons [of n "CHR ''.''" 20 "d # ds" 21] by simp
qed

lemma reads_int:
  assumes "is_int i"
  shows "\<exists>n\<in>{18, 19}. reads 17 i n"
proof (cases "i = ''0''")
  case True
  then show ?thesis using reads_number(2) by auto
next
  case False
  with assms obtain d ds where i: "i = d # ds" "is_digit d" "d \<noteq> CHR ''0''" "digits ds" by (auto simp: is_int_def)
  have "reads 19 ds 19" using reads_number(3) i(4) by (rule reads_digits)
  with i reads_number(1) [of d] reads_Cons [of 17 d 19 ds 19] show ?thesis by auto
qed

lemma reads_unsigned:
  assumes "is_int i" "is_frac f" "is_exponent e"
  shows "\<exists>n\<in>{18, 19, 21, 24}. reads 17 (i @ f @ e) n"
proof -
  obtain n where n: "n \<in> {18, 19}" "reads 17 i n" using reads_int [OF assms(1)] by blast
  obtain m where m: "m \<in> {18, 19, 21}" "reads n f m" using reads_frac [OF assms(2) n(1)] n(1) by blast
  obtain k where k: "k \<in> {18, 19, 21, 24}" "reads m e k" using reads_exponent [OF assms(3) m(1)] m(1) by blast
  from n m k show ?thesis by (blast intro: reads_append)
qed

section \<open>Tokens from the root state\<close>

definition blanks :: "char list \<Rightarrow> bool" where
  "blanks w \<longleftrightarrow> (\<forall>c\<in>set w. is_blank c)"

lemma lexer_blanks:
  "blanks w \<Longrightarrow> lex_state x = 0 \<Longrightarrow> \<exists>y. lexer (w @ r) x = lexer r y \<and> lex_state y = 0"
proof (induction w arbitrary: x)
  case (Cons c w)
  then obtain y where y: "lex_char c x = Go y" "lex_state y = 0"
    by (auto simp: blanks_def is_blank_def lex_char_state lex_root_def)
  from Cons.prems(1) have "blanks w" by (simp add: blanks_def)
  from Cons.IH [OF this y(2)] y(1) show ?case by simp
qed auto

text \<open>A token behind white space.\<close>

lemma lexer_skip:
  assumes "blanks w" "lex_state x = 0"
    and "\<And>x. lex_state x = 0 \<Longrightarrow> \<exists>y. lexer r x = Some (v, q, y) \<and> P y"
  shows "\<exists>y. lexer (w @ r) x = Some (v, q, y) \<and> P y"
  using lexer_blanks [OF assms(1,2), of r] assms(3) by auto

lemma lexer_marks:
  assumes "lex_state x = 0"
  shows "lexer (CHR ''{'' # r) x = Some (LEX_BEGIN_OBJECT, Some r, x)"
    "lexer (CHR ''}'' # r) x = Some (LEX_END_OBJECT, Some r, x)"
    "lexer (CHR ''['' # r) x = Some (LEX_BEGIN_ARRAY, Some r, x)"
    "lexer (CHR '']'' # r) x = Some (LEX_END_ARRAY, Some r, x)"
    "lexer (CHR '':'' # r) x = Some (LEX_NAME_SEPARATOR, Some r, x)"
    "lexer (CHR '','' # r) x = Some (LEX_VALUE_SEPARATOR, Some r, x)"
  using assms by (simp_all add: lex_char_state lex_root_def)

lemma lexer_words:
  assumes "lex_state x = 0"
  shows "lexer (''true'' @ r) x = Some (LEX_TRUE, Some r, x)"
    "lexer (''false'' @ r) x = Some (LEX_FALSE, Some r, x)"
    "lexer (''null'' @ r) x = Some (LEX_NULL, Some r, x)"
  using assms by (simp_all add: lex_char_state lex_char_word lex_root_def lex_word_def goto_self)

lemma lexer_string:
  assumes "string_body s" "lex_state x = 0"
  shows "\<exists>y. lexer (DQ # s @ DQ # r) x = Some (LEX_STRING, Some r, y) \<and> in_state 0 s y"
proof -
  have o: "lex_char DQ x = Go (goto_state 1 (new_text x))"
    using assms(2) by (simp add: lex_char_state lex_root_def)
  have i: "in_state 1 [] (goto_state 1 (new_text x))" by (rule in_state_goto, rule in_state_new)
  obtain y where y: "lexer (s @ DQ # r) (goto_state 1 (new_text x)) = lexer (DQ # r) y" "in_state 1 s y"
    using reads_body [OF assms(1)] i unfolding reads_def by fastforce
  then have "lexer (DQ # r) y = Some (LEX_STRING, Some r, goto_state 0 y)"
    by (auto simp: in_state_def lex_char_state lex_string_def need_text_def)
  with o y in_state_goto [OF y(2), of 0] show ?thesis by simp
qed

text \<open>The first byte of a number is read like the one behind a sign, into a new text.\<close>

lemma digit_root:
  assumes "is_digit c"
  shows "lex_root c x = catc c (new_text x) (\<lambda>x. Go (goto_state (if c = CHR ''0'' then 18 else 19) x))"
proof -
  have "c \<notin> {CHR 0x20, CHR 0x09, CHR 0x0A, CHR 0x0D, CHR ''{'', CHR ''}'', CHR ''['', CHR '']'', CHR '':'',
      CHR '','', DQ, CHR ''t'', CHR ''f'', CHR ''n'', CHR ''-''}"
    using assms by (auto simp: is_digit_def)
  with assms show ?thesis by (simp add: lex_root_def)
qed

lemma lexer_unsigned:
  assumes "is_digit c" "lex_state x = 0"
  shows "lexer (c # r) x = lexer (c # r) (goto_state 17 (new_text x))"
proof -
  have "lex_root c x = lex_minus c (goto_state 17 (new_text x))"
    unfolding digit_root [OF assms(1)] using assms(1)
    by (simp add: lex_minus_def need_text_def catc_def new_text_def goto_state_def split: option.split)
  then show ?thesis using assms(2) by (simp add: lex_char_state)
qed

lemma lexer_number_end:
  assumes "in_state n a x" "n \<in> {18, 19, 21, 24}" "blanks w" "d \<in> {CHR '','', CHR '']'', CHR ''}''}"
  shows "\<exists>y w'. lexer (w @ d # r) x = Some (LEX_NUMBER, Some (w' @ d # r), y) \<and> in_state 0 a y \<and> blanks w'"
proof -
  have t: "lex_text x \<noteq> None" "lex_state x = n" using assms(1) by (auto simp: in_state_def)
  have k: "lex_char c x = number_end c x Lex_undefined" if "is_blank c \<or> c \<in> {CHR '','', CHR '']'', CHR ''}''}" for c
  proof -
    have "number_end c x k = number_end c x Lex_undefined" for k using that by (auto simp: number_end_def)
    from this assms(2) t show ?thesis
      by (auto simp: lex_char_state lex_zero_def lex_int_def lex_frac_def lex_exp_def need_text)
  qed
  have g: "in_state 0 a (goto_state 0 x)" using assms(1) by simp
  show ?thesis
  proof (cases w)
    case Nil
    have "\<not> is_blank d" using assms(4) by (auto simp: is_blank_def)
    with k [of d] assms(4) g Nil show ?thesis by (auto simp: number_end_def blanks_def intro!: exI [of _ "[]"])
  next
    case (Cons b v)
    with assms(3) have "is_blank b" "blanks v" by (auto simp: blanks_def)
    with k [of b] g Cons show ?thesis by (auto simp: number_end_def intro!: exI [of _ v])
  qed
qed

lemma digit_zero: "is_digit (CHR ''0'')"
  by (simp add: is_digit_def)

lemma lexer_number:
  assumes "is_number s" "blanks w" "d \<in> {CHR '','', CHR '']'', CHR ''}''}" "lex_state x = 0"
  shows "\<exists>y w'. lexer (s @ w @ d # r) x = Some (LEX_NUMBER, Some (w' @ d # r), y) \<and> in_state 0 s y \<and> blanks w'"
proof -
  obtain sg i f e where s: "s = sg @ i @ f @ e" "sg \<in> {[], ''-''}" "is_int i" "is_frac f" "is_exponent e"
    using assms(1) unfolding is_number_def by blast
  obtain n where n: "n \<in> {18, 19, 21, 24}" "reads 17 (i @ f @ e) n" using reads_unsigned [OF s(3-5)] by blast
  obtain c i' where i: "i = c # i'" "is_digit c" using s(3) digit_zero unfolding is_int_def by blast
  have "\<exists>y. lexer (s @ w @ d # r) x = lexer (w @ d # r) y \<and> in_state n s y"
  proof (cases "sg = []")
    case True
    have "in_state 17 [] (goto_state 17 (new_text x))" by (rule in_state_goto, rule in_state_new)
    with n(2) obtain y where "lexer ((i @ f @ e) @ w @ d # r) (goto_state 17 (new_text x)) = lexer (w @ d # r) y"
      "in_state n ([] @ i @ f @ e) y" unfolding reads_def by blast
    with True s(1) i lexer_unsigned [OF i(2) assms(4)] show ?thesis by auto
  next
    case False
    obtain y where y: "\<And>k. catc (CHR ''-'') (new_text x) k = k y" "in_state (lex_state x) ([] @ ''-'') y"
      using catc_in_state [OF in_state_new [of x], of "CHR ''-''"] by blast
    then have "in_state 17 ''-'' (goto_state 17 y)" by (auto intro: in_state_goto)
    with n(2) obtain z where "lexer ((i @ f @ e) @ w @ d # r) (goto_state 17 y) = lexer (w @ d # r) z"
      "in_state n (''-'' @ i @ f @ e) z" unfolding reads_def by blast
    with False s(1,2) y(1) assms(4) show ?thesis by (auto simp: lex_char_state lex_root_def)
  qed
  with lexer_number_end [OF _ n(1) assms(2,3)] show ?thesis by fastforce
qed

end
