(* ===== verification/JsonTree.thy ===== *)
theory JsonTree
  imports RcString "HOL-Library.Multiset"
begin

text \<open>
  The document tree of \<open>src/ServerEngine/mjson/json.c\<close> and \<open>json_extends.c\<close>: nodes in a
  store, linked to their parent, their siblings and their first and last child.  Every load
  and store through a pointer is checked: \<open>None\<close> is a failed assertion, a null pointer or a
  pointer to a node that does not exist.  Allocation is assumed to succeed.
  The annotated trees and \<open>rep\<close> say what tree the nodes in a store form; they carry the
  statements about insertion, look-up and printing.
\<close>

section \<open>The data\<close>

datatype json_value_type =
  JSON_STRING | JSON_NUMBER | JSON_OBJECT | JSON_ARRAY | JSON_TRUE | JSON_FALSE | JSON_NULL

datatype json_error =
  JSON_OK | JSON_INCOMPLETE_DOCUMENT | JSON_WAITING_FOR_EOF | JSON_MALFORMED_DOCUMENT
  | JSON_INCOMPATIBLE_TYPE | JSON_MEMORY | JSON_ILLEGAL_CHARACTER | JSON_BAD_TREE_STRUCTURE
  | JSON_MAXIMUM_LENGTH | JSON_UNKNOWN_PROBLEM

type_synonym addr = nat

text \<open>\<open>nextp\<close> is the member \<open>next\<close>, a keyword here.\<close>

record json_t =
  jtype :: json_value_type
  jtext :: "char list option"
  nextp :: "addr option"
  previous :: "addr option"
  parent :: "addr option"
  child :: "addr option"
  child_end :: "addr option"

text \<open>The nodes that exist, and the next address to allocate.\<close>

record store =
  cells :: "addr \<Rightarrow> json_t option"
  fresh :: addr

definition change :: "addr \<Rightarrow> (json_t \<Rightarrow> json_t) \<Rightarrow> store \<Rightarrow> store option" where
  "change a f h = (case cells h a of None \<Rightarrow> None | Some n \<Rightarrow> Some (h\<lparr>cells := (cells h)(a \<mapsto> f n)\<rparr>))"

definition is_type :: "json_value_type \<Rightarrow> addr \<Rightarrow> store \<Rightarrow> bool option" where
  "is_type t a h = map_option (\<lambda>n. jtype n = t) (cells h a)"

section \<open>Creating nodes\<close>

definition blank :: "json_value_type \<Rightarrow> json_t" where
  "blank t = \<lparr>jtype = t, jtext = None, nextp = None, previous = None, parent = None,
     child = None, child_end = None\<rparr>"

definition json_new_value :: "json_value_type \<Rightarrow> store \<Rightarrow> addr \<times> store" where
  "json_new_value t h = (fresh h, h\<lparr>cells := (cells h)(fresh h \<mapsto> blank t), fresh := fresh h + 1\<rparr>)"

text \<open>\<open>json_new_string\<close> and \<open>json_new_number\<close> copy their text.\<close>

definition json_new_string :: "char list \<Rightarrow> store \<Rightarrow> addr \<times> store" where
  "json_new_string s h = (fresh h,
     h\<lparr>cells := (cells h)(fresh h \<mapsto> (blank JSON_STRING)\<lparr>jtext := Some s\<rparr>), fresh := fresh h + 1\<rparr>)"

definition json_new_number :: "char list \<Rightarrow> store \<Rightarrow> addr \<times> store" where
  "json_new_number s h = (fresh h,
     h\<lparr>cells := (cells h)(fresh h \<mapsto> (blank JSON_NUMBER)\<lparr>jtext := Some s\<rparr>), fresh := fresh h + 1\<rparr>)"

definition json_new_object :: "store \<Rightarrow> addr \<times> store" where
  "json_new_object = json_new_value JSON_OBJECT"

definition json_new_array :: "store \<Rightarrow> addr \<times> store" where
  "json_new_array = json_new_value JSON_ARRAY"

definition json_new_null :: "store \<Rightarrow> addr \<times> store" where
  "json_new_null = json_new_value JSON_NULL"

definition json_new_true :: "store \<Rightarrow> addr \<times> store" where
  "json_new_true = json_new_value JSON_TRUE"

definition json_new_false :: "store \<Rightarrow> addr \<times> store" where
  "json_new_false = json_new_value JSON_FALSE"

section \<open>Inserting\<close>

text \<open>The test of the types of the two nodes.\<close>

definition accepts :: "json_t \<Rightarrow> json_t \<Rightarrow> bool" where
  "accepts p c =
     (case jtype p of
        JSON_STRING \<Rightarrow> (case jtype c of JSON_OBJECT \<Rightarrow> True | JSON_ARRAY \<Rightarrow> True | _ \<Rightarrow> child c = None)
      | JSON_OBJECT \<Rightarrow> jtype c = JSON_STRING
      | JSON_ARRAY \<Rightarrow> (case jtype c of JSON_OBJECT \<Rightarrow> True | JSON_ARRAY \<Rightarrow> True | _ \<Rightarrow> child c = None)
      | _ \<Rightarrow> False)"

definition json_insert_child :: "addr \<Rightarrow> addr \<Rightarrow> store \<Rightarrow> (json_error \<times> store) option" where
  "json_insert_child p c h =
     (if p = c then None
      else do {
        np \<leftarrow> cells h p;
        nc \<leftarrow> cells h c;
        if \<not> accepts np nc then Some (JSON_BAD_TREE_STRUCTURE, h)
        else do {
          h1 \<leftarrow> change c (parent_update (\<lambda>_. Some p)) h;
          h2 \<leftarrow> (if child np \<noteq> None then do {
              h2 \<leftarrow> change c (previous_update (\<lambda>_. child_end np)) h1;
              e \<leftarrow> child_end np;
              h3 \<leftarrow> change e (nextp_update (\<lambda>_. Some c)) h2;
              change p (child_end_update (\<lambda>_. Some c)) h3 }
            else change p (\<lambda>n. n\<lparr>child := Some c, child_end := Some c\<rparr>) h1);
          Some (JSON_OK, h2) } })"

definition json_insert_pair_into_object ::
  "addr \<Rightarrow> char list \<Rightarrow> addr \<Rightarrow> store \<Rightarrow> (json_error \<times> store) option" where
  "json_insert_pair_into_object p label v h =
     (if p = v then None
      else do {
        t \<leftarrow> is_type JSON_OBJECT p h;
        if \<not> t then None
        else do {
          let (l, h1) = json_new_string label h;
          (e, h2) \<leftarrow> json_insert_child l v h1;
          if e \<noteq> JSON_OK then Some (e, h2)
          else json_insert_child p l h2 } })"

section \<open>Looking up\<close>

text \<open>The walk of \<open>json_find_first_label\<close> along the children; a node without text is undefined.\<close>

partial_function (option) find_label :: "char list \<Rightarrow> addr option \<Rightarrow> store \<Rightarrow> addr option option" where
  "find_label s cursor h =
     (case cursor of
        None \<Rightarrow> Some None
      | Some a \<Rightarrow> do {
          n \<leftarrow> cells h a;
          t \<leftarrow> jtext n;
          if t = s then Some (Some a) else find_label s (nextp n) h })"

definition json_find_first_label :: "addr \<Rightarrow> char list \<Rightarrow> store \<Rightarrow> addr option option" where
  "json_find_first_label object s h = do {
     n \<leftarrow> cells h object;
     if jtype n = JSON_OBJECT then find_label s (child n) h else None }"

partial_function (option) count_siblings :: "addr option \<Rightarrow> nat \<Rightarrow> store \<Rightarrow> nat option" where
  "count_siblings walk k h =
     (case walk of
        None \<Rightarrow> Some k
      | Some a \<Rightarrow> do { n \<leftarrow> cells h a; count_siblings (nextp n) (k + 1) h })"

definition json_object_size :: "addr \<Rightarrow> store \<Rightarrow> nat option" where
  "json_object_size p h = do { n \<leftarrow> cells h p; count_siblings (child n) 0 h }"

definition json_array_size :: "addr \<Rightarrow> store \<Rightarrow> nat option" where
  "json_array_size p h = do { n \<leftarrow> cells h p; count_siblings (child n) 0 h }"

definition json_object_at :: "addr \<Rightarrow> char list \<Rightarrow> store \<Rightarrow> addr option option" where
  "json_object_at p key h = do {
     l \<leftarrow> json_find_first_label p key h;
     case l of None \<Rightarrow> Some None | Some a \<Rightarrow> do { n \<leftarrow> cells h a; Some (child n) } }"

text \<open>The index is never advanced.\<close>

partial_function (option) array_walk :: "addr option \<Rightarrow> int \<Rightarrow> int \<Rightarrow> store \<Rightarrow> addr option option" where
  "array_walk key index i h =
     (case key of
        None \<Rightarrow> Some None
      | Some a \<Rightarrow> if index = i then Some (Some a)
          else do { n \<leftarrow> cells h a; array_walk (nextp n) index i h })"

definition json_array_at :: "addr \<Rightarrow> int \<Rightarrow> store \<Rightarrow> addr option option" where
  "json_array_at p i h = do { n \<leftarrow> cells h p; array_walk (child n) 0 i h }"

section \<open>Commands\<close>

text \<open>\<open>sprintf (buf, "%d", value)\<close>: at most 11 characters, the buffer has 16.\<close>

definition dec_string :: "32 word \<Rightarrow> char list" where
  "dec_string v = (if sint v < 0 then CHR ''-'' # dec_digits (nat (- sint v)) else dec_digits (nat (sint v)))"

text \<open>The results of the insertions are not looked at.\<close>

definition json_object_push_number :: "addr \<Rightarrow> char list \<Rightarrow> 32 word \<Rightarrow> store \<Rightarrow> store option" where
  "json_object_push_number root key v h =
     (let (a, h1) = json_new_number (dec_string v) h
      in map_option snd (json_insert_pair_into_object root key a h1))"

definition json_object_push_string :: "addr \<Rightarrow> char list \<Rightarrow> char list \<Rightarrow> store \<Rightarrow> store option" where
  "json_object_push_string p key v h =
     (let (a, h1) = json_new_string v h
      in map_option snd (json_insert_pair_into_object p key a h1))"

definition json_array_push_number :: "addr \<Rightarrow> 32 word \<Rightarrow> store \<Rightarrow> store option" where
  "json_array_push_number p v h =
     (let (a, h1) = json_new_number (dec_string v) h in map_option snd (json_insert_child p a h1))"

definition json_array_push_string :: "addr \<Rightarrow> char list \<Rightarrow> store \<Rightarrow> store option" where
  "json_array_push_string p v h =
     (let (a, h1) = json_new_string v h in map_option snd (json_insert_child p a h1))"

definition json_new_comand :: "32 word \<Rightarrow> 32 word \<Rightarrow> store \<Rightarrow> (addr \<times> store) option" where
  "json_new_comand stype comand h =
     (let (root, h1) = json_new_object h in do {
        h2 \<leftarrow> json_object_push_number root ''0'' stype h1;
        h3 \<leftarrow> json_object_push_number root ''1'' comand h2;
        Some (root, h3) })"

section \<open>Trees in the store\<close>

text \<open>A tree with the addresses of its nodes.\<close>

datatype atree = ANode (ad: addr) (ty: json_value_type) (tx: "char list option") (kids: "atree list")

fun addrs :: "atree \<Rightarrow> addr list" where
  "addrs (ANode a t x cs) = a # concat (map addrs cs)"

abbreviation addrs_list :: "atree list \<Rightarrow> addr list" where
  "addrs_list ts \<equiv> concat (map addrs ts)"

definition first_ad :: "atree list \<Rightarrow> addr option" where
  "first_ad ts = (case ts of [] \<Rightarrow> None | t # _ \<Rightarrow> Some (ad t))"

definition last_ad :: "atree list \<Rightarrow> addr option" where
  "last_ad ts = (if ts = [] then None else Some (ad (last ts)))"

lemma ends [simp]: "first_ad [] = None" "last_ad [] = None" "first_ad (t # ts) = Some (ad t)"
    "last_ad (ts @ [t]) = Some (ad t)" "last_ad [t] = Some (ad t)" "(first_ad ts = None) = (ts = [])" "(last_ad ts = None) = (ts = [])"
  by (auto simp: first_ad_def last_ad_def split: list.splits)

lemma first_ad_append: "first_ad (xs @ ys) = (if xs = [] then first_ad ys else first_ad xs)"
  by (simp add: first_ad_def split: list.splits)

definition node :: "json_value_type \<Rightarrow> char list option \<Rightarrow> addr option \<Rightarrow> addr option \<Rightarrow> addr option
    \<Rightarrow> addr option \<Rightarrow> addr option \<Rightarrow> json_t" where
  "node t x nxt prv par c ce = \<lparr>jtype = t, jtext = x, nextp = nxt, previous = prv, parent = par,
     child = c, child_end = ce\<rparr>"

lemma node_sel [simp]:
  "jtype (node t x nxt prv par c ce) = t" "jtext (node t x nxt prv par c ce) = x"
  "nextp (node t x nxt prv par c ce) = nxt" "previous (node t x nxt prv par c ce) = prv"
  "parent (node t x nxt prv par c ce) = par" "child (node t x nxt prv par c ce) = c"
  "child_end (node t x nxt prv par c ce) = ce"
  by (simp_all add: node_def)

text \<open>
  The nodes \<open>m\<close> form the tree, below \<open>par\<close>, with the siblings \<open>prv\<close> and \<open>nxt\<close>; \<open>rep_list\<close>
  for a run of siblings.
\<close>

fun rep :: "(addr \<Rightarrow> json_t option) \<Rightarrow> addr option \<Rightarrow> addr option \<Rightarrow> addr option \<Rightarrow> atree \<Rightarrow> bool"
and rep_list :: "(addr \<Rightarrow> json_t option) \<Rightarrow> addr option \<Rightarrow> addr option \<Rightarrow> addr option \<Rightarrow> atree list \<Rightarrow> bool" where
  "rep m par prv nxt (ANode a t x cs) \<longleftrightarrow>
     m a = Some (node t x nxt prv par (first_ad cs) (last_ad cs)) \<and> rep_list m (Some a) None None cs"
| "rep_list m par prv nxt [] \<longleftrightarrow> True"
| "rep_list m par prv nxt (t # ts) \<longleftrightarrow>
     rep m par prv (if ts = [] then nxt else first_ad ts) t \<and> rep_list m par (Some (ad t)) nxt ts"

lemma rep_cong:
  "(\<And>a. a \<in> set (addrs t) \<Longrightarrow> m a = m' a) \<Longrightarrow> rep m par prv nxt t = rep m' par prv nxt t"
  "(\<And>a. a \<in> set (addrs_list ts) \<Longrightarrow> m a = m' a) \<Longrightarrow> rep_list m par prv nxt ts = rep_list m' par prv nxt ts"
  by (induction m par prv nxt t and m par prv nxt ts rule: rep_rep_list.induct) auto

lemma rep_upd [simp]:
  "b \<notin> set (addrs t) \<Longrightarrow> rep (m(b := v)) par prv nxt t = rep m par prv nxt t"
  "b \<notin> set (addrs_list ts) \<Longrightarrow> rep_list (m(b := v)) par prv nxt ts = rep_list m par prv nxt ts"
  by (rule rep_cong; auto)+

lemma rep_list_append:
  "rep_list m par prv nxt (xs @ ys) \<longleftrightarrow>
     rep_list m par prv (if ys = [] then nxt else first_ad ys) xs
     \<and> rep_list m par (if xs = [] then prv else last_ad xs) nxt ys"
proof (induction xs arbitrary: prv)
  case (Cons x xs)
  then show ?case by (cases xs) (auto simp: last_ad_def first_ad_append)
qed simp

lemma ad_in_addrs [simp]: "ad t \<in> set (addrs t)"
  by (cases t) simp

text \<open>Setting the \<open>next\<close> pointer of the last sibling.\<close>

lemma rep_next:
  assumes "rep m par prv nxt t" "distinct (addrs t)"
  shows "\<exists>n. m (ad t) = Some n \<and> rep (m(ad t \<mapsto> nextp_update (\<lambda>_. nxt') n)) par prv nxt' t"
  using assms by (cases t) (auto simp: node_def)

lemma rep_list_next:
  assumes "rep_list m par prv nxt ts" "distinct (addrs_list ts)" "ts \<noteq> []"
  shows "\<exists>n. m (ad (last ts)) = Some n
    \<and> rep_list (m(ad (last ts) \<mapsto> nextp_update (\<lambda>_. nxt') n)) par prv nxt' ts"
proof -
  obtain xs t where ts: "ts = xs @ [t]" using assms(3) by (metis append_butlast_last_id)
  with assms have t: "rep m par (if xs = [] then prv else last_ad xs) nxt t"
    and xs: "rep_list m par prv (Some (ad t)) xs"
    and d: "distinct (addrs t)" "ad t \<notin> set (addrs_list xs)"
    by (auto simp: rep_list_append)
  from rep_next [OF t d(1), of nxt'] xs d(2) show ?thesis
    by (auto simp: ts rep_list_append simp del: fun_upd_apply)
qed

section \<open>Open trees\<close>

text \<open>
  A tree that is still growing: the frames from the node the cursor stands on up to the root,
  each with its address, type, text and the children that are finished.  \<open>cur\<close> is the open child.
\<close>

type_synonym frame = "addr \<times> json_value_type \<times> char list option \<times> atree list"

fun frame_addrs :: "frame list \<Rightarrow> addr list" where
  "frame_addrs [] = []"
| "frame_addrs ((a, t, x, ls) # fs) = a # addrs_list ls @ frame_addrs fs"

definition top_ad :: "frame list \<Rightarrow> addr option" where
  "top_ad fs = (case fs of [] \<Rightarrow> None | (a, _) # _ \<Rightarrow> Some a)"

definition top_last :: "frame list \<Rightarrow> addr option" where
  "top_last fs = (case fs of [] \<Rightarrow> None | (a, t, x, ls) # _ \<Rightarrow> last_ad ls)"

lemma top_simps [simp]: "top_ad [] = None" "top_last [] = None" "top_ad ((a, t, x, ls) # fs) = Some a"
    "top_last ((a, t, x, ls) # fs) = last_ad ls" "(top_ad fs = None) = (fs = [])"
  by (auto simp: top_ad_def top_last_def split: list.splits)

definition open_node :: "json_value_type \<Rightarrow> char list option \<Rightarrow> atree list \<Rightarrow> addr option \<Rightarrow> frame list \<Rightarrow> json_t" where
  "open_node t x ls cur fs = node t x None (top_last fs) (top_ad fs)
     (if ls = [] then cur else first_ad ls) (if cur = None then last_ad ls else cur)"

fun zip_rep :: "(addr \<Rightarrow> json_t option) \<Rightarrow> addr option \<Rightarrow> frame list \<Rightarrow> bool" where
  "zip_rep m cur [] = True"
| "zip_rep m cur ((a, t, x, ls) # fs) \<longleftrightarrow>
     m a = Some (open_node t x ls cur fs) \<and> rep_list m (Some a) None cur ls \<and> zip_rep m (Some a) fs"

lemma zip_rep_upd [simp]:
  "b \<notin> set (frame_addrs fs) \<Longrightarrow> zip_rep (m(b := v)) cur fs = zip_rep m cur fs"
  by (induction fs arbitrary: cur rule: frame_addrs.induct) auto

text \<open>Finishing the open node changes nothing in the store.\<close>

lemma close_zip:
  "zip_rep m None ((a, t, x, ls) # (b, t', x', ls') # fs) = zip_rep m None ((b, t', x', ls' @ [ANode a t x ls]) # fs)"
proof -
  have 1: "open_node t' x' ls' (Some a) fs = open_node t' x' (ls' @ [ANode a t x ls]) None fs"
    by (simp add: open_node_def first_ad_append)
  have 2: "open_node t x ls None ((b, t', x', ls') # fs) = node t x None (last_ad ls') (Some b) (first_ad ls) (last_ad ls)"
    by (simp add: open_node_def)
  show ?thesis
    unfolding zip_rep.simps 1 2 by (cases "ls' = []") (simp_all add: rep_list_append, blast+)
qed

text \<open>The store holds an open tree, and every node of it has been allocated.\<close>

definition holds_frames :: "store \<Rightarrow> frame list \<Rightarrow> bool" where
  "holds_frames h fs \<longleftrightarrow> zip_rep (cells h) None fs \<and> distinct (frame_addrs fs)
     \<and> (\<forall>a\<in>set (frame_addrs fs). a < fresh h)"

lemma close_frame:
  "holds_frames h ((a, t, x, ls) # (b, t', x', ls') # fs) \<longleftrightarrow> holds_frames h ((b, t', x', ls' @ [ANode a t x ls]) # fs)"
proof -
  let ?x = "frame_addrs ((a, t, x, ls) # (b, t', x', ls') # fs)"
    and ?y = "frame_addrs ((b, t', x', ls' @ [ANode a t x ls]) # fs)"
  have m: "mset ?x = mset ?y" by simp
  have "distinct ?x = distinct ?y" using m by (rule mset_eq_imp_distinct_iff)
  moreover have "set ?x = set ?y" using m by (rule mset_eq_setD)
  ultimately show ?thesis unfolding holds_frames_def close_zip by (simp only:)
qed

section \<open>Insertion appends a child\<close>

definition may_hold :: "json_value_type \<Rightarrow> atree \<Rightarrow> bool" where
  "may_hold t u \<longleftrightarrow> accepts (blank t) ((blank (ty u))\<lparr>child := first_ad (kids u)\<rparr>)"

lemma accepts_may_hold: "accepts p (node y z nxt prv par (first_ad cs) ce) = may_hold (jtype p) (ANode a y z cs)"
  by (cases "jtype p"; cases y; simp add: accepts_def may_hold_def blank_def)

text \<open>A tree that hangs on nothing becomes the last child of the node the cursor stands on.\<close>

lemma insert_tree:
  assumes h: "zip_rep (cells h) None ((a, t, x, ls) # fs)" "distinct (frame_addrs ((a, t, x, ls) # fs))"
    and u: "rep (cells h) None None None u" "distinct (addrs u)"
      "set (addrs u) \<inter> set (frame_addrs ((a, t, x, ls) # fs)) = {}"
    and acc: "may_hold t u"
  shows "\<exists>h'. json_insert_child a (ad u) h = Some (JSON_OK, h')
    \<and> zip_rep (cells h') None ((a, t, x, ls @ [u]) # fs) \<and> fresh h' = fresh h
    \<and> (\<forall>b. b \<notin> set (addrs u) \<union> set (frame_addrs ((a, t, x, ls) # fs)) \<longrightarrow> cells h' b = cells h b)"
proof -
  obtain n y z cs where un: "u = ANode n y z cs" by (cases u)
  let ?m = "cells h" and ?nu = "\<lambda>prv par. node y z None prv par (first_ad cs) (last_ad cs)"
  have old: "?m a = Some (open_node t x ls None fs)" "rep_list ?m (Some a) None None ls" "zip_rep ?m (Some a) fs"
    and d: "distinct (addrs_list ls)" "a \<notin> set (addrs_list ls)" "a \<notin> set (frame_addrs fs)"
      "set (addrs_list ls) \<inter> set (frame_addrs fs) = {}"
    using h by auto
  have nu: "?m n = Some (?nu None None)" "rep_list ?m (Some n) None None cs" "n \<notin> set (addrs_list cs)"
    and cs: "set (addrs_list cs) \<inter> set (frame_addrs fs) = {}" "a \<notin> set (addrs_list cs)"
      "set (addrs_list cs) \<inter> set (addrs_list ls) = {}"
    and fr: "n \<notin> set (addrs_list ls)" "n \<notin> set (frame_addrs fs)" "n \<noteq> a"
    using u un by auto
  have acc': "accepts (open_node t x ls None fs) (?nu None None)"
    using acc un by (simp add: accepts_may_hold [of _ _ _ _ _ _ _ _ n] open_node_def)
  show ?thesis
  proof (cases "ls = []")
    case True
    let ?h = "h\<lparr>cells := ?m(n \<mapsto> ?nu None (Some a), a \<mapsto> open_node t x [] (Some n) fs)\<rparr>"
    have "json_insert_child a (ad u) h = Some (JSON_OK, ?h)"
      using True old acc' fr nu un by (simp add: json_insert_child_def change_def open_node_def node_def)
    moreover have "zip_rep (cells ?h) None ((a, t, x, ls @ [u]) # fs)"
    proof -
      have "open_node t x [] (Some n) fs = open_node t x (ls @ [u]) None fs"
        using True un by (simp add: open_node_def)
      then have c: "cells ?h a = Some (open_node t x (ls @ [u]) None fs)" by simp
      have r: "rep_list (cells ?h) (Some a) None None (ls @ [u])"
        using True nu cs(2) fr(3) un by simp
      have "zip_rep (cells ?h) (Some a) fs"
        using old(3) d(3) fr(2) by (simp del: fun_upd_apply)
      with c r show ?thesis by (simp only: zip_rep.simps)
    qed
    moreover have "\<forall>b. b \<notin> set (addrs u) \<union> set (frame_addrs ((a, t, x, ls) # fs)) \<longrightarrow> cells ?h b = ?m b"
      using un by auto
    ultimately show ?thesis by (intro exI [of _ ?h] conjI; (assumption | simp))
  next
    case False
    let ?e = "ad (last ls)"
    obtain e where e: "?m ?e = Some e" "rep_list (?m(?e \<mapsto> nextp_update (\<lambda>_. Some n) e)) (Some a) None (Some n) ls"
      using rep_list_next [OF old(2) d(1) False] by blast
    have l: "last_ad ls = Some ?e" using False by (simp add: last_ad_def)
    have ein: "?e \<in> set (addrs_list ls)" using False by (auto intro: bexI [of _ "last ls"])
    then have en: "?e \<noteq> a" "?e \<noteq> n" "?e \<notin> set (frame_addrs fs)" "?e \<notin> set (addrs_list cs)"
      using d(2,4) fr(1) cs(3) by (metis, metis, blast, blast)
    let ?h = "h\<lparr>cells := ?m(?e \<mapsto> nextp_update (\<lambda>_. Some n) e, n \<mapsto> ?nu (Some ?e) (Some a),
      a \<mapsto> open_node t x ls (Some n) fs)\<rparr>"
    have "json_insert_child a (ad u) h = Some (JSON_OK, ?h)"
      using False old acc' fr e(1) en l nu un
      by (simp add: json_insert_child_def change_def open_node_def node_def fun_upd_twist)
    moreover have "zip_rep (cells ?h) None ((a, t, x, ls @ [u]) # fs)"
    proof -
      have "open_node t x ls (Some n) fs = open_node t x (ls @ [u]) None fs"
        using False un by (simp add: open_node_def first_ad_append)
      then have c: "cells ?h a = Some (open_node t x (ls @ [u]) None fs)" by simp
      have "cells ?h n = Some (?nu (Some ?e) (Some a))" using fr(3) by simp
      moreover have "rep_list (cells ?h) (Some n) None None cs"
        using nu cs(2) en(4) by (simp del: fun_upd_apply)
      moreover have "rep_list (cells ?h) (Some a) None (Some n) ls"
        using e(2) d(2) fr(1) by (simp del: fun_upd_apply)
      ultimately have r: "rep_list (cells ?h) (Some a) None None (ls @ [u])"
        using False l un by (simp add: rep_list_append del: fun_upd_apply)
      have "zip_rep (cells ?h) (Some a) fs"
        using old(3) d(3) fr(2) en(3) by (simp del: fun_upd_apply)
      with c r show ?thesis by (simp only: zip_rep.simps)
    qed
    moreover have "\<forall>b. b \<notin> set (addrs u) \<union> set (frame_addrs ((a, t, x, ls) # fs)) \<longrightarrow> cells ?h b = ?m b"
      using un ein by auto
    ultimately show ?thesis by (intro exI [of _ ?h] conjI; (assumption | simp))
  qed
qed

text \<open>A fresh node inserted below the cursor becomes the cursor.\<close>

definition alloc :: "json_value_type \<Rightarrow> char list option \<Rightarrow> store \<Rightarrow> store" where
  "alloc u y h = h\<lparr>cells := (cells h)(fresh h \<mapsto> node u y None None None None None), fresh := fresh h + 1\<rparr>"

lemma insert_open:
  assumes h: "holds_frames h ((a, t, x, ls) # fs)" and acc: "may_hold t (ANode (fresh h) u y [])"
  shows "\<exists>h'. json_insert_child a (fresh h) (alloc u y h) = Some (JSON_OK, h')
    \<and> holds_frames h' ((fresh h, u, y, []) # (a, t, x, ls) # fs) \<and> fresh h' = fresh h + 1"
proof -
  have n: "fresh h \<notin> set (frame_addrs ((a, t, x, ls) # fs))" using h by (auto simp: holds_frames_def)
  from h n have "zip_rep (cells (alloc u y h)) None ((a, t, x, ls) # fs)"
    by (simp add: holds_frames_def alloc_def)
  from insert_tree [OF this _ _ _ _ acc] h n obtain h' where
    h': "json_insert_child a (fresh h) (alloc u y h) = Some (JSON_OK, h')"
      "zip_rep (cells h') None ((a, t, x, ls @ [ANode (fresh h) u y []]) # fs)" "fresh h' = fresh h + 1"
    by (auto simp: holds_frames_def alloc_def)
  then have "holds_frames h' ((a, t, x, ls @ [ANode (fresh h) u y []]) # fs)"
    using h n by (auto simp: holds_frames_def less_Suc_eq)
  with h' show ?thesis by (auto simp: close_frame)
qed

end
