(* ===== verification/JsonPrint.thy ===== *)
theory JsonPrint
  imports JsonTree
begin

text \<open>
  \<open>json_tree_to_string\<close> and \<open>json_stream_output\<close> of \<open>src/ServerEngine/mjson/json.c\<close>: the same walk
  over the tree, with the labels \<open>state1\<close> (open a value) and \<open>state2\<close> (close it), once into a
  string buffer and once into a stream.  The walk is parameterised by what its output goes to; the
  locale \<open>sink\<close> is the contract of that output, and both outputs are shown to keep it.  The main
  lemma is that the walk over a well-formed tree ends and writes its JSON text.
\<close>

section \<open>The code\<close>

datatype piece = Ch char | Str "char list"

datatype print_next = Goto bool addr | Finish json_error

text \<open>Behind the output of a value that may have children: go to the first child or close.\<close>

definition descend :: "addr \<Rightarrow> json_t \<Rightarrow> print_next" where
  "descend c n = (case child n of Some k \<Rightarrow> Goto True k | None \<Rightarrow> Goto False c)"

text \<open>\<open>state1\<close>\<close>

definition print_open :: "store \<Rightarrow> addr \<Rightarrow> addr \<Rightarrow> (piece list \<times> print_next) option" where
  "print_open h root c = do {
     n \<leftarrow> cells h c;
     let comma = (if previous n \<noteq> None \<and> c \<noteq> root then [Ch CHR '','' ] else []);
     case jtype n of
       JSON_STRING \<Rightarrow> do {
         t \<leftarrow> jtext n;
         let out = comma @ [Ch DQ, Str t, Ch DQ];
         in_object \<leftarrow> (case parent n of None \<Rightarrow> Some True | Some p \<Rightarrow> is_type JSON_OBJECT p h);
         Some (if in_object then
                 (if child n \<noteq> None then (out @ [Ch CHR '':''], descend c n)
                  else (out, Finish JSON_BAD_TREE_STRUCTURE))
               else (out, descend c n)) }
     | JSON_NUMBER \<Rightarrow> do { t \<leftarrow> jtext n; Some (comma @ [Str t], Goto False c) }
     | JSON_OBJECT \<Rightarrow> Some (comma @ [Ch CHR ''{''], descend c n)
     | JSON_ARRAY \<Rightarrow> Some (comma @ [Ch CHR ''['' ], descend c n)
     | JSON_TRUE \<Rightarrow> Some (comma @ [Str ''true''], Goto False c)
     | JSON_FALSE \<Rightarrow> Some (comma @ [Str ''false''], Goto False c)
     | JSON_NULL \<Rightarrow> Some (comma @ [Str ''null''], Goto False c) }"

text \<open>\<open>state2\<close>\<close>

definition print_close :: "store \<Rightarrow> addr \<Rightarrow> addr \<Rightarrow> (piece list \<times> print_next) option" where
  "print_close h root c = do {
     n \<leftarrow> cells h c;
     Some (case jtype n of JSON_OBJECT \<Rightarrow> [Ch CHR ''}''] | JSON_ARRAY \<Rightarrow> [Ch CHR '']'' ] | _ \<Rightarrow> [],
       if parent n = None \<or> c = root then Finish JSON_OK
       else (case nextp n of Some s \<Rightarrow> Goto True s | None \<Rightarrow> Goto False (the (parent n)))) }"

fun emits :: "('b \<Rightarrow> piece \<Rightarrow> 'b option) \<Rightarrow> 'b \<Rightarrow> piece list \<Rightarrow> 'b option" where
  "emits emit b [] = Some b"
| "emits emit b (p # ps) = do { b1 \<leftarrow> emit b p; emits emit b1 ps }"

partial_function (option) print_run ::
  "('b \<Rightarrow> piece \<Rightarrow> 'b option) \<Rightarrow> store \<Rightarrow> addr \<Rightarrow> bool \<Rightarrow> addr \<Rightarrow> 'b \<Rightarrow> (json_error \<times> 'b) option" where
  "print_run emit h root opens c b = do {
     (ps, nx) \<leftarrow> (if opens then print_open h root c else print_close h root c);
     b1 \<leftarrow> emits emit b ps;
     case nx of Goto o1 c1 \<Rightarrow> print_run emit h root o1 c1 b1 | Finish e \<Rightarrow> Some (e, b1) }"

definition rcs_emit :: "rcstring \<Rightarrow> piece \<Rightarrow> rcstring option" where
  "rcs_emit r p = (case p of Ch c \<Rightarrow> rcs_catc r c | Str s \<Rightarrow> rcs_catcs r s (length s))"

definition json_tree_to_string :: "addr \<Rightarrow> store \<Rightarrow> (json_error \<times> char list option) option" where
  "json_tree_to_string root h = do {
     (e, r) \<leftarrow> print_run rcs_emit h root True root (rcs_create RSTRING_DEFAULT);
     if e = JSON_OK then do { t \<leftarrow> rcs_unwrap r; Some (e, Some t) } else Some (e, None) }"

text \<open>A stream is the list of the characters written to it; writing succeeds.\<close>

definition file_emit :: "char list \<Rightarrow> piece \<Rightarrow> char list option" where
  "file_emit f p = Some (f @ (case p of Ch c \<Rightarrow> [c] | Str s \<Rightarrow> s))"

definition json_stream_output :: "char list \<Rightarrow> addr \<Rightarrow> store \<Rightarrow> (json_error \<times> char list) option" where
  "json_stream_output file root h = do {
     (e, f) \<leftarrow> print_run file_emit h root True root file;
     Some (e, if e = JSON_OK then f @ [CHR 0x0A] else f) }"

section \<open>JSON values and their text\<close>

datatype json =
  JString "char list" | JNumber "char list" | JObject "member list" | JArray "json list" | JTrue | JFalse | JNull
and member = Member "char list" json

fun commas :: "char list list \<Rightarrow> char list" where
  "commas [] = []"
| "commas [x] = x"
| "commas (x # y # ys) = x @ CHR '','' # commas (y # ys)"

fun jprint :: "json \<Rightarrow> char list" and mprint :: "member \<Rightarrow> char list" where
  "jprint (JString s) = DQ # s @ [DQ]"
| "jprint (JNumber s) = s"
| "jprint (JObject ms) = CHR ''{'' # commas (map mprint ms) @ ''}''"
| "jprint (JArray vs) = CHR ''['' # commas (map jprint vs) @ '']''"
| "jprint JTrue = ''true''"
| "jprint JFalse = ''false''"
| "jprint JNull = ''null''"
| "mprint (Member k v) = DQ # k @ [DQ, CHR '':''] @ jprint v"

text \<open>Trees of the shape of a JSON value, and the value of such a tree.\<close>

fun wf_value :: "atree \<Rightarrow> bool" and wf_label :: "atree \<Rightarrow> bool" where
  "wf_value (ANode a t x cs) =
     (case t of
        JSON_STRING \<Rightarrow> x \<noteq> None \<and> cs = []
      | JSON_NUMBER \<Rightarrow> x \<noteq> None \<and> cs = []
      | JSON_OBJECT \<Rightarrow> x = None \<and> (\<forall>l\<in>set cs. wf_label l)
      | JSON_ARRAY \<Rightarrow> x = None \<and> (\<forall>u\<in>set cs. wf_value u)
      | _ \<Rightarrow> x = None \<and> cs = [])"
| "wf_label (ANode a t x cs) \<longleftrightarrow> t = JSON_STRING \<and> x \<noteq> None \<and> length cs = 1 \<and> (\<forall>u\<in>set cs. wf_value u)"

fun to_json :: "atree \<Rightarrow> json" and to_member :: "atree \<Rightarrow> member" where
  "to_json (ANode a t x cs) =
     (case t of
        JSON_STRING \<Rightarrow> JString (the x)
      | JSON_NUMBER \<Rightarrow> JNumber (the x)
      | JSON_OBJECT \<Rightarrow> JObject (map to_member cs)
      | JSON_ARRAY \<Rightarrow> JArray (map to_json cs)
      | JSON_TRUE \<Rightarrow> JTrue | JSON_FALSE \<Rightarrow> JFalse | JSON_NULL \<Rightarrow> JNull)"
| "to_member (ANode a t x cs) = Member (the x) (hd (map to_json cs))"

section \<open>Walking a well-formed tree\<close>

fun piece_text :: "piece \<Rightarrow> char list" where
  "piece_text (Ch c) = [c]"
| "piece_text (Str s) = s"

abbreviation pieces_text :: "piece list \<Rightarrow> char list" where
  "pieces_text ps \<equiv> concat (map piece_text ps)"

definition comma_if :: "bool \<Rightarrow> char list" where
  "comma_if b = (if b then '','' else [])"

lemma commas_Cons: "commas (x # xs) = x @ concat (map (\<lambda>y. CHR '','' # y) xs)"
  by (induction xs arbitrary: x) auto

locale sink =
  fixes emit :: "'b \<Rightarrow> piece \<Rightarrow> 'b option" and holds :: "'b \<Rightarrow> char list \<Rightarrow> bool"
  assumes emit_holds: "holds b s \<Longrightarrow> \<exists>b'. emit b p = Some b' \<and> holds b' (s @ piece_text p)"
begin

lemma emits_holds: "holds b s \<Longrightarrow> \<exists>b'. emits emit b ps = Some b' \<and> holds b' (s @ pieces_text ps)"
proof (induction ps arbitrary: b s)
  case (Cons p ps)
  obtain b1 where "emit b p = Some b1" "holds b1 (s @ piece_text p)"
    using emit_holds [OF Cons.prems] by blast
  with Cons.IH show ?case by fastforce
qed simp

text \<open>One round of the walk.\<close>

lemma print_step:
  assumes "(if opens then print_open h root c else print_close h root c) = Some (ps, Goto o1 c1)" "holds b s"
  shows "\<exists>b1. print_run emit h root opens c b = print_run emit h root o1 c1 b1 \<and> holds b1 (s @ pieces_text ps)"
  using emits_holds [OF assms(2), of ps] assms(1) by (subst print_run.simps) (auto simp del: if_split)

lemma print_finish:
  assumes "(if opens then print_open h root c else print_close h root c) = Some (ps, Finish e)" "holds b s"
  shows "\<exists>b1. print_run emit h root opens c b = Some (e, b1) \<and> holds b1 (s @ pieces_text ps)"
  using emits_holds [OF assms(2), of ps] assms(1) by (subst print_run.simps) (auto simp del: if_split)

definition leave :: "store \<Rightarrow> addr \<Rightarrow> addr \<Rightarrow> addr option \<Rightarrow> 'b \<Rightarrow> (json_error \<times> 'b) option" where
  "leave h root p nxt b =
     (case nxt of Some n \<Rightarrow> print_run emit h root True n b | None \<Rightarrow> print_run emit h root False p b)"

text \<open>A tree below \<open>p\<close> is printed as \<open>txt\<close>, after a comma when it has a left sibling.\<close>

definition prints :: "store \<Rightarrow> addr \<Rightarrow> addr \<Rightarrow> atree \<Rightarrow> char list \<Rightarrow> bool" where
  "prints h root p t txt \<longleftrightarrow> (\<forall>prv nxt b s. rep (cells h) (Some p) prv nxt t \<longrightarrow> holds b s \<longrightarrow>
     (\<exists>b'. print_run emit h root True (ad t) b = leave h root p nxt b'
        \<and> holds b' (s @ comma_if (prv \<noteq> None) @ txt)))"

lemma printsD:
  "prints h root p t txt \<Longrightarrow> rep (cells h) (Some p) prv nxt t \<Longrightarrow> holds b s \<Longrightarrow>
   \<exists>b'. print_run emit h root True (ad t) b = leave h root p nxt b' \<and> holds b' (s @ comma_if (prv \<noteq> None) @ txt)"
  unfolding prints_def by blast

lemma print_siblings:
  assumes "\<forall>t\<in>set ts. prints h root p t (f t)" "rep_list (cells h) (Some p) prv None ts" "ts \<noteq> []" "holds b s"
  shows "\<exists>b'. print_run emit h root True (ad (hd ts)) b = print_run emit h root False p b'
    \<and> holds b' (s @ comma_if (prv \<noteq> None) @ commas (map f ts))"
  using assms
proof (induction ts arbitrary: prv b s)
  case (Cons t ts)
  let ?nxt = "if ts = [] then None else first_ad ts"
  obtain b1 where b1: "print_run emit h root True (ad t) b = leave h root p ?nxt b1"
    "holds b1 (s @ comma_if (prv \<noteq> None) @ f t)"
    using printsD [of h root p t "f t" prv ?nxt b s] Cons.prems by auto
  show ?case
  proof (cases ts)
    case Nil
    with b1 show ?thesis by (auto simp: leave_def)
  next
    case (Cons u us)
    then have "\<exists>b'. print_run emit h root True (ad (hd ts)) b1 = print_run emit h root False p b'
        \<and> holds b' ((s @ comma_if (prv \<noteq> None) @ f t) @ comma_if (Some (ad t) \<noteq> None) @ commas (map f ts))"
      using Cons.prems b1(2) by (intro Cons.IH) auto
    with b1 Cons show ?thesis by (auto simp: leave_def comma_if_def)
  qed
qed simp

text \<open>Printing the children of an open container, from its opening bracket to its closing one.\<close>

lemma print_container:
  assumes rep: "rep (cells h) par prv nxt (ANode a t x cs)" and t: "t = JSON_OBJECT \<or> t = JSON_ARRAY"
    and kids: "\<forall>u\<in>set cs. prints h root a u (f u)" and b: "holds b s"
  shows "\<exists>b'. print_run emit h root True a b = print_run emit h root False a b'
    \<and> holds b' (s @ comma_if (prv \<noteq> None \<and> a \<noteq> root) @ (if t = JSON_OBJECT then ''{'' else ''['' ) @ commas (map f cs))"
proof -
  let ?ps = "(if prv \<noteq> None \<and> a \<noteq> root then [Ch CHR '','' ] else [])
    @ [Ch (if t = JSON_OBJECT then CHR ''{'' else CHR ''['' )]"
  have o: "(if True then print_open h root a else print_close h root a)
    = Some (?ps, case first_ad cs of Some k \<Rightarrow> Goto True k | None \<Rightarrow> Goto False a)"
    using rep t by (auto simp: print_open_def descend_def)
  have ps: "pieces_text ?ps = comma_if (prv \<noteq> None \<and> a \<noteq> root) @ (if t = JSON_OBJECT then ''{'' else ''['' )"
    by (simp add: comma_if_def)
  show ?thesis
  proof (cases cs)
    case Nil
    with print_step [OF _ b, of True h root a ?ps False a] o show ?thesis unfolding ps by simp
  next
    case (Cons u us)
    then obtain b1 where b1: "print_run emit h root True a b = print_run emit h root True (ad u) b1"
      "holds b1 (s @ pieces_text ?ps)"
      using print_step [OF _ b, of True h root a ?ps True "ad u"] o by auto
    have "\<exists>b'. print_run emit h root True (ad (hd cs)) b1 = print_run emit h root False a b'
      \<and> holds b' ((s @ pieces_text ?ps) @ comma_if (None \<noteq> (None :: addr option)) @ commas (map f cs))"
      using rep kids b1(2) Cons by (intro print_siblings) auto
    with b1(1) Cons show ?thesis unfolding ps by (auto simp: comma_if_def [of False])
  qed
qed

lemma print_leave:
  assumes "rep (cells h) (Some p) prv nxt (ANode a t x cs)" "a \<noteq> root" "holds b s"
  shows "\<exists>b'. print_run emit h root False a b = leave h root p nxt b' \<and> holds b' (s @
    (case t of JSON_OBJECT \<Rightarrow> ''}'' | JSON_ARRAY \<Rightarrow> '']'' | _ \<Rightarrow> []))"
  using print_step [OF _ assms(3), of False h root a
      "case t of JSON_OBJECT \<Rightarrow> [Ch CHR ''}''] | JSON_ARRAY \<Rightarrow> [Ch CHR '']'' ] | _ \<Rightarrow> []"
      "nxt \<noteq> None" "case nxt of Some n \<Rightarrow> n | None \<Rightarrow> p"] assms(1,2)
  by (cases t; cases nxt) (auto simp: print_close_def leave_def)

text \<open>Values without children, and the containers.\<close>

lemma print_leaf:
  assumes "rep (cells h) (Some p) prv nxt (ANode a t x [])" "a \<noteq> root" "holds b s"
    and "t \<noteq> JSON_OBJECT" "t \<noteq> JSON_ARRAY" "t = JSON_STRING \<or> t = JSON_NUMBER \<Longrightarrow> x \<noteq> None"
    and "is_type JSON_OBJECT p h = Some False"
  shows "\<exists>b'. print_run emit h root True a b = leave h root p nxt b'
    \<and> holds b' (s @ comma_if (prv \<noteq> None) @ jprint (to_json (ANode a t x [])))"
proof -
  let ?c = "if prv \<noteq> None then [Ch CHR '','' ] else []"
  let ?ps = "?c @ (case t of JSON_STRING \<Rightarrow> [Ch DQ, Str (the x), Ch DQ] | JSON_NUMBER \<Rightarrow> [Str (the x)]
    | JSON_TRUE \<Rightarrow> [Str ''true''] | JSON_FALSE \<Rightarrow> [Str ''false''] | _ \<Rightarrow> [Str ''null''])"
  have "print_open h root a = Some (?ps, Goto False a)"
    using assms(1,2,4-7) by (cases t) (auto simp: print_open_def descend_def)
  with print_step [OF _ assms(3), of True h root a ?ps False a] obtain b1 where
    b1: "print_run emit h root True a b = print_run emit h root False a b1" "holds b1 (s @ pieces_text ?ps)" by auto
  have "pieces_text ?ps = comma_if (prv \<noteq> None) @ jprint (to_json (ANode a t x []))"
    using assms(4,5) by (cases t) (simp_all add: comma_if_def)
  with print_leave [OF assms(1,2) b1(2)] b1(1) assms(4,5) show ?thesis by (cases t) auto
qed

lemma print_full:
  assumes "rep (cells h) (Some p) prv nxt (ANode a t x cs)" "a \<noteq> root" "holds b s" "t = JSON_OBJECT \<or> t = JSON_ARRAY"
    and "\<forall>u\<in>set cs. prints h root a u (f u)"
  shows "\<exists>b'. print_run emit h root True a b = leave h root p nxt b' \<and> holds b' (s @ comma_if (prv \<noteq> None)
    @ (if t = JSON_OBJECT then ''{'' else ''['' ) @ commas (map f cs) @ (if t = JSON_OBJECT then ''}'' else '']''))"
proof -
  obtain b1 where b1: "print_run emit h root True a b = print_run emit h root False a b1"
    "holds b1 (s @ comma_if (prv \<noteq> None) @ (if t = JSON_OBJECT then ''{'' else ''['' ) @ commas (map f cs))"
    using print_container [OF assms(1,4,5,3)] assms(2) by auto
  with print_leave [OF assms(1,2) b1(2)] assms(4) show ?thesis by auto
qed

text \<open>A value below something that is not an object, and a label below an object.\<close>

lemma prints_tree:
  assumes "root \<notin> set (addrs t)"
  shows "wf_value t \<Longrightarrow> is_type JSON_OBJECT p h = Some False \<Longrightarrow> prints h root p t (jprint (to_json t))"
    "wf_label t \<Longrightarrow> is_type JSON_OBJECT p h = Some True \<Longrightarrow> prints h root p t (mprint (to_member t))"
  using assms
proof (induction t arbitrary: p)
  case (ANode a t x cs)
  case 1
  have a: "a \<noteq> root" using 1(3) by simp
  show ?case
    unfolding prints_def
  proof (intro allI impI)
    fix prv nxt b s
    assume r: "rep (cells h) (Some p) prv nxt (ANode a t x cs)" and b: "holds b s"
    show "\<exists>b'. print_run emit h root True (ad (ANode a t x cs)) b = leave h root p nxt b'
      \<and> holds b' (s @ comma_if (prv \<noteq> None) @ jprint (to_json (ANode a t x cs)))"
    proof (cases "t = JSON_OBJECT \<or> t = JSON_ARRAY")
      case True
      have ty: "is_type JSON_OBJECT a h = Some (t = JSON_OBJECT)" using r by (simp add: is_type_def)
      let ?f = "if t = JSON_OBJECT then mprint \<circ> to_member else jprint \<circ> to_json"
      have "\<forall>u\<in>set cs. prints h root a u (?f u)"
        using ANode.IH [of _ a] 1 True ty by auto
      from print_full [OF r a b True this] True show ?thesis by (auto simp: comp_def)
    next
      case False
      with 1(1) have "cs = []" "t = JSON_STRING \<or> t = JSON_NUMBER \<Longrightarrow> x \<noteq> None" by (cases t; auto)+
      with print_leaf [of h p prv nxt a t x root b s] r a b False 1(1,2) show ?thesis by auto
    qed
  qed
next
  case (ANode a t x cs)
  case 2
  have a: "a \<noteq> root" using 2(3) by simp
  from 2(1) obtain u where u: "cs = [u]" "t = JSON_STRING" "x \<noteq> None" "wf_value u"
    by (auto simp: length_Suc_conv)
  show ?case
    unfolding prints_def
  proof (intro allI impI)
    fix prv nxt b s
    assume r: "rep (cells h) (Some p) prv nxt (ANode a t x cs)" and b: "holds b s"
    let ?ps = "(if prv \<noteq> None then [Ch CHR '','' ] else []) @ [Ch DQ, Str (the x), Ch DQ, Ch CHR '':'']"
    have "print_open h root a = Some (?ps, Goto True (ad u))"
      using r u a 2(2) by (auto simp: print_open_def descend_def)
    with print_step [OF _ b, of True h root a ?ps True "ad u"] obtain b1 where
      b1: "print_run emit h root True a b = print_run emit h root True (ad u) b1" "holds b1 (s @ pieces_text ?ps)" by auto
    have "is_type JSON_OBJECT a h = Some False" using r u by (simp add: is_type_def)
    then have "prints h root a u (jprint (to_json u))"
      using ANode.IH(1) [of u a] u 2(3) by auto
    from printsD [OF this _ b1(2), of None None] r u obtain b2 where
      b2: "print_run emit h root True (ad u) b1 = print_run emit h root False a b2"
        "holds b2 ((s @ pieces_text ?ps) @ jprint (to_json u))"
      by (auto simp: leave_def comma_if_def)
    from print_leave [OF r a b2(2)] u b1 b2 show "\<exists>b'. print_run emit h root True (ad (ANode a t x cs)) b = leave h root p nxt b'
      \<and> holds b' (s @ comma_if (prv \<noteq> None) @ mprint (to_member (ANode a t x cs)))"
      by (auto simp: comma_if_def)
  qed
qed

text \<open>The root: no comma, and the walk ends there.\<close>

lemma print_root:
  assumes "rep (cells h) par prv None t" "wf_value t" "ty t = JSON_OBJECT \<or> ty t = JSON_ARRAY"
    and "distinct (addrs t)" "holds b s"
  shows "\<exists>b'. print_run emit h (ad t) True (ad t) b = Some (JSON_OK, b') \<and> holds b' (s @ jprint (to_json t))"
proof (cases t)
  case (ANode a y x cs)
  then have y: "y = JSON_OBJECT \<or> y = JSON_ARRAY" using assms(3) by simp
  have ty: "is_type JSON_OBJECT a h = Some (y = JSON_OBJECT)" using assms(1) ANode by (simp add: is_type_def)
  let ?f = "if y = JSON_OBJECT then mprint \<circ> to_member else jprint \<circ> to_json"
  let ?e = "if y = JSON_OBJECT then ''}'' else '']''"
  have "prints h a a u (?f u)" if "u \<in> set cs" for u
  proof -
    have "a \<notin> set (addrs u)" using assms(4) ANode that by auto
    with prints_tree [OF this, of a h] that assms(2) y ty ANode show ?thesis by auto
  qed
  with print_container [of h par prv None a y x cs a ?f b s] assms y ANode obtain b1 where
    b1: "print_run emit h a True a b = print_run emit h a False a b1"
      "holds b1 (s @ (if y = JSON_OBJECT then ''{'' else ''['' ) @ commas (map ?f cs))"
    by (auto simp: comma_if_def)
  have "print_close h a a = Some ([Ch (hd ?e)], Finish JSON_OK)"
    using assms(1) ANode y by (auto simp: print_close_def)
  with print_finish [OF _ b1(2), of False h a a "[Ch (hd ?e)]" JSON_OK] b1(1) y ANode show ?thesis
    by (auto simp: comp_def)
qed

end

section \<open>The two outputs\<close>

interpretation to_rcs: sink rcs_emit rcs_holds
proof
  show "rcs_holds b s \<Longrightarrow> \<exists>b'. rcs_emit b p = Some b' \<and> rcs_holds b' (s @ piece_text p)" for b s p
    using rcs.add_holds [of b s] rcs.adds_holds [of b s] by (cases p) (simp_all add: rcs_emit_def)
qed

interpretation to_file: sink file_emit "(=)"
proof
  show "b = s \<Longrightarrow> \<exists>b'. file_emit b p = Some b' \<and> b' = s @ piece_text p" for b s p
    by (cases p) (simp_all add: file_emit_def)
qed

text \<open>A finished document: a well-formed tree whose root is an object or an array.\<close>

definition document :: "store \<Rightarrow> atree \<Rightarrow> bool" where
  "document h t \<longleftrightarrow> rep (cells h) None None None t \<and> distinct (addrs t) \<and> wf_value t
     \<and> (ty t = JSON_OBJECT \<or> ty t = JSON_ARRAY)"

lemma tree_to_string:
  assumes "document h t"
  shows "json_tree_to_string (ad t) h = Some (JSON_OK, Some (c_str (jprint (to_json t))))"
proof -
  have d: "rep (cells h) None None None t" "wf_value t" "ty t = JSON_OBJECT \<or> ty t = JSON_ARRAY" "distinct (addrs t)"
    using assms by (simp_all add: document_def)
  obtain b where "print_run rcs_emit h (ad t) True (ad t) (rcs_create RSTRING_DEFAULT) = Some (JSON_OK, b)"
    "rcs_holds b (jprint (to_json t))"
    using to_rcs.print_root [OF d rcs.new_holds, of RSTRING_DEFAULT] by auto
  with rcs.text_holds show ?thesis by (simp add: json_tree_to_string_def)
qed

lemma stream_output:
  assumes "document h t"
  shows "json_stream_output f (ad t) h = Some (JSON_OK, f @ jprint (to_json t) @ [CHR 0x0A])"
proof -
  have d: "rep (cells h) None None None t" "wf_value t" "ty t = JSON_OBJECT \<or> ty t = JSON_ARRAY" "distinct (addrs t)"
    using assms by (simp_all add: document_def)
  from to_file.print_root [OF d refl] show ?thesis by (auto simp: json_stream_output_def)
qed

end
