(* ===== verification/JsonParse.thy ===== *)
theory JsonParse
  imports JsonLex JsonPrint
begin

text \<open>
  \<open>json_parse_fragment\<close> and \<open>json_parse_document\<close> of \<open>src/ServerEngine/mjson/json.c\<close>: one definition
  per state of the switch, on the store of \<open>JsonTree\<close> and the lexer of \<open>JsonLex\<close>.
\<close>

section \<open>The code\<close>

text \<open>\<open>pi_p\<close> is the member \<open>p\<close>, the bytes it points to.\<close>

record json_parsing_info =
  pi_state :: nat
  lex :: lex_info
  pi_p :: "char list option"
  cursor :: "addr option"

definition json_jpi_init :: json_parsing_info where
  "json_jpi_init = \<lparr>pi_state = 0, lex = \<lparr>lex_state = 0, lex_text = None, line = 1\<rparr>, pi_p = None, cursor = None\<rparr>"

text \<open>
  One round of the loop: on to the next one, a return, or a failed assertion or undefined access.
\<close>

datatype parse_step =
  Next json_parsing_info store
  | Return json_error json_parsing_info store
  | Stuck

definition set_state :: "nat \<Rightarrow> json_parsing_info \<Rightarrow> json_parsing_info" where
  "set_state n i = i\<lparr>pi_state := n\<rparr>"

definition next_token ::
  "json_parsing_info \<Rightarrow> char list \<Rightarrow> (lex_value \<Rightarrow> json_parsing_info \<Rightarrow> parse_step) \<Rightarrow> parse_step" where
  "next_token i s k =
     (case lexer s (lex i) of
        None \<Rightarrow> Stuck
      | Some (v, q, x) \<Rightarrow> k v (i\<lparr>lex := x, pi_p := q\<rparr>))"

text \<open>A load of the cursor and of its node.\<close>

definition at_cursor :: "json_parsing_info \<Rightarrow> store \<Rightarrow> (addr \<Rightarrow> json_t \<Rightarrow> parse_step) \<Rightarrow> parse_step" where
  "at_cursor i h k =
     (case cursor i of
        None \<Rightarrow> Stuck
      | Some a \<Rightarrow> (case cells h a of None \<Rightarrow> Stuck | Some n \<Rightarrow> k a n))"

text \<open>
  \<open>temp = json_new_value (t)\<close>, its text taken from the lexer when it is a string or number, and
  \<open>json_insert_child (info->cursor, temp)\<close>.
\<close>

definition add_child :: "json_value_type \<Rightarrow> json_parsing_info \<Rightarrow> store \<Rightarrow>
    (addr \<Rightarrow> json_parsing_info \<Rightarrow> store \<Rightarrow> parse_step) \<Rightarrow> parse_step" where
  "add_child t i h k =
     (let (a, h1) = json_new_value t h;
          insert = (\<lambda>i h2. case cursor i of
              None \<Rightarrow> Stuck
            | Some c \<Rightarrow> (case json_insert_child c a h2 of
                None \<Rightarrow> Stuck
              | Some (e, h3) \<Rightarrow> if e \<noteq> JSON_OK then Return JSON_UNKNOWN_PROBLEM i h3 else k a i h3))
      in if t = JSON_STRING \<or> t = JSON_NUMBER then
           (case lex_text (lex i) of
              None \<Rightarrow> Stuck
            | Some r \<Rightarrow>
                (case rcs_unwrap r of
                   None \<Rightarrow> Stuck
                 | Some s \<Rightarrow>
                     (case change a (jtext_update (\<lambda>_. Some s)) h1 of
                        None \<Rightarrow> Stuck
                      | Some h2 \<Rightarrow> insert (i\<lparr>lex := (lex i)\<lparr>lex_text := None\<rparr>\<rparr>) h2)))
         else insert i h1)"

text \<open>Behind a closing bracket below a parent: back to the enclosing object or array.\<close>

definition close_value :: "parse_step \<Rightarrow> json_parsing_info \<Rightarrow> store \<Rightarrow> parse_step" where
  "close_value no_object i h =
     at_cursor i h (\<lambda>a n.
       case parent n of
         None \<Rightarrow> Next (set_state 99 i) h
       | Some p \<Rightarrow>
           let i1 = i\<lparr>cursor := Some p\<rparr> in at_cursor i1 h (\<lambda>p np.
             case jtype np of
               JSON_STRING \<Rightarrow>
                 (case parent np of
                    None \<Rightarrow> no_object
                  | Some q \<Rightarrow>
                      let i2 = i\<lparr>cursor := Some q\<rparr> in at_cursor i2 h (\<lambda>q nq.
                        if jtype nq \<noteq> JSON_OBJECT then Return JSON_BAD_TREE_STRUCTURE i2 h
                        else Next (set_state 3 i2) h))
             | JSON_ARRAY \<Rightarrow> Next (set_state 9 i1) h
             | _ \<Rightarrow> Return JSON_BAD_TREE_STRUCTURE i1 h))"

text \<open>Cases 1 and 7: the node of an object or array; nothing is read.\<close>

definition open_container :: "json_value_type \<Rightarrow> nat \<Rightarrow> json_parsing_info \<Rightarrow> store \<Rightarrow> parse_step" where
  "open_container t n i h =
     (case cursor i of
        None \<Rightarrow> (let (a, h1) = json_new_value t h in Next (set_state n (i\<lparr>cursor := Some a\<rparr>)) h1)
      | Some _ \<Rightarrow> at_cursor i h (\<lambda>a c.
          if jtype c = JSON_STRING \<or> jtype c = JSON_ARRAY then
            add_child t i h (\<lambda>a i h. Next (set_state n (i\<lparr>cursor := Some a\<rparr>)) h)
          else Stuck))"

text \<open>The other cases: the inner switch on the token \<open>v\<close>.\<close>

definition parse_start :: "lex_value \<Rightarrow> json_parsing_info \<Rightarrow> store \<Rightarrow> parse_step" where
  "parse_start v i h =
     (if v = LEX_BEGIN_OBJECT then Next (set_state 1 i) h else Return JSON_MALFORMED_DOCUMENT i h)"

definition new_label :: "json_parsing_info \<Rightarrow> store \<Rightarrow> parse_step" where
  "new_label i h = add_child JSON_STRING i h (\<lambda>a i h. Next (set_state 5 (i\<lparr>cursor := Some a\<rparr>)) h)"

definition parse_object_start :: "lex_value \<Rightarrow> json_parsing_info \<Rightarrow> store \<Rightarrow> parse_step" where
  "parse_object_start v i h =
     (case v of
        LEX_STRING \<Rightarrow> new_label i h
      | LEX_END_OBJECT \<Rightarrow> close_value Stuck i h
      | LEX_MORE \<Rightarrow> Return JSON_INCOMPLETE_DOCUMENT i h
      | _ \<Rightarrow> Return JSON_MALFORMED_DOCUMENT i h)"

definition parse_field_end :: "lex_value \<Rightarrow> json_parsing_info \<Rightarrow> store \<Rightarrow> parse_step" where
  "parse_field_end v i h =
     (case v of
        LEX_VALUE_SEPARATOR \<Rightarrow> Next (set_state 4 i) h
      | LEX_END_OBJECT \<Rightarrow> close_value Stuck i h
      | LEX_MORE \<Rightarrow> Return JSON_INCOMPLETE_DOCUMENT i h
      | _ \<Rightarrow> Return JSON_MALFORMED_DOCUMENT i h)"

definition parse_sibling :: "lex_value \<Rightarrow> json_parsing_info \<Rightarrow> store \<Rightarrow> parse_step" where
  "parse_sibling v i h =
     (case v of
        LEX_STRING \<Rightarrow> new_label i h
      | LEX_MORE \<Rightarrow> Return JSON_INCOMPLETE_DOCUMENT i h
      | LEX_INVALID_CHARACTER \<Rightarrow> Return JSON_ILLEGAL_CHARACTER i h
      | _ \<Rightarrow> Return JSON_MALFORMED_DOCUMENT i h)"

definition parse_name_separator :: "lex_value \<Rightarrow> json_parsing_info \<Rightarrow> store \<Rightarrow> parse_step" where
  "parse_name_separator v i h =
     (case v of
        LEX_NAME_SEPARATOR \<Rightarrow> Next (set_state 6 i) h
      | LEX_MORE \<Rightarrow> Return JSON_INCOMPLETE_DOCUMENT i h
      | _ \<Rightarrow> Return JSON_MALFORMED_DOCUMENT i h)"

text \<open>
  A value of a field is inserted below its label, then the cursor goes back to the object.  The
  state 99 set for a label without a parent is overwritten by 3 at once.
\<close>

definition field_value :: "json_value_type \<Rightarrow> json_parsing_info \<Rightarrow> store \<Rightarrow> parse_step" where
  "field_value t i h = add_child t i h (\<lambda>a i h. at_cursor i h (\<lambda>c n.
     Next (set_state 3 (case parent n of None \<Rightarrow> set_state 99 i | Some p \<Rightarrow> i\<lparr>cursor := Some p\<rparr>)) h))"

definition parse_field_value :: "lex_value \<Rightarrow> json_parsing_info \<Rightarrow> store \<Rightarrow> parse_step" where
  "parse_field_value v i h =
     (case v of
        LEX_STRING \<Rightarrow> field_value JSON_STRING i h
      | LEX_NUMBER \<Rightarrow> field_value JSON_NUMBER i h
      | LEX_TRUE \<Rightarrow> field_value JSON_TRUE i h
      | LEX_FALSE \<Rightarrow> field_value JSON_FALSE i h
      | LEX_NULL \<Rightarrow> field_value JSON_NULL i h
      | LEX_BEGIN_OBJECT \<Rightarrow> Next (set_state 1 i) h
      | LEX_BEGIN_ARRAY \<Rightarrow> Next (set_state 7 i) h
      | LEX_MORE \<Rightarrow> Return JSON_INCOMPLETE_DOCUMENT i h
      | LEX_MEMORY \<Rightarrow> Return JSON_MEMORY i h
      | LEX_INVALID_CHARACTER \<Rightarrow> Return JSON_ILLEGAL_CHARACTER i h
      | _ \<Rightarrow> Return JSON_MALFORMED_DOCUMENT i h)"

definition element :: "json_value_type \<Rightarrow> json_parsing_info \<Rightarrow> store \<Rightarrow> parse_step" where
  "element t i h = add_child t i h (\<lambda>a i h. Next (set_state 9 i) h)"

text \<open>The parent of the node the cursor stands on.\<close>

definition to_parent :: "json_parsing_info \<Rightarrow> store \<Rightarrow> json_parsing_info" where
  "to_parent i h = i\<lparr>cursor := Option.bind (Option.bind (cursor i) (cells h)) parent\<rparr>"

definition parse_array_start :: "lex_value \<Rightarrow> json_parsing_info \<Rightarrow> store \<Rightarrow> parse_step" where
  "parse_array_start v i h =
     (case v of
        LEX_STRING \<Rightarrow> element JSON_STRING i h
      | LEX_NUMBER \<Rightarrow> element JSON_NUMBER i h
      | LEX_TRUE \<Rightarrow> element JSON_TRUE i h
      | LEX_FALSE \<Rightarrow> element JSON_FALSE i h
      | LEX_NULL \<Rightarrow> element JSON_NULL i h
      | LEX_BEGIN_ARRAY \<Rightarrow> Next (set_state 7 i) h
      | LEX_END_ARRAY \<Rightarrow> close_value (Return JSON_BAD_TREE_STRUCTURE (to_parent i h) h) i h
      | LEX_BEGIN_OBJECT \<Rightarrow> Next (set_state 1 i) h
      | LEX_MORE \<Rightarrow> Return JSON_INCOMPLETE_DOCUMENT i h
      | LEX_INVALID_CHARACTER \<Rightarrow> Return JSON_ILLEGAL_CHARACTER i h
      | _ \<Rightarrow> Return JSON_MALFORMED_DOCUMENT i h)"

definition parse_element_end :: "lex_value \<Rightarrow> json_parsing_info \<Rightarrow> store \<Rightarrow> parse_step" where
  "parse_element_end v i h =
     (case v of
        LEX_VALUE_SEPARATOR \<Rightarrow> Next (set_state 8 i) h
      | LEX_END_ARRAY \<Rightarrow> close_value (Next (set_state 99 (to_parent i h)) h) i h
      | LEX_MORE \<Rightarrow> Return JSON_INCOMPLETE_DOCUMENT i h
      | _ \<Rightarrow> Return JSON_MALFORMED_DOCUMENT i h)"

definition parse_finished :: "lex_value \<Rightarrow> json_parsing_info \<Rightarrow> store \<Rightarrow> parse_step" where
  "parse_finished v i h =
     (case v of
        LEX_MORE \<Rightarrow> Return JSON_WAITING_FOR_EOF i h
      | LEX_MEMORY \<Rightarrow> Return JSON_MEMORY i h
      | _ \<Rightarrow> Return JSON_MALFORMED_DOCUMENT i h)"

text \<open>The sanity checks in front of the inner switch of each case.\<close>

definition sane :: "json_parsing_info \<Rightarrow> store \<Rightarrow> bool" where
  "sane i h =
     (let n = pi_state i; c = Option.bind (cursor i) (cells h) in
      if n \<in> {2, 3, 4} then map_option jtype c = Some JSON_OBJECT
      else if n \<in> {5, 6} then map_option jtype c = Some JSON_STRING
      else if n = 8 then map_option jtype c = Some JSON_ARRAY
      else if n = 9 then cursor i \<noteq> None
      else if n = 99 then map_option parent c = Some None
      else True)"

definition parse_token :: "lex_value \<Rightarrow> json_parsing_info \<Rightarrow> store \<Rightarrow> parse_step" where
  "parse_token v i h =
     (let n = pi_state i in
      if n = 0 then parse_start v i h
      else if n = 2 then parse_object_start v i h
      else if n = 3 then parse_field_end v i h
      else if n = 4 then parse_sibling v i h
      else if n = 5 then parse_name_separator v i h
      else if n = 6 then parse_field_value v i h
      else if n = 8 then parse_array_start v i h
      else if n = 9 then parse_element_end v i h
      else parse_finished v i h)"

definition parse_state :: "json_parsing_info \<Rightarrow> char list \<Rightarrow> store \<Rightarrow> parse_step" where
  "parse_state i s h =
     (let n = pi_state i in
      if n = 1 then open_container JSON_OBJECT 2 i h
      else if n = 7 then open_container JSON_ARRAY 8 i h
      else if n \<in> {0, 2, 3, 4, 5, 6, 8, 9, 99} then
        (if sane i h then next_token i s (\<lambda>v i. parse_token v i h) else Stuck)
      else Return JSON_UNKNOWN_PROBLEM i h)"

section \<open>Every round consumes something\<close>

definition nexts :: "(json_parsing_info \<Rightarrow> store \<Rightarrow> bool) \<Rightarrow> parse_step \<Rightarrow> bool" where
  "nexts P st \<longleftrightarrow> (case st of Next i h \<Rightarrow> P i h | _ \<Rightarrow> True)"

lemma nexts_simps [simp]:
  "nexts P (Next i h) = P i h" "nexts P (Return e i h)" "nexts P Stuck"
  by (simp_all add: nexts_def)

lemma nexts_at_cursor: "(\<And>a n. nexts P (k a n)) \<Longrightarrow> nexts P (at_cursor i h k)"
  by (simp add: at_cursor_def split: option.split)

lemma nexts_add_child:
  "(\<And>a x h. lex_state x = lex_state (lex i) \<Longrightarrow> nexts P (k a (i\<lparr>lex := x\<rparr>) h)) \<Longrightarrow> nexts P (add_child t i h k)"
proof -
  assume k: "\<And>a x h. lex_state x = lex_state (lex i) \<Longrightarrow> nexts P (k a (i\<lparr>lex := x\<rparr>) h)"
  from k [of "lex i"] have "nexts P (k a i h)" for a h by simp
  with k [of "(lex i)\<lparr>lex_text := None\<rparr>"] show ?thesis
    by (simp add: add_child_def Let_def split: option.split prod.split)
qed

lemma set_state_sel [simp]:
  "pi_state (set_state n i) = n" "lex (set_state n i) = lex i" "pi_p (set_state n i) = pi_p i"
  "cursor (set_state n i) = cursor i" "pi_p (to_parent i h) = pi_p i" "lex (to_parent i h) = lex i"
  by (simp_all add: set_state_def to_parent_def)

lemma nexts_close:
  assumes "nexts P k" "\<And>n c. n \<in> {3, 9, 99} \<Longrightarrow> P (set_state n (i\<lparr>cursor := c\<rparr>)) h"
  shows "nexts P (close_value k i h)"
proof -
  have "P (set_state 99 i) h" using assms(2) [of 99 "cursor i"] by simp
  with assms show ?thesis
    by (auto simp: close_value_def Let_def at_cursor_def split: option.split json_value_type.split)
qed

text \<open>A round on a token keeps \<open>p\<close> and the state of the lexer.\<close>

lemma parse_token_keeps:
  "nexts (\<lambda>j h. pi_p j = pi_p i \<and> lex_state (lex j) = lex_state (lex i)
     \<and> (v = LEX_STRING \<or> v = LEX_NUMBER \<longrightarrow> pi_state j \<noteq> 1 \<and> pi_state j \<noteq> 7)) (parse_token v i h)"
  unfolding parse_token_def parse_start_def parse_object_start_def parse_field_end_def parse_sibling_def
    parse_name_separator_def parse_field_value_def parse_array_start_def parse_element_end_def parse_finished_def
    new_label_def field_value_def element_def Let_def
  by (auto split: lex_value.split option.split intro!: nexts_add_child nexts_close nexts_at_cursor)

definition parse_measure :: "json_parsing_info \<Rightarrow> nat" where
  "parse_measure i = 3 * length (the (pi_p i)) + (if lex_state (lex i) \<noteq> 0 then 2 else 0)
     + (if pi_state i = 1 \<or> pi_state i = 7 then 1 else 0)"

lemma parse_state_measure:
  assumes "pi_p i = Some s" "pi_p j \<noteq> None" "parse_state i s h = Next j h'"
  shows "parse_measure j < parse_measure i"
proof (cases "pi_state i = 1 \<or> pi_state i = 7")
  case True
  have "nexts (\<lambda>j h. pi_p j = pi_p i \<and> lex_state (lex j) = lex_state (lex i) \<and> pi_state j \<in> {2, 8}) (parse_state i s h)"
    using True by (auto simp: parse_state_def open_container_def Let_def split: option.split prod.split
        intro!: nexts_at_cursor nexts_add_child)
  with assms True show ?thesis by (auto simp: parse_measure_def)
next
  case False
  with assms(3) obtain v q x where l: "lexer s (lex i) = Some (v, q, x)"
    and k: "parse_token v (i\<lparr>lex := x, pi_p := q\<rparr>) h = Next j h'"
    by (auto simp: parse_state_def next_token_def Let_def split: if_splits option.splits prod.splits)
  have j: "pi_p j = q" "lex_state (lex j) = lex_state x"
      "v = LEX_STRING \<or> v = LEX_NUMBER \<longrightarrow> pi_state j \<noteq> 1 \<and> pi_state j \<noteq> 7"
    using parse_token_keeps [of "i\<lparr>lex := x, pi_p := q\<rparr>" v h] k by auto
  have v: "v \<noteq> LEX_INVALID_CHARACTER"
    using k by (auto simp: parse_token_def parse_start_def parse_object_start_def parse_field_end_def parse_sibling_def
      parse_name_separator_def parse_field_value_def parse_array_start_def parse_element_end_def parse_finished_def Let_def
      split: if_splits)
  from lexer_progress [OF l] v j assms False show ?thesis by (auto simp: parse_measure_def)
qed

text \<open>\<open>while (*info->p != '\0')\<close>; a null \<open>p\<close> is undefined.\<close>

function parse_loop :: "json_parsing_info \<Rightarrow> store \<Rightarrow> (json_error \<times> json_parsing_info \<times> store) option" where
  "parse_loop i h =
     (case pi_p i of
        None \<Rightarrow> None
      | Some s \<Rightarrow>
          if s = [] then
            Some (if pi_state i = 99 then JSON_WAITING_FOR_EOF else JSON_INCOMPLETE_DOCUMENT, i\<lparr>pi_p := None\<rparr>, h)
          else (case parse_state i s h of
                  Next j h' \<Rightarrow> if pi_p j = None then None else parse_loop j h'
                | Return e j h' \<Rightarrow> Some (e, j, h')
                | Stuck \<Rightarrow> None))"
  by pat_completeness auto
termination
  by (relation "measure (\<lambda>(i, h). parse_measure i)") (auto intro: parse_state_measure)

declare parse_loop.simps [simp del]

definition json_parse_fragment ::
  "json_parsing_info \<Rightarrow> char list \<Rightarrow> store \<Rightarrow> (json_error \<times> json_parsing_info \<times> store) option" where
  "json_parse_fragment i buffer h = parse_loop (i\<lparr>pi_p := Some buffer\<rparr>) h"

text \<open>The result and \<open>*root\<close>, which is null before the call.\<close>

definition json_parse_document :: "char list \<Rightarrow> store \<Rightarrow> (json_error \<times> addr option \<times> store) option" where
  "json_parse_document text h = do {
     (e, i, h1) \<leftarrow> json_parse_fragment json_jpi_init text h;
     Some (if e = JSON_WAITING_FOR_EOF \<or> e = JSON_OK then (JSON_OK, cursor i, h1) else (e, None, h1)) }"

section \<open>The tree under construction\<close>

text \<open>Every frame fits below the one that encloses it.\<close>

fun nested :: "frame list \<Rightarrow> bool" where
  "nested [] \<longleftrightarrow> True"
| "nested ((a, t, x, ls) # fs) \<longleftrightarrow> nested fs \<and>
     (case t of
        JSON_OBJECT \<Rightarrow> x = None \<and> (\<forall>l\<in>set ls. wf_label l)
          \<and> (fs = [] \<or> (case fs of (_, u, _) # _ \<Rightarrow> u = JSON_STRING \<or> u = JSON_ARRAY))
      | JSON_ARRAY \<Rightarrow> x = None \<and> (\<forall>l\<in>set ls. wf_value l)
          \<and> (case fs of [] \<Rightarrow> False | (_, u, _) # _ \<Rightarrow> u = JSON_STRING \<or> u = JSON_ARRAY)
      | JSON_STRING \<Rightarrow> x \<noteq> None \<and> ls = [] \<and> (case fs of [] \<Rightarrow> False | (_, u, _) # _ \<Rightarrow> u = JSON_OBJECT)
      | _ \<Rightarrow> False)"

text \<open>The parser is in state \<open>n\<close>, its cursor on the first of the frames the store holds.\<close>

definition stands :: "nat \<Rightarrow> frame list \<Rightarrow> json_parsing_info \<Rightarrow> store \<Rightarrow> bool" where
  "stands n fs i h \<longleftrightarrow> pi_state i = n \<and> cursor i = top_ad fs \<and> holds_frames h fs"

lemma stands_set_state [simp]: "stands n fs i h \<Longrightarrow> stands m fs (set_state m i) h"
  by (simp add: stands_def)

lemma holds_top: "holds_frames h ((a, t, x, ls) # fs) \<Longrightarrow> cells h a = Some (open_node t x ls None fs)"
  by (simp add: holds_frames_def)

lemma holds_next: "holds_frames h (f # (b, t, x, ls) # fs) \<Longrightarrow> cells h b = Some (open_node t x ls (top_ad (f # (b, t, x, ls) # fs)) fs)"
  by (cases f) (simp add: holds_frames_def)

text \<open>Adding a child: its text is the one of the lexer for strings and numbers.\<close>

definition child_text :: "json_value_type \<Rightarrow> lex_info \<Rightarrow> char list option \<Rightarrow> bool" where
  "child_text t x y \<longleftrightarrow>
     (if t = JSON_STRING \<or> t = JSON_NUMBER then \<exists>s. in_state 0 s x \<and> y = Some (c_str s)
      else lex_state x = 0 \<and> y = None)"

lemma new_value_alloc:
  "json_new_value u h = (fresh h, alloc u None h)"
  "change (fresh h) (jtext_update (\<lambda>_. Some s)) (alloc u None h) = Some (alloc u (Some s) h)"
  by (cases h; simp add: json_new_value_def change_def blank_def alloc_def node_def)+

lemma add_child_frame:
  assumes st: "stands n ((a, t, x, ls) # fs) i h" and y: "child_text u (lex i) y"
    and acc: "may_hold t (ANode (fresh h) u y [])"
  shows "\<exists>z h'. add_child u i h k = k (fresh h) (i\<lparr>lex := z\<rparr>) h' \<and> lex_state z = 0
    \<and> holds_frames h' ((fresh h, u, y, []) # (a, t, x, ls) # fs)"
proof -
  have c: "cursor i = Some a" and h: "holds_frames h ((a, t, x, ls) # fs)" using st by (auto simp: stands_def)
  obtain h' where h': "json_insert_child a (fresh h) (alloc u y h) = Some (JSON_OK, h')"
      "holds_frames h' ((fresh h, u, y, []) # (a, t, x, ls) # fs)"
    using insert_open [OF h acc] by blast
  show ?thesis
  proof (cases "u = JSON_STRING \<or> u = JSON_NUMBER")
    case True
    with y obtain s r where s: "lex_state (lex i) = 0" "lex_text (lex i) = Some r" "rcs_holds r s" "y = Some (c_str s)"
      by (auto simp: child_text_def in_state_def)
    have "add_child u i h k = k (fresh h) (i\<lparr>lex := (lex i)\<lparr>lex_text := None\<rparr>\<rparr>) h'"
      using True s c h'(1) rcs.text_holds [OF s(3)]
      by (auto simp: add_child_def new_value_alloc)
    with s(1) h'(2) show ?thesis by (intro exI [of _ "(lex i)\<lparr>lex_text := None\<rparr>"] exI [of _ h']) simp
  next
    case False
    with y have s: "lex_state (lex i) = 0" "y = None" by (auto simp: child_text_def)
    have "add_child u i h k = k (fresh h) (i\<lparr>lex := lex i\<rparr>) h'"
      using False s c h'(1)
      by (auto simp: add_child_def new_value_alloc)
    with s(1) h'(2) show ?thesis by (intro exI [of _ "lex i"] exI [of _ h']) simp
  qed
qed


section \<open>What a token does to the frames\<close>

lemma may_hold_leaf:
  "may_hold JSON_OBJECT (ANode b JSON_STRING y [])" "may_hold JSON_STRING (ANode b u y [])"
  "may_hold JSON_ARRAY (ANode b u y [])"
  by (cases u; simp add: may_hold_def accepts_def blank_def)+

text \<open>A label of an object, in the states 2 and 4.\<close>

lemma label_stands:
  assumes "stands n ((a, JSON_OBJECT, x, ls) # fs) i h" "in_state 0 s (lex i)"
  shows "\<exists>j h'. new_label i h = Next j h' \<and> lex_state (lex j) = 0 \<and> pi_p j = pi_p i
    \<and> stands 5 ((fresh h, JSON_STRING, Some (c_str s), []) # (a, JSON_OBJECT, x, ls) # fs) j h'"
proof -
  have "child_text JSON_STRING (lex i) (Some (c_str s))" using assms(2) by (auto simp: child_text_def)
  from add_child_frame [OF assms(1) this may_hold_leaf(1)] show ?thesis
    unfolding new_label_def by (fastforce simp: stands_def set_state_def)
qed

text \<open>A string, number or word as the value of a field, and as the element of an array.\<close>

definition leaf :: "json_value_type \<Rightarrow> bool" where
  "leaf u \<longleftrightarrow> u \<noteq> JSON_OBJECT \<and> u \<noteq> JSON_ARRAY"

lemma field_stands:
  assumes "stands 6 ((l, JSON_STRING, k, []) # (a, t, x, ls) # fs) i h" "child_text u (lex i) y"
  shows "\<exists>j h' b. field_value u i h = Next j h' \<and> lex_state (lex j) = 0 \<and> pi_p j = pi_p i
    \<and> stands 3 ((a, t, x, ls @ [ANode l JSON_STRING k [ANode b u y []]]) # fs) j h'"
proof -
  obtain z h' where h': "field_value u i h = at_cursor (i\<lparr>lex := z\<rparr>) h' (\<lambda>c n.
      Next (set_state 3 (case parent n of None \<Rightarrow> set_state 99 (i\<lparr>lex := z\<rparr>) | Some p \<Rightarrow> i\<lparr>lex := z, cursor := Some p\<rparr>)) h')"
      "lex_state z = 0" "holds_frames h' ((fresh h, u, y, []) # (l, JSON_STRING, k, []) # (a, t, x, ls) # fs)"
    using add_child_frame [OF assms may_hold_leaf(2)] unfolding field_value_def by fastforce
  have l: "holds_frames h' ((l, JSON_STRING, k, [ANode (fresh h) u y []]) # (a, t, x, ls) # fs)"
    using h'(3) by (simp add: close_frame)
  then have "holds_frames h' ((a, t, x, ls @ [ANode l JSON_STRING k [ANode (fresh h) u y []]]) # fs)"
    by (simp add: close_frame)
  moreover have "cells h' l = Some (open_node JSON_STRING k [ANode (fresh h) u y []] None ((a, t, x, ls) # fs))"
    using l by (rule holds_top)
  ultimately show ?thesis
    using assms(1) h'(1,2) by (fastforce simp: stands_def at_cursor_def open_node_def set_state_def)
qed

lemma element_stands:
  assumes "stands 8 ((a, JSON_ARRAY, x, ls) # fs) i h" "child_text u (lex i) y"
  shows "\<exists>j h' b. element u i h = Next j h' \<and> lex_state (lex j) = 0 \<and> pi_p j = pi_p i
    \<and> stands 9 ((a, JSON_ARRAY, x, ls @ [ANode b u y []]) # fs) j h'"
proof -
  obtain z h' where "element u i h = Next (set_state 9 (i\<lparr>lex := z\<rparr>)) h'" "lex_state z = 0"
      "holds_frames h' ((fresh h, u, y, []) # (a, JSON_ARRAY, x, ls) # fs)"
    using add_child_frame [OF assms may_hold_leaf(3)] unfolding element_def by fastforce
  with assms(1) show ?thesis by (fastforce simp: stands_def close_frame set_state_def)
qed

lemma open_stands:
  assumes "stands n ((a, t, x, ls) # fs) i h" "t = JSON_STRING \<or> t = JSON_ARRAY" "lex_state (lex i) = 0"
    "u = JSON_OBJECT \<or> u = JSON_ARRAY"
  shows "\<exists>j h'. open_container u m i h = Next j h' \<and> lex_state (lex j) = 0 \<and> pi_p j = pi_p i
    \<and> stands m ((fresh h, u, None, []) # (a, t, x, ls) # fs) j h'"
proof -
  have c: "cursor i = Some a" "cells h a = Some (open_node t x ls None fs)"
    using assms(1) by (auto simp: stands_def dest: holds_top)
  have y: "child_text u (lex i) None" using assms(3,4) by (auto simp: child_text_def)
  have m: "may_hold t (ANode (fresh h) u None [])" using assms(2) may_hold_leaf by auto
  show ?thesis using add_child_frame [OF assms(1) y m] c assms(2)
    unfolding open_container_def by (fastforce simp: stands_def set_state_def at_cursor_def open_node_def)
qed

lemma open_root:
  assumes "stands n [] i h"
  shows "\<exists>j h'. open_container u m i h = Next j h' \<and> lex j = lex i \<and> pi_p j = pi_p i
    \<and> stands m [(fresh h, u, None, [])] j h'"
proof -
  have "holds_frames (alloc u None h) [(fresh h, u, None, [])]"
    by (simp add: holds_frames_def alloc_def open_node_def)
  with assms show ?thesis
    by (simp add: stands_def open_container_def new_value_alloc set_state_def)
qed

text \<open>A closing bracket: the value becomes the last child of its array, or the value of its label.\<close>

definition closed :: "frame list \<Rightarrow> (nat \<times> frame list) option" where
  "closed fs = (case fs of
      [] \<Rightarrow> None
    | [f] \<Rightarrow> Some (99, [f])
    | (a, t, x, ls) # (b, u, y, us) # gs \<Rightarrow>
        let l = ANode b u y (us @ [ANode a t x ls]) in
        if u = JSON_ARRAY then Some (9, (b, u, y, us @ [ANode a t x ls]) # gs)
        else if u = JSON_STRING then
          (case gs of
             (c, JSON_OBJECT, z, vs) # hs \<Rightarrow> Some (3, (c, JSON_OBJECT, z, vs @ [l]) # hs)
           | _ \<Rightarrow> None)
        else None)"

lemma closed_simps [simp]:
  "closed [] = None" "closed [f] = Some (99, [f])"
  "closed ((a, t, x, ls) # (b, JSON_ARRAY, y, us) # fs) = Some (9, (b, JSON_ARRAY, y, us @ [ANode a t x ls]) # fs)"
  "closed ((a, t, x, ls) # (b, JSON_STRING, y, us) # (c, JSON_OBJECT, z, vs) # fs) =
     Some (3, (c, JSON_OBJECT, z, vs @ [ANode b JSON_STRING y (us @ [ANode a t x ls])]) # fs)"
  by (simp_all add: closed_def)

lemma closed_cases:
  assumes "closed fs = Some (m, fs')"
  obtains (root) a t x ls where "fs = [(a, t, x, ls)]" "m = 99" "fs' = fs"
  | (in_array) a t x ls b y us gs where "fs = (a, t, x, ls) # (b, JSON_ARRAY, y, us) # gs" "m = 9"
      "fs' = (b, JSON_ARRAY, y, us @ [ANode a t x ls]) # gs"
  | (in_field) a t x ls b y us c z vs gs where
      "fs = (a, t, x, ls) # (b, JSON_STRING, y, us) # (c, JSON_OBJECT, z, vs) # gs" "m = 3"
      "fs' = (c, JSON_OBJECT, z, vs @ [ANode b JSON_STRING y (us @ [ANode a t x ls])]) # gs"
proof (cases fs)
  case Nil
  with assms show ?thesis by simp
next
  case f: (Cons f gs)
  obtain a t x ls where f': "f = (a, t, x, ls)" by (cases f)
  show ?thesis
  proof (cases gs)
    case Nil
    with f f' assms have "fs = [(a, t, x, ls)]" "m = 99" "fs' = fs" by simp_all
    then show ?thesis by (rule root)
  next
    case g: (Cons g hs)
    obtain b u y us where g': "g = (b, u, y, us)" by (cases g)
    show ?thesis
    proof (cases "u = JSON_ARRAY")
      case True
      have "fs = (a, t, x, ls) # (b, JSON_ARRAY, y, us) # hs" using f f' g g' True by simp
      moreover from this assms have "m = 9" "fs' = (b, JSON_ARRAY, y, us @ [ANode a t x ls]) # hs" by simp_all
      ultimately show ?thesis by (rule in_array)
    next
      case False
      with f f' g g' assms have u: "u = JSON_STRING"
        by (simp add: closed_def split: if_splits)
      with f f' g g' assms obtain c z vs ks where "hs = (c, JSON_OBJECT, z, vs) # ks"
        by (auto simp: closed_def split: list.splits json_value_type.splits)
      with f f' g g' u have "fs = (a, t, x, ls) # (b, JSON_STRING, y, us) # (c, JSON_OBJECT, z, vs) # ks" by simp
      moreover from this assms have "m = 3"
        "fs' = (c, JSON_OBJECT, z, vs @ [ANode b JSON_STRING y (us @ [ANode a t x ls])]) # ks" by simp_all
      ultimately show ?thesis by (rule in_field)
    qed
  qed
qed

lemma close_stands:
  assumes "stands n fs i h" "closed fs = Some (m, fs')"
  shows "\<exists>j. close_value k i h = Next j h \<and> lex j = lex i \<and> pi_p j = pi_p i \<and> stands m fs' j h"
proof -
  have h: "holds_frames h fs" "cursor i = top_ad fs" using assms(1) by (auto simp: stands_def)
  from assms(2) show ?thesis
  proof (cases rule: closed_cases)
    case (root a t x ls)
    with h holds_top [of h a t x ls "[]"] show ?thesis
      by (auto simp: close_value_def at_cursor_def open_node_def stands_def set_state_def)
  next
    case (in_array a t x ls b y us gs)
    then have f: "holds_frames h ((a, t, x, ls) # (b, JSON_ARRAY, y, us) # gs)" using h by simp
    from in_array h holds_top [OF f] holds_next [OF f] show ?thesis
      by (auto simp: close_value_def at_cursor_def open_node_def stands_def set_state_def close_frame Let_def)
  next
    case (in_field a t x ls b y us c z vs gs)
    then have f: "holds_frames h ((a, t, x, ls) # (b, JSON_STRING, y, us) # (c, JSON_OBJECT, z, vs) # gs)" using h by simp
    then have g: "holds_frames h ((b, JSON_STRING, y, us @ [ANode a t x ls]) # (c, JSON_OBJECT, z, vs) # gs)"
      by (simp add: close_frame)
    then have g': "holds_frames h ((c, JSON_OBJECT, z, vs @ [ANode b JSON_STRING y (us @ [ANode a t x ls])]) # gs)"
      by (simp add: close_frame)
    from in_field h holds_top [OF f] holds_top [OF g] holds_top [OF g'] g' show ?thesis
      by (auto simp: close_value_def at_cursor_def open_node_def stands_def set_state_def Let_def)
  qed
qed

end
