(* ===== verification/JsonFragment.thy ===== *)
theory JsonFragment
  imports JsonParse
begin

text \<open>
  The invariant of the incremental JSON parser: on every text, in however many fragments, it ends
  without a failed assertion, and what it has built is a well-formed open tree.
\<close>

section \<open>The invariant of the parser\<close>

definition fits :: "nat \<Rightarrow> frame list \<Rightarrow> bool" where
  "fits n fs \<longleftrightarrow> (case fs of
      [] \<Rightarrow> n = 0 \<or> n = 1
    | (_, t, _) # gs \<Rightarrow>
        (n = 1 \<or> n = 7) \<and> (t = JSON_STRING \<or> t = JSON_ARRAY)
        \<or> n \<in> {2, 3, 4} \<and> t = JSON_OBJECT
        \<or> (n = 5 \<or> n = 6) \<and> t = JSON_STRING
        \<or> (n = 8 \<or> n = 9) \<and> t = JSON_ARRAY
        \<or> n = 99 \<and> t = JSON_OBJECT \<and> gs = [])"

definition parse_ok :: "json_parsing_info \<Rightarrow> store \<Rightarrow> bool" where
  "parse_ok i h \<longleftrightarrow> lex_ok (lex i) \<and> (pi_state i = 1 \<or> pi_state i = 7 \<longrightarrow> lex_state (lex i) = 0)
     \<and> (\<exists>fs. stands (pi_state i) fs i h \<and> nested fs \<and> fits (pi_state i) fs)"

definition ok_step :: "parse_step \<Rightarrow> bool" where
  "ok_step st \<longleftrightarrow> (case st of
      Next j h \<Rightarrow> parse_ok j h
    | Return e j h \<Rightarrow> e \<in> {JSON_INCOMPLETE_DOCUMENT, JSON_WAITING_FOR_EOF, JSON_MALFORMED_DOCUMENT,
          JSON_ILLEGAL_CHARACTER, JSON_MEMORY} \<and> (e = JSON_INCOMPLETE_DOCUMENT \<longrightarrow> parse_ok j h \<and> pi_state j \<noteq> 99)
        \<and> (e = JSON_WAITING_FOR_EOF \<longrightarrow> parse_ok j h \<and> pi_state j = 99)
    | Stuck \<Rightarrow> False)"

lemma lex_ok_root: "lex_state x = 0 \<Longrightarrow> lex_ok x"
  by (simp add: lex_ok_def)

text \<open>Moving on to another state with the same or with new frames.\<close>

lemma ok_next: "stands m gs j h \<Longrightarrow> nested gs \<Longrightarrow> fits m gs \<Longrightarrow> lex_state (lex j) = 0 \<Longrightarrow> ok_step (Next j h)"
  by (auto simp: ok_step_def parse_ok_def stands_def intro: lex_ok_root)

lemma ok_return [simp]: "ok_step (Return JSON_MALFORMED_DOCUMENT i h)" "ok_step (Return JSON_ILLEGAL_CHARACTER i h)"
    "ok_step (Return JSON_MEMORY i h)"
  by (simp_all add: ok_step_def)

lemma ok_more:
  assumes "stands n fs i h" "nested fs" "fits n fs" "lex_ok (lex i)" "n \<noteq> 1" "n \<noteq> 7"
  shows "n \<noteq> 99 \<Longrightarrow> ok_step (Return JSON_INCOMPLETE_DOCUMENT i h)" "n = 99 \<Longrightarrow> ok_step (Return JSON_WAITING_FOR_EOF i h)"
  using assms by (auto simp: ok_step_def parse_ok_def stands_def)

lemma closed_nested:
  assumes "nested ((a, t, x, ls) # fs)" "t = JSON_OBJECT \<or> t = JSON_ARRAY"
  shows "\<exists>m gs. closed ((a, t, x, ls) # fs) = Some (m, gs) \<and> nested gs \<and> fits m gs"
proof (cases fs)
  case Nil
  with assms show ?thesis by (auto simp: fits_def)
next
  case (Cons f gs)
  obtain b u y us where f: "f = (b, u, y, us)" by (cases f)
  consider "u = JSON_ARRAY" | "u = JSON_STRING" using assms Cons f by auto
  then show ?thesis
  proof cases
    case 1
    with assms Cons f show ?thesis by (auto simp: fits_def)
  next
    case 2
    with assms Cons f obtain c z vs hs where g: "gs = (c, JSON_OBJECT, z, vs) # hs" by (cases gs) auto
    from 2 assms Cons f g show ?thesis by (auto simp: fits_def)
  qed
qed

text \<open>What is known of the lexer behind the token \<open>v\<close>.\<close>

definition token_ok :: "lex_value \<Rightarrow> lex_info \<Rightarrow> bool" where
  "token_ok v x \<longleftrightarrow> (v = LEX_MORE \<longrightarrow> lex_ok x) \<and> (v = LEX_STRING \<or> v = LEX_NUMBER \<longrightarrow> (\<exists>a. in_state 0 a x))
     \<and> (v \<noteq> LEX_MORE \<and> v \<noteq> LEX_INVALID_CHARACTER \<longrightarrow> lex_state x = 0)"

definition value_token :: "lex_value \<Rightarrow> json_value_type \<Rightarrow> bool" where
  "value_token v u \<longleftrightarrow> (v, u) \<in> {(LEX_STRING, JSON_STRING), (LEX_NUMBER, JSON_NUMBER), (LEX_TRUE, JSON_TRUE),
     (LEX_FALSE, JSON_FALSE), (LEX_NULL, JSON_NULL)}"

lemma value_token_text:
  assumes "value_token v u" "token_ok v x"
  shows "\<exists>y. child_text u x y \<and> wf_value (ANode b u y [])"
proof -
  consider "v = LEX_STRING" "u = JSON_STRING" | "v = LEX_NUMBER" "u = JSON_NUMBER" | "v = LEX_TRUE" "u = JSON_TRUE"
    | "v = LEX_FALSE" "u = JSON_FALSE" | "v = LEX_NULL" "u = JSON_NULL"
    using assms(1) unfolding value_token_def by blast
  then show ?thesis
    by cases (insert assms(2), simp_all add: token_ok_def child_text_def, blast+)
qed

lemma ok_label:
  assumes "stands n ((a, JSON_OBJECT, x, ls) # fs) i h" "nested ((a, JSON_OBJECT, x, ls) # fs)" "in_state 0 s (lex i)"
  shows "ok_step (new_label i h)"
proof -
  from label_stands [OF assms(1,3)] obtain j h' where "new_label i h = Next j h'" "lex_state (lex j) = 0"
    "stands 5 ((fresh h, JSON_STRING, Some (c_str s), []) # (a, JSON_OBJECT, x, ls) # fs) j h'" by blast
  with assms(2) show ?thesis by (auto simp: fits_def intro!: ok_next)
qed

lemma ok_field:
  assumes "stands 6 ((l, JSON_STRING, k, []) # fs) i h" "nested ((l, JSON_STRING, k, []) # fs)"
    "value_token v u" "token_ok v (lex i)"
  shows "ok_step (field_value u i h)"
proof -
  obtain a x ls gs where fs: "fs = (a, JSON_OBJECT, x, ls) # gs" using assms(2) by (cases fs) auto
  obtain y where y: "child_text u (lex i) y" "\<And>b. wf_value (ANode b u y [])"
    using value_token_text [OF assms(3,4)] by (auto simp: value_token_def)
  from field_stands [OF assms(1) [unfolded fs] y(1)] obtain j h' b where "field_value u i h = Next j h'"
    "lex_state (lex j) = 0" "stands 3 ((a, JSON_OBJECT, x, ls @ [ANode l JSON_STRING k [ANode b u y []]]) # gs) j h'"
    by blast
  with assms(2) fs y(2) [of b] show ?thesis by (auto simp: fits_def intro!: ok_next)
qed

lemma ok_element:
  assumes "stands 8 ((a, JSON_ARRAY, x, ls) # fs) i h" "nested ((a, JSON_ARRAY, x, ls) # fs)"
    "value_token v u" "token_ok v (lex i)"
  shows "ok_step (element u i h)"
proof -
  obtain y where y: "child_text u (lex i) y" "\<And>b. wf_value (ANode b u y [])"
    using value_token_text [OF assms(3,4)] by (auto simp: value_token_def)
  from element_stands [OF assms(1) y(1)] obtain j h' b where "element u i h = Next j h'"
    "lex_state (lex j) = 0" "stands 9 ((a, JSON_ARRAY, x, ls @ [ANode b u y []]) # fs) j h'"
    by blast
  with assms(2) y(2) [of b] show ?thesis by (auto simp: fits_def intro!: ok_next)
qed

lemma ok_close:
  assumes "stands n ((a, t, x, ls) # fs) i h" "nested ((a, t, x, ls) # fs)" "t = JSON_OBJECT \<or> t = JSON_ARRAY"
    "lex_state (lex i) = 0"
  shows "ok_step (close_value k i h)"
proof -
  obtain m gs where g: "closed ((a, t, x, ls) # fs) = Some (m, gs)" "nested gs" "fits m gs"
    using closed_nested [OF assms(2,3)] by blast
  from close_stands [OF assms(1) g(1), of k] assms(4) g(2,3) show ?thesis
    by (auto intro!: ok_next)
qed

lemma ok_open:
  assumes "stands n fs i h" "nested fs" "fits n fs" "n = 1 \<or> n = 7" "lex_state (lex i) = 0"
    "u = (if n = 1 then JSON_OBJECT else JSON_ARRAY)" "m = n + 1"
  shows "ok_step (open_container u m i h)"
proof (cases fs)
  case Nil
  with assms(3,4) have u: "n = 1" by (auto simp: fits_def)
  from open_root [OF assms(1) [unfolded Nil], of u m] assms(5-7) u show ?thesis
    by (auto simp: fits_def intro!: ok_next)
next
  case (Cons f gs)
  obtain a t x ls where f: "f = (a, t, x, ls)" by (cases f)
  have t: "t = JSON_STRING \<or> t = JSON_ARRAY" and u: "u = JSON_OBJECT \<or> u = JSON_ARRAY"
    using assms(3,4,6) Cons f by (auto simp: fits_def)
  from open_stands [OF assms(1) [unfolded Cons f] t assms(5) u, of m] obtain j h' where
    "open_container u m i h = Next j h'" "lex_state (lex j) = 0"
    "stands m ((fresh h, u, None, []) # (a, t, x, ls) # gs) j h'" by blast
  with assms(2,4,6,7) Cons f t show ?thesis by (auto simp: fits_def intro!: ok_next)
qed

lemma ok_goto:
  assumes "stands n fs i h" "nested fs" "fits m fs" "lex_state (lex i) = 0"
  shows "ok_step (Next (set_state m i) h)"
  using stands_set_state [OF assms(1), of m] assms(2-4) by (intro ok_next) auto

text \<open>Every token in every state.\<close>

lemmas token_defs = parse_start_def parse_object_start_def parse_field_end_def parse_sibling_def
  parse_name_separator_def parse_field_value_def parse_array_start_def parse_element_end_def parse_finished_def

lemma token_zero: "token_ok v x \<Longrightarrow> v \<noteq> LEX_MORE \<Longrightarrow> v \<noteq> LEX_INVALID_CHARACTER \<Longrightarrow> lex_state x = 0"
  by (simp add: token_ok_def)

lemma ok_tokens:
  assumes s: "stands n fs i h" and n: "nested fs" and f: "fits n fs" and v: "token_ok v (lex i)"
  shows "n = 0 \<Longrightarrow> ok_step (parse_start v i h)"
    "n = 2 \<Longrightarrow> ok_step (parse_object_start v i h)" "n = 3 \<Longrightarrow> ok_step (parse_field_end v i h)"
    "n = 4 \<Longrightarrow> ok_step (parse_sibling v i h)" "n = 5 \<Longrightarrow> ok_step (parse_name_separator v i h)"
    "n = 6 \<Longrightarrow> ok_step (parse_field_value v i h)" "n = 8 \<Longrightarrow> ok_step (parse_array_start v i h)"
    "n = 9 \<Longrightarrow> ok_step (parse_element_end v i h)" "n = 99 \<Longrightarrow> ok_step (parse_finished v i h)"
proof -
  have z: "lex_state (lex i) = 0" if "v \<noteq> LEX_MORE" "v \<noteq> LEX_INVALID_CHARACTER" using v that by (rule token_zero)
  have g: "ok_step (Next (set_state m i) h)" if "fits m fs" "v \<noteq> LEX_MORE" "v \<noteq> LEX_INVALID_CHARACTER" for m
    using ok_goto [OF s n that(1)] z that by simp
  have more: "ok_step (Return JSON_INCOMPLETE_DOCUMENT i h)" if "v = LEX_MORE" "n \<notin> {1, 7, 99}"
    using ok_more [OF s n f] v that by (auto simp: token_ok_def)
  have str: "\<exists>a. in_state 0 a (lex i)" if "v = LEX_STRING" using v that by (simp add: token_ok_def)
  show "ok_step (parse_start v i h)" if "n = 0"
    using g [of 1] f that by (cases fs) (auto simp: parse_start_def fits_def)
  show "ok_step (parse_finished v i h)" if "n = 99"
    using ok_more [OF s n f] v that by (cases v) (simp_all add: parse_finished_def token_ok_def)
  have obj: "\<exists>a x ls gs. fs = (a, JSON_OBJECT, x, ls) # gs" if "n \<in> {2, 3, 4}"
    using f that by (cases fs) (auto simp: fits_def)
  show "ok_step (parse_object_start v i h)" if m: "n = 2"
  proof -
    obtain a x ls gs where fs: "fs = (a, JSON_OBJECT, x, ls) # gs" using obj m by auto
    show ?thesis using m more str z ok_label [OF s [unfolded fs] n [unfolded fs]]
        ok_close [OF s [unfolded fs] n [unfolded fs]]
      by (cases v) (auto simp: parse_object_start_def)
  qed
  show "ok_step (parse_field_end v i h)" if m: "n = 3"
  proof -
    obtain a x ls gs where fs: "fs = (a, JSON_OBJECT, x, ls) # gs" using obj m by auto
    have "fits 4 fs" using fs by (simp add: fits_def)
    then show ?thesis using m more z g [of 4] ok_close [OF s [unfolded fs] n [unfolded fs]]
      by (cases v) (auto simp: parse_field_end_def)
  qed
  show "ok_step (parse_sibling v i h)" if m: "n = 4"
  proof -
    obtain a x ls gs where fs: "fs = (a, JSON_OBJECT, x, ls) # gs" using obj m by auto
    show ?thesis using m more str ok_label [OF s [unfolded fs] n [unfolded fs]]
      by (cases v) (auto simp: parse_sibling_def)
  qed
  show "ok_step (parse_name_separator v i h)" if m: "n = 5"
  proof -
    have "fits 6 fs" using f m by (cases fs) (auto simp: fits_def)
    then show ?thesis using m more g [of 6] by (cases v) (auto simp: parse_name_separator_def)
  qed
  show "ok_step (parse_field_value v i h)" if m: "n = 6"
  proof -
    obtain l k ls gs where fs': "fs = (l, JSON_STRING, k, ls) # gs" using f m by (cases fs) (auto simp: fits_def)
    with n have fs: "fs = (l, JSON_STRING, k, []) # gs" by simp
    have "fits 1 fs" "fits 7 fs" using fs by (simp_all add: fits_def)
    moreover have "ok_step (field_value u i h)" if "value_token v u" for u
      using ok_field [OF s [unfolded fs m] n [unfolded fs] that v] .
    ultimately show ?thesis using m more g [of 1] g [of 7]
      by (cases v) (auto simp: parse_field_value_def value_token_def)
  qed
  have arr: "\<exists>a x ls gs. fs = (a, JSON_ARRAY, x, ls) # gs" if "n \<in> {8, 9}"
    using f that by (cases fs) (auto simp: fits_def)
  show "ok_step (parse_array_start v i h)" if m: "n = 8"
  proof -
    obtain a x ls gs where fs: "fs = (a, JSON_ARRAY, x, ls) # gs" using arr m by auto
    have "fits 1 fs" "fits 7 fs" using fs by (simp_all add: fits_def)
    moreover have "ok_step (element u i h)" if "value_token v u" for u
      using ok_element [OF s [unfolded fs m] n [unfolded fs] that v] .
    ultimately show ?thesis using m more z g [of 1] g [of 7] ok_close [OF s [unfolded fs] n [unfolded fs]]
      by (cases v) (auto simp: parse_array_start_def value_token_def)
  qed
  show "ok_step (parse_element_end v i h)" if m: "n = 9"
  proof -
    obtain a x ls gs where fs: "fs = (a, JSON_ARRAY, x, ls) # gs" using arr m by auto
    have "fits 8 fs" using fs by (simp add: fits_def)
    then show ?thesis using m more z g [of 8] ok_close [OF s [unfolded fs] n [unfolded fs]]
      by (cases v) (auto simp: parse_element_end_def)
  qed
qed


lemma fits_state: "fits n fs \<Longrightarrow> n \<in> {0, 1, 2, 3, 4, 5, 6, 7, 8, 9, 99}"
  by (auto simp: fits_def split: list.splits)

lemma stands_sane:
  assumes "stands n fs i h" "fits n fs"
  shows "sane i h"
proof (cases fs)
  case Nil
  with assms show ?thesis by (auto simp: sane_def stands_def fits_def)
next
  case (Cons f gs)
  obtain a t x ls where f: "f = (a, t, x, ls)" by (cases f)
  have "cursor i = Some a" "cells h a = Some (open_node t x ls None gs)" "pi_state i = n"
    using assms(1) Cons f by (auto simp: stands_def dest: holds_top)
  with assms(2) Cons f show ?thesis by (auto simp: sane_def fits_def open_node_def)
qed

lemma parse_token_ok:
  assumes "stands n fs i h" "nested fs" "fits n fs" "token_ok v (lex i)" "n \<noteq> 1" "n \<noteq> 7"
  shows "ok_step (parse_token v i h)"
proof -
  have "pi_state i = n" using assms(1) by (simp add: stands_def)
  with fits_state [OF assms(3)] ok_tokens [OF assms(1-4)] assms(5,6) show ?thesis
    by (auto simp: parse_token_def Let_def)
qed

lemma parse_state_ok:
  assumes "parse_ok i h" "pi_p i \<noteq> None"
  shows "ok_step (parse_state i s h)" "parse_state i s h = Next j h' \<Longrightarrow> pi_p j \<noteq> None"
proof -
  obtain fs where fs: "stands (pi_state i) fs i h" "nested fs" "fits (pi_state i) fs"
      and x: "lex_ok (lex i)" "pi_state i = 1 \<or> pi_state i = 7 \<longrightarrow> lex_state (lex i) = 0"
    using assms by (auto simp: parse_ok_def)
  have "ok_step (parse_state i s h) \<and> nexts (\<lambda>j h. pi_p j \<noteq> None) (parse_state i s h)"
  proof (cases "pi_state i = 1 \<or> pi_state i = 7")
    case True
    have "nexts (\<lambda>j h. pi_p j = pi_p i) (parse_state i s h)"
      using True by (auto simp: parse_state_def open_container_def Let_def split: option.split prod.split
          intro!: nexts_at_cursor nexts_add_child)
    moreover have "ok_step (parse_state i s h)"
      using True x(2) ok_open [OF fs, of JSON_OBJECT 2] ok_open [OF fs, of JSON_ARRAY 8] by (auto simp: parse_state_def)
    ultimately show ?thesis using assms(2) by (auto simp: nexts_def split: parse_step.splits)
  next
    case False
    obtain v q y where l: "lexer s (lex i) = Some (v, q, y)" "v = LEX_MORE \<longrightarrow> lex_ok y"
        "v = LEX_STRING \<or> v = LEX_NUMBER \<longrightarrow> (\<exists>a. in_state 0 a y)"
      using lexer_safe [OF x(1), of s] by blast
    let ?j = "i\<lparr>lex := y, pi_p := q\<rparr>"
    have "parse_state i s h = parse_token v ?j h"
      using False fits_state [OF fs(3)] stands_sane [OF fs(1,3)] l(1) by (auto simp: parse_state_def next_token_def Let_def)
    moreover have "token_ok v (lex ?j)" using l lexer_progress [OF l(1)] by (auto simp: token_ok_def)
    moreover have "stands (pi_state i) fs ?j h" using fs(1) by (simp add: stands_def)
    moreover have "nexts (\<lambda>j h. pi_p j = q) (parse_token v ?j h)"
      using parse_token_keeps [of ?j v h] by (auto simp: nexts_def split: parse_step.splits)
    moreover have "ok_step (parse_token LEX_MORE ?j h) \<Longrightarrow> nexts (\<lambda>j h. False) (parse_token LEX_MORE ?j h)"
      by (auto simp: parse_token_def token_defs Let_def)
    ultimately show ?thesis
      using parse_token_ok [OF _ fs(2,3), of ?j h v] False lexer_progress [OF l(1)]
      by (cases "v = LEX_MORE") (auto simp: nexts_def split: parse_step.splits)
  qed
  then show "ok_step (parse_state i s h)" "parse_state i s h = Next j h' \<Longrightarrow> pi_p j \<noteq> None"
    by auto
qed

definition ok_result :: "(json_error \<times> json_parsing_info \<times> store) option \<Rightarrow> bool" where
  "ok_result r \<longleftrightarrow> (case r of None \<Rightarrow> False | Some (e, j, h) \<Rightarrow> ok_step (Return e j h))"

lemma parse_ok_pi_p [simp]: "parse_ok (i\<lparr>pi_p := q\<rparr>) h = parse_ok i h"
  by (simp add: parse_ok_def stands_def)

lemma parse_loop_ok: "parse_ok i h \<Longrightarrow> pi_p i \<noteq> None \<Longrightarrow> ok_result (parse_loop i h)"
proof (induction i h rule: parse_loop.induct)
  case (1 i h)
  then obtain s where s: "pi_p i = Some s" by auto
  show ?case
  proof (cases "s = []")
    case True
    with s 1(2) show ?thesis by (simp add: parse_loop.simps [of i h] ok_result_def ok_step_def)
  next
    case False
    note st = parse_state_ok [OF 1(2,3), of s]
    show ?thesis
    proof (cases "parse_state i s h")
      case (Next j h')
      with st have j: "parse_ok j h'" "pi_p j \<noteq> None" by (simp_all add: ok_step_def)
      with 1(1) [OF s False Next] Next show ?thesis
        using s False by (auto simp: parse_loop.simps [of i h])
    next
      case (Return e j h')
      with st(1) show ?thesis using s False by (simp add: parse_loop.simps [of i h] ok_result_def)
    next
      case Stuck
      with st(1) show ?thesis by (simp add: ok_step_def)
    qed
  qed
qed

text \<open>
  C10: from every state the parser can be in, \<open>json_parse_fragment\<close> ends on every buffer without a failed
  assertion or undefined access, and when it asks for more it is in such a state again; whenever it
  waits for the end of the file, the cursor is the root of a finished document.
\<close>

theorem parse_fragment_safe:
  assumes "parse_ok i h"
  shows "\<exists>e j h'. json_parse_fragment i buffer h = Some (e, j, h')
    \<and> (e \<in> {JSON_INCOMPLETE_DOCUMENT, JSON_WAITING_FOR_EOF} \<longrightarrow> parse_ok j h')
    \<and> (e = JSON_WAITING_FOR_EOF \<longrightarrow> (\<exists>t. cursor j = Some (ad t) \<and> document h' t \<and> ty t = JSON_OBJECT))"
proof -
  have "ok_result (json_parse_fragment i buffer h)"
    using parse_loop_ok [of "i\<lparr>pi_p := Some buffer\<rparr>" h] assms by (simp add: json_parse_fragment_def)
  then obtain e j h' where r: "json_parse_fragment i buffer h = Some (e, j, h')" "ok_step (Return e j h')"
    by (auto simp: ok_result_def split: option.splits)
  have "\<exists>t. cursor j = Some (ad t) \<and> document h' t \<and> ty t = JSON_OBJECT" if e: "e = JSON_WAITING_FOR_EOF"
  proof -
    from r(2) e obtain fs where fs: "stands 99 fs j h'" "nested fs" "fits 99 fs"
      by (auto simp: ok_step_def parse_ok_def)
    then obtain a x ls where f: "fs = [(a, JSON_OBJECT, x, ls)]"
      by (cases fs) (auto simp: fits_def)
    let ?t = "ANode a JSON_OBJECT x ls"
    have "document h' ?t" using fs f by (auto simp: document_def stands_def holds_frames_def open_node_def)
    with fs f show ?thesis by (auto simp: stands_def intro!: exI [of _ ?t])
  qed
  with r show ?thesis by (auto simp: ok_step_def)
qed


theorem parse_fragment_safe_witness:
  "parse_ok json_jpi_init \<lparr>cells = \<lambda>_. None, fresh = 0\<rparr>
   \<and> (\<exists>e j h'. json_parse_fragment json_jpi_init ''{'' \<lparr>cells = \<lambda>_. None, fresh = 0\<rparr> = Some (e, j, h')
      \<and> (e \<in> {JSON_INCOMPLETE_DOCUMENT, JSON_WAITING_FOR_EOF} \<longrightarrow> parse_ok j h'))"
proof -
  have i: "parse_ok json_jpi_init \<lparr>cells = \<lambda>_. None, fresh = 0\<rparr>"
    by (auto simp: parse_ok_def json_jpi_init_def lex_ok_def stands_def fits_def holds_frames_def intro!: exI [of _ "[]"])
  with parse_fragment_safe [OF i, of "''{''"] show ?thesis by blast
qed

section \<open>Fragments\<close>

text \<open>The lexer on a text in two parts.\<close>

lemma lexer_append:
  "lexer s x = Some (v, p, y) \<Longrightarrow>
     lexer (s @ t) x = (case p of None \<Rightarrow> lexer t y | Some q \<Rightarrow> Some (v, Some (q @ t), y))"
  by (induction s x rule: lexer.induct) (auto split: lex_step.splits)

text \<open>What is read does not depend on \<open>p\<close>.\<close>

fun with_p :: "char list option \<Rightarrow> parse_step \<Rightarrow> parse_step" where
  "with_p p (Next i h) = Next (i\<lparr>pi_p := p\<rparr>) h"
| "with_p p (Return e i h) = Return e (i\<lparr>pi_p := p\<rparr>) h"
| "with_p p Stuck = Stuck"

lemma at_cursor_p: "(\<And>a n. k' a n = with_p p (k a n)) \<Longrightarrow> at_cursor (i\<lparr>pi_p := p\<rparr>) h k' = with_p p (at_cursor i h k)"
  by (simp add: at_cursor_def split: option.split)

lemma pi_p_twist [simp]:
  "set_state n (i\<lparr>pi_p := p\<rparr>) = (set_state n i)\<lparr>pi_p := p\<rparr>"
  "i\<lparr>pi_p := p, lex := x\<rparr> = i\<lparr>lex := x, pi_p := p\<rparr>" "i\<lparr>pi_p := p, cursor := c\<rparr> = i\<lparr>cursor := c, pi_p := p\<rparr>"
  "to_parent (i\<lparr>pi_p := p\<rparr>) h = (to_parent i h)\<lparr>pi_p := p\<rparr>"
  by (simp_all add: set_state_def to_parent_def)

lemma add_child_p:
  assumes "\<And>a i h. k a (i\<lparr>pi_p := p\<rparr>) h = with_p p (k a i h)"
  shows "add_child t (i\<lparr>pi_p := p\<rparr>) h k = with_p p (add_child t i h k)"
  using assms by (simp add: add_child_def Let_def split: option.split prod.split)

lemma close_value_p: "close_value (with_p p k) (i\<lparr>pi_p := p\<rparr>) h = with_p p (close_value k i h)"
  by (auto simp: close_value_def Let_def at_cursor_def split: option.split json_value_type.split)

lemma parse_token_p: "parse_token v (i\<lparr>pi_p := p\<rparr>) h = with_p p (parse_token v i h)"
proof -
  have l: "new_label (i\<lparr>pi_p := p\<rparr>) h = with_p p (new_label i h)"
    "element t (i\<lparr>pi_p := p\<rparr>) h = with_p p (element t i h)" for t
    unfolding new_label_def element_def by (rule add_child_p; simp)+
  have f: "field_value t (i\<lparr>pi_p := p\<rparr>) h = with_p p (field_value t i h)" for t
    unfolding field_value_def by (rule add_child_p, rule at_cursor_p) (simp split: option.split)
  have c: "close_value Stuck (i\<lparr>pi_p := p\<rparr>) h = with_p p (close_value Stuck i h)"
    "close_value (Return e ((to_parent i h)\<lparr>pi_p := p\<rparr>) h) (i\<lparr>pi_p := p\<rparr>) h = with_p p (close_value (Return e (to_parent i h) h) i h)"
    "close_value (Next ((set_state n (to_parent i h))\<lparr>pi_p := p\<rparr>) h) (i\<lparr>pi_p := p\<rparr>) h
       = with_p p (close_value (Next (set_state n (to_parent i h)) h) i h)" for e n
    by (simp_all flip: close_value_p)
  have "pi_state (i\<lparr>pi_p := p\<rparr>) = pi_state i" by simp
  then show ?thesis
    unfolding parse_token_def token_defs Let_def by (cases v) (simp_all add: l f c)
qed


lemma parse_open_p:
  assumes "pi_state i = 1 \<or> pi_state i = 7"
  shows "parse_state (i\<lparr>pi_p := p\<rparr>) s h = with_p p (parse_state i s' h)"
    "nexts (\<lambda>j h. pi_p j = pi_p i) (parse_state i s h)" "parse_state i s h = Return e j h' \<Longrightarrow> e = JSON_UNKNOWN_PROBLEM"
proof -
  have o: "open_container t n (i\<lparr>pi_p := p\<rparr>) h = with_p p (open_container t n i h)" for t n
  proof -
    have a: "add_child t (i\<lparr>pi_p := p\<rparr>) h (\<lambda>a i h. Next (set_state n (i\<lparr>cursor := Some a\<rparr>)) h)
        = with_p p (add_child t i h (\<lambda>a i h. Next (set_state n (i\<lparr>cursor := Some a\<rparr>)) h))"
      by (rule add_child_p) simp
    have "at_cursor (i\<lparr>pi_p := p\<rparr>) h (\<lambda>a c. if jtype c = JSON_STRING \<or> jtype c = JSON_ARRAY
          then add_child t (i\<lparr>pi_p := p\<rparr>) h (\<lambda>a i h. Next (set_state n (i\<lparr>cursor := Some a\<rparr>)) h) else Stuck)
        = with_p p (at_cursor i h (\<lambda>a c. if jtype c = JSON_STRING \<or> jtype c = JSON_ARRAY
          then add_child t i h (\<lambda>a i h. Next (set_state n (i\<lparr>cursor := Some a\<rparr>)) h) else Stuck))"
      by (rule at_cursor_p) (simp add: a)
    then show ?thesis by (simp add: open_container_def Let_def split: option.split prod.split)
  qed
  show "parse_state (i\<lparr>pi_p := p\<rparr>) s h = with_p p (parse_state i s' h)"
    using assms by (auto simp: parse_state_def o)
  show "nexts (\<lambda>j h. pi_p j = pi_p i) (parse_state i s h)"
    using assms by (auto simp: parse_state_def open_container_def Let_def split: option.split prod.split
        intro!: nexts_at_cursor nexts_add_child)
  show "e = JSON_UNKNOWN_PROBLEM" if "parse_state i s h = Return e j h'"
    using that assms by (auto simp: parse_state_def open_container_def add_child_def at_cursor_def Let_def
        split: option.splits prod.splits if_splits)
qed

lemma pi_p_lex [simp]:
  "i\<lparr>pi_p := p, lex := x, pi_p := q\<rparr> = i\<lparr>lex := x, pi_p := q\<rparr>"
  "i\<lparr>lex := y, pi_p := p, lex := x, pi_p := q\<rparr> = i\<lparr>lex := x, pi_p := q\<rparr>"
  by (cases i; simp)+

lemma sane_p [simp]: "sane (i\<lparr>pi_p := p, lex := x\<rparr>) h = sane i h" "sane (i\<lparr>pi_p := p\<rparr>) h = sane i h"
    "sane (i\<lparr>lex := x\<rparr>) h = sane i h"
  by (simp_all add: sane_def)

text \<open>A token in the middle of a text, and at its end.\<close>

lemma parse_state_next:
  assumes "parse_state i s h = Next j h'" "pi_p i = Some s" "pi_p j = Some q"
  shows "parse_state (i\<lparr>pi_p := Some (s @ t)\<rparr>) (s @ t) h = Next (j\<lparr>pi_p := Some (q @ t)\<rparr>) h'"
proof (cases "pi_state i = 1 \<or> pi_state i = 7")
  case True
  from parse_open_p(2) [OF True, of s h] assms have "q = s" by simp
  with parse_open_p(1) [OF True, of "Some (s @ t)" "s @ t" h s] assms show ?thesis by simp
next
  case False
  with assms(1) obtain v p x where l: "lexer s (lex i) = Some (v, p, x)"
    and k: "parse_token v (i\<lparr>lex := x, pi_p := p\<rparr>) h = Next j h'"
    and g: "pi_state i \<in> {0, 2, 3, 4, 5, 6, 8, 9, 99}" "sane i h"
    by (auto simp: parse_state_def next_token_def Let_def split: if_splits option.splits prod.splits)
  have p: "p = Some q" using parse_token_keeps [of "i\<lparr>lex := x, pi_p := p\<rparr>" v h] k assms(3) by simp
  have "parse_token v (i\<lparr>lex := x, pi_p := Some (q @ t)\<rparr>) h = Next (j\<lparr>pi_p := Some (q @ t)\<rparr>) h'"
    using parse_token_p [where i = "i\<lparr>lex := x, pi_p := p\<rparr>" and p = "Some (q @ t)"] k by fastforce
  with lexer_append [OF l, of t] p g show ?thesis by (auto simp: parse_state_def next_token_def Let_def)
qed

lemma token_more:
  assumes "parse_token v i h = Return e j h'" "e = JSON_INCOMPLETE_DOCUMENT \<or> e = JSON_WAITING_FOR_EOF"
    "pi_state i \<in> {0, 2, 3, 4, 5, 6, 8, 9, 99}"
  shows "v = LEX_MORE \<and> j = i \<and> h' = h \<and> (e = JSON_WAITING_FOR_EOF \<longleftrightarrow> pi_state i = 99)"
proof -
  have a: "add_child t i h k = Return e j h' \<Longrightarrow> (\<And>a i h. k a i h \<noteq> Return e j h') \<Longrightarrow> e = JSON_UNKNOWN_PROBLEM" for t k
    by (auto simp: add_child_def Let_def split: option.splits prod.splits if_splits)
  have c: "close_value k i h = Return e j h' \<Longrightarrow> e = JSON_BAD_TREE_STRUCTURE \<or> k = Return e j h'" for k
    by (auto simp: close_value_def Let_def at_cursor_def split: option.splits json_value_type.splits if_splits)
  have n: "new_label i h \<noteq> Return e j h'" "element t i h \<noteq> Return e j h'" "field_value t i h \<noteq> Return e j h'" for t
    using assms(2) unfolding new_label_def element_def field_value_def
    by (auto dest!: a simp: at_cursor_def split: option.splits)
  show ?thesis
    using assms(1,3) assms(2) n unfolding parse_token_def token_defs Let_def
    by (cases v) (auto split: if_splits dest!: c)
qed

lemma parse_state_more:
  assumes "parse_state i s h = Return e j h'" "e = JSON_INCOMPLETE_DOCUMENT \<or> e = JSON_WAITING_FOR_EOF"
  shows "pi_p j = None" "h' = h" "e = JSON_WAITING_FOR_EOF \<longleftrightarrow> pi_state j = 99"
    "parse_state (i\<lparr>pi_p := p\<rparr>) (s @ t) h = parse_state (j\<lparr>pi_p := p'\<rparr>) t h"
proof -
  have n: "\<not> (pi_state i = 1 \<or> pi_state i = 7)" using parse_open_p(3) [OF _ assms(1)] assms(2) by auto
  with assms obtain v q x where l: "lexer s (lex i) = Some (v, q, x)"
    and k: "parse_token v (i\<lparr>lex := x, pi_p := q\<rparr>) h = Return e j h'"
    and g: "pi_state i \<in> {0, 2, 3, 4, 5, 6, 8, 9, 99}" "sane i h"
    by (auto simp: parse_state_def next_token_def Let_def split: if_splits option.splits prod.splits)
  from token_more [OF k assms(2)] g(1) have m: "v = LEX_MORE" "j = i\<lparr>lex := x, pi_p := q\<rparr>" "h' = h"
      "e = JSON_WAITING_FOR_EOF \<longleftrightarrow> pi_state i = 99" by auto
  from lexer_progress [OF l] m(1) have q: "q = None" by simp
  show "pi_p j = None" "h' = h" "e = JSON_WAITING_FOR_EOF \<longleftrightarrow> pi_state j = 99" using m q by auto
  have "lexer (s @ t) (lex i) = lexer t x" using lexer_append [OF l, of t] q by simp
  with n g m(2) show "parse_state (i\<lparr>pi_p := p\<rparr>) (s @ t) h = parse_state (j\<lparr>pi_p := p'\<rparr>) t h"
    by (auto simp: parse_state_def next_token_def Let_def split: option.split)
qed

lemma parse_loop_append:
  "parse_loop i h = Some (e, j, h') \<Longrightarrow> e = JSON_INCOMPLETE_DOCUMENT \<or> e = JSON_WAITING_FOR_EOF \<Longrightarrow> pi_p i = Some s \<Longrightarrow>
     parse_loop (i\<lparr>pi_p := Some (s @ t)\<rparr>) h = parse_loop (j\<lparr>pi_p := Some t\<rparr>) h'"
proof (induction i h arbitrary: s rule: parse_loop.induct)
  case (1 i h)
  show ?case
  proof (cases "s = []")
    case True
    with 1(2,4) show ?thesis by (auto simp: parse_loop.simps [of i h] split: if_splits)
  next
    case False
    note u = parse_loop.simps [of i h] parse_loop.simps [of "i\<lparr>pi_p := Some (s @ t)\<rparr>" h]
    show ?thesis
    proof (cases "parse_state i s h")
      case (Next k h1)
      with 1(2,4) False obtain q where q: "pi_p k = Some q" by (auto simp: u split: if_splits)
      with 1(1) [OF 1(4) False Next _ _ 1(3) q] 1(2,4) False Next parse_state_next [OF Next 1(4) q, of t]
      show ?thesis by (simp add: u)
    next
      case (Return e1 k h1)
      with 1(2,4) False have k: "e1 = e" "k = j" "h1 = h'" by (simp_all add: u)
      note m = parse_state_more [OF Return [unfolded k] 1(3)]
      show ?thesis
      proof (cases "t = []")
        case True
        have "i\<lparr>pi_p := Some (s @ t)\<rparr> = i" using True 1(4) by simp
        moreover have "j\<lparr>pi_p := None\<rparr> = j" using m(1) by simp
        ultimately show ?thesis using 1(2,3) m True parse_loop.simps [of "j\<lparr>pi_p := Some t\<rparr>" h'] by auto
      next
        case t: False
        with m(2) m(4) [of "Some (s @ t)" t "Some t"] show ?thesis
          using False by (simp add: u parse_loop.simps [of "j\<lparr>pi_p := Some t\<rparr>" h])
      qed
    next
      case Stuck
      with 1(2,4) False show ?thesis by (simp add: u)
    qed
  qed
qed



end
