(* ===== verification/JsonDocument.thy ===== *)
theory JsonDocument
  imports JsonFragment
begin

text \<open>
  The texts of JSON after RFC 8259 and the documents \<open>json_parse_document\<close> of
  \<open>src/ServerEngine/mjson/json.c\<close> makes of them: every text of an object is accepted and its tree has
  the value of the text; with \<open>JsonPrint\<close>, parsing what \<open>json_tree_to_string\<close> printed gives the
  value back.
\<close>

section \<open>The texts of a value\<close>

text \<open>White space may stand in front of and behind every token.\<close>

inductive is_value :: "json \<Rightarrow> char list \<Rightarrow> bool"
  and is_members :: "member list \<Rightarrow> char list \<Rightarrow> bool"
  and is_member :: "member \<Rightarrow> char list \<Rightarrow> bool"
  and is_elements :: "json list \<Rightarrow> char list \<Rightarrow> bool"
  and is_element :: "json \<Rightarrow> char list \<Rightarrow> bool" where
  value_string: "string_body s \<Longrightarrow> is_value (JString s) (DQ # s @ [DQ])"
| value_number: "is_number s \<Longrightarrow> is_value (JNumber s) s"
| value_true: "is_value JTrue ''true''"
| value_false: "is_value JFalse ''false''"
| value_null: "is_value JNull ''null''"
| value_empty_object: "blanks w \<Longrightarrow> is_value (JObject []) (CHR ''{'' # w @ ''}'')"
| value_object: "is_members ms s \<Longrightarrow> is_value (JObject ms) (CHR ''{'' # s @ ''}'')"
| value_empty_array: "blanks w \<Longrightarrow> is_value (JArray []) (CHR ''['' # w @ '']'')"
| value_array: "is_elements vs s \<Longrightarrow> is_value (JArray vs) (CHR ''['' # s @ '']'')"
| members_one: "is_member m s \<Longrightarrow> is_members [m] s"
| members_more: "is_member m s \<Longrightarrow> is_members ms t \<Longrightarrow> is_members (m # ms) (s @ CHR '','' # t)"
| member: "blanks w1 \<Longrightarrow> string_body k \<Longrightarrow> blanks w2 \<Longrightarrow> is_element v s \<Longrightarrow>
    is_member (Member k v) (w1 @ DQ # k @ DQ # w2 @ CHR '':'' # s)"
| elements_one: "is_element v s \<Longrightarrow> is_elements [v] s"
| elements_more: "is_element v s \<Longrightarrow> is_elements vs t \<Longrightarrow> is_elements (v # vs) (s @ CHR '','' # t)"
| element: "blanks w1 \<Longrightarrow> is_value v s \<Longrightarrow> blanks w2 \<Longrightarrow> is_element v (w1 @ s @ w2)"

lemma is_digit_nul [simp]: "\<not> is_digit NUL" "\<not> is_exp NUL" "\<not> is_hex NUL"
  by (simp_all add: is_digit_def is_exp_def is_hex_def)

lemma string_body_nul_free: "string_body s \<Longrightarrow> nul_free s"
  by (induction rule: string_body.induct) auto

lemma digits_nul_free: "digits s \<Longrightarrow> nul_free s"
  by (induction s) (auto simp: digits_def)

lemma is_number_nul_free: "is_number s \<Longrightarrow> nul_free s"
  unfolding is_number_def is_int_def is_frac_def is_exponent_def
  by (auto simp: digits_nul_free dest: digits_nul_free)

section \<open>Steps of the parser\<close>

definition at_text :: "nat \<Rightarrow> frame list \<Rightarrow> char list \<Rightarrow> json_parsing_info \<Rightarrow> store \<Rightarrow> bool" where
  "at_text n fs s i h \<longleftrightarrow> stands n fs i h \<and> lex_state (lex i) = 0 \<and> pi_p i = Some s"

definition moves :: "json_parsing_info \<times> store \<Rightarrow> (json_parsing_info \<Rightarrow> store \<Rightarrow> bool) \<Rightarrow> bool" where
  "moves c P \<longleftrightarrow> (\<exists>j h'. parse_loop (fst c) (snd c) = parse_loop j h' \<and> P j h')"

lemma moves_refl: "P i h \<Longrightarrow> moves (i, h) P"
  by (auto simp: moves_def)

lemma moves_trans: "moves c P \<Longrightarrow> (\<And>j h. P j h \<Longrightarrow> moves (j, h) Q) \<Longrightarrow> moves c Q"
  unfolding moves_def by fastforce

lemma token_step:
  assumes "at_text n fs s i h" "n \<in> {0, 2, 3, 4, 5, 6, 8, 9, 99}" "sane i h" "s \<noteq> []"
    and "lexer s (lex i) = Some (v, Some q, y)" "parse_token v (i\<lparr>lex := y, pi_p := Some q\<rparr>) h = Next j h'"
    "P j h'"
  shows "moves (i, h) P"
proof -
  have "pi_p j = Some q" using parse_token_keeps [of "i\<lparr>lex := y, pi_p := Some q\<rparr>" v h] assms(6) by simp
  moreover have "parse_state i s h = Next j h'"
    using assms(1-6) by (auto simp: parse_state_def next_token_def at_text_def stands_def Let_def)
  ultimately have "parse_loop i h = parse_loop j h'"
    using assms(1,4) by (simp add: parse_loop.simps [of i h] at_text_def)
  with assms(7) show ?thesis by (auto simp: moves_def)
qed


lemma token_move:
  assumes i: "at_text n fs (w @ s) i h" "blanks w" "n \<noteq> 1" "n \<noteq> 7" "fits n fs" "s \<noteq> []"
    and l: "\<And>x. lex_state x = 0 \<Longrightarrow> \<exists>y. lexer s x = Some (v, Some q, y) \<and> T y" "v \<noteq> LEX_INVALID_CHARACTER"
    and step: "\<And>i'. at_text n fs q i' h \<Longrightarrow> T (lex i') \<Longrightarrow> \<exists>j h'. parse_token v i' h = Next j h' \<and> P j h'"
  shows "moves (i, h) P"
proof -
  have st: "stands n fs i h" "lex_state (lex i) = 0" using i(1) by (auto simp: at_text_def)
  obtain y where y: "lexer (w @ s) (lex i) = Some (v, Some q, y)" "T y"
    using lexer_skip [OF i(2) st(2) l(1)] by blast
  have y0: "lex_state y = 0" using lexer_progress [OF y(1)] l(2) by auto
  have "at_text n fs q (i\<lparr>lex := y, pi_p := Some q\<rparr>) h" using st(1) y0 by (simp add: at_text_def stands_def)
  with step y(2) obtain j h' where j: "parse_token v (i\<lparr>lex := y, pi_p := Some q\<rparr>) h = Next j h'" "P j h'"
    by fastforce
  have n: "n \<in> {0, 2, 3, 4, 5, 6, 8, 9, 99}" using fits_state [OF i(5)] i(3,4) by blast
  show ?thesis
    by (rule token_step [where P = P, OF i(1) n stands_sane [OF st(1) i(5)] _ y(1) j]) (use i(6) in simp)
qed

text \<open>A mark that only changes the state.\<close>

lemma goto_move:
  assumes "at_text n fs (w @ c # q) i h" "blanks w" "n \<noteq> 1" "n \<noteq> 7" "fits n fs"
    "\<And>x. lex_state x = 0 \<Longrightarrow> lexer (c # q) x = Some (v, Some q, x)" "v \<noteq> LEX_INVALID_CHARACTER"
    "\<And>i'. pi_state i' = n \<Longrightarrow> parse_token v i' h = Next (set_state m i') h"
  shows "moves (i, h) (at_text m fs q)"
  using assms(6,8) by (intro token_move [OF assms(1-5), where T = "\<lambda>_. True" and v = v and q = q])
    (use assms(7) in \<open>auto simp: at_text_def stands_def\<close>)

lemma open_move:
  assumes "at_text n fs s i h" "s \<noteq> []" "fits n fs" "n = 1 \<and> u = JSON_OBJECT \<and> m = 2 \<or> n = 7 \<and> u = JSON_ARRAY \<and> m = 8"
  shows "moves (i, h) (\<lambda>j h'. \<exists>b. at_text m ((b, u, None, []) # fs) s j h')"
proof -
  have st: "stands n fs i h" "lex_state (lex i) = 0" "pi_p i = Some s" using assms(1) by (auto simp: at_text_def)
  have "\<exists>j h' b. open_container u m i h = Next j h' \<and> at_text m ((b, u, None, []) # fs) s j h'"
  proof (cases fs)
    case Nil
    from open_root [OF st(1) [unfolded Nil], of u m] st(2,3) Nil show ?thesis by (fastforce simp: at_text_def)
  next
    case (Cons f gs)
    obtain a t x ls where f: "f = (a, t, x, ls)" by (cases f)
    have t: "t = JSON_STRING \<or> t = JSON_ARRAY" and u: "u = JSON_OBJECT \<or> u = JSON_ARRAY"
      using assms(3,4) Cons f by (auto simp: fits_def)
    from open_stands [OF st(1) [unfolded Cons f] t st(2) u, of m] st(3) Cons f show ?thesis
      by (fastforce simp: at_text_def)
  qed
  then obtain j h' b where j: "open_container u m i h = Next j h'" "at_text m ((b, u, None, []) # fs) s j h'" by blast
  then have "parse_loop i h = parse_loop j h'"
    using st(1,3) assms(2,4) by (auto simp: parse_loop.simps [of i h] parse_state_def stands_def at_text_def)
  with j(2) show ?thesis by (auto simp: moves_def)
qed

lemma close_move:
  assumes "at_text n fs (w @ c # q) i h" "blanks w" "fits n fs" "closed fs = Some (m, gs)"
    "c = CHR ''}'' \<and> (n = 2 \<or> n = 3) \<or> c = CHR '']'' \<and> (n = 8 \<or> n = 9)"
  shows "moves (i, h) (at_text m gs q)"
proof -
  let ?v = "if c = CHR ''}'' then LEX_END_OBJECT else LEX_END_ARRAY"
  show ?thesis
  proof (rule token_move [OF assms(1,2) _ _ assms(3), where v = ?v and q = q and T = "\<lambda>_. True"])
    show "\<exists>y. lexer (c # q) x = Some (?v, Some q, y) \<and> True" if "lex_state x = 0" for x
      using assms(5) lexer_marks [OF that] by auto
    show "\<exists>j h'. parse_token ?v i' h = Next j h' \<and> at_text m gs q j h'" if i': "at_text n fs q i' h" for i'
    proof -
      have s: "stands n fs i' h" "pi_state i' = n" "lex_state (lex i') = 0" "pi_p i' = Some q"
        using i' by (auto simp: at_text_def stands_def)
      obtain k where k: "parse_token ?v i' h = close_value k i' h"
        using assms(5) s(2) by (auto simp: parse_token_def token_defs)
      from close_stands [OF s(1) assms(4), of k] s(3,4) show ?thesis
        unfolding k by (auto simp: at_text_def)
    qed
  qed (use assms(5) in auto)
qed

section \<open>Values\<close>

text \<open>The place a value is parsed for, and the frames when it is there.\<close>

definition slot :: "nat \<Rightarrow> frame list \<Rightarrow> bool" where
  "slot n fs \<longleftrightarrow> (n = 6 \<and> (\<exists>l k a ls gs. fs = (l, JSON_STRING, k, []) # (a, JSON_OBJECT, None, ls) # gs))
     \<or> (n = 8 \<and> (\<exists>a ls gs. fs = (a, JSON_ARRAY, None, ls) # gs))"

definition fill :: "frame list \<Rightarrow> atree \<Rightarrow> nat \<times> frame list" where
  "fill fs u = the (closed ((ad u, ty u, tx u, kids u) # fs))"

lemma slot_closed: "slot n fs \<Longrightarrow> closed ((ad u, ty u, tx u, kids u) # fs) = Some (fill fs u)"
  by (auto simp: slot_def fill_def)

lemma fill_simps [simp]:
  "fill ((l, JSON_STRING, k, []) # (a, JSON_OBJECT, x, ls) # gs) u = (3, (a, JSON_OBJECT, x, ls @ [ANode l JSON_STRING k [u]]) # gs)"
  "fill ((a, JSON_ARRAY, x, ls) # gs) u = (9, (a, JSON_ARRAY, x, ls @ [u]) # gs)"
  by (cases u; simp add: fill_def)+

lemma slot_fits: "slot n fs \<Longrightarrow> fits n fs" "slot n fs \<Longrightarrow> fits 1 fs" "slot n fs \<Longrightarrow> fits 7 fs" "slot n fs \<Longrightarrow> n \<noteq> 1 \<and> n \<noteq> 7"
  by (auto simp: slot_def fits_def)

definition filled :: "frame list \<Rightarrow> json \<Rightarrow> char list \<Rightarrow> json_parsing_info \<Rightarrow> store \<Rightarrow> bool" where
  "filled fs v r j h \<longleftrightarrow> (\<exists>u w. at_text (fst (fill fs u)) (snd (fill fs u)) (w @ r) j h \<and> blanks w
     \<and> wf_value u \<and> to_json u = v)"

lemma leaf_move:
  assumes "slot n fs" "value_token v t" "at_text n fs q i h" "child_text t (lex i) y" "q = w @ r" "blanks w"
  shows "\<exists>j h'. parse_token v i h = Next j h' \<and> filled fs (to_json (ANode 0 t y [])) r j h'"
proof -
  have s: "stands n fs i h" "pi_state i = n" "pi_p i = Some q" using assms(3) by (auto simp: at_text_def stands_def)
  have wf: "wf_value (ANode b t y [])" "to_json (ANode b t y []) = to_json (ANode 0 t y [])" for b
    using assms(2,4) by (auto simp: value_token_def child_text_def)
  from assms(1) consider (field) l k a ls gs where "n = 6" "fs = (l, JSON_STRING, k, []) # (a, JSON_OBJECT, None, ls) # gs"
    | (elem) a ls gs where "n = 8" "fs = (a, JSON_ARRAY, None, ls) # gs"
    unfolding slot_def by blast
  then show ?thesis
  proof cases
    case field
    have "parse_token v i h = field_value t i h"
      using assms(2) s(2) field(1) by (auto simp: parse_token_def parse_field_value_def value_token_def)
    with field_stands [OF s(1) [unfolded field] assms(4)] obtain j h' b where
      "parse_token v i h = Next j h'" "lex_state (lex j) = 0" "pi_p j = pi_p i"
      "stands 3 ((a, JSON_OBJECT, None, ls @ [ANode l JSON_STRING k [ANode b t y []]]) # gs) j h'" by auto
    with s(3) field(2) wf [of b] assms(5,6) show ?thesis
      by (auto simp: filled_def at_text_def intro!: exI [of _ "ANode b t y []"] exI [of _ w])
  next
    case elem
    have "parse_token v i h = element t i h"
      using assms(2) s(2) elem(1) by (auto simp: parse_token_def parse_array_start_def value_token_def)
    with element_stands [OF s(1) [unfolded elem] assms(4)] obtain j h' b where
      "parse_token v i h = Next j h'" "lex_state (lex j) = 0" "pi_p j = pi_p i"
      "stands 9 ((a, JSON_ARRAY, None, ls @ [ANode b t y []]) # gs) j h'" by auto
    with s(3) elem(2) wf [of b] assms(5,6) show ?thesis
      by (auto simp: filled_def at_text_def intro!: exI [of _ "ANode b t y []"] exI [of _ w])
  qed
qed


text \<open>The claims for the parts of a text, to be proved together.\<close>

definition parses_value :: "json \<Rightarrow> char list \<Rightarrow> bool" where
  "parses_value v s \<longleftrightarrow> (\<forall>n fs i h w0 w d r. slot n fs \<longrightarrow> blanks w0 \<longrightarrow> blanks w \<longrightarrow> d \<in> {CHR '','', CHR '']'', CHR ''}''}
     \<longrightarrow> at_text n fs (w0 @ s @ w @ d # r) i h \<longrightarrow> moves (i, h) (filled fs v (d # r)))"

definition parses_element :: "json \<Rightarrow> char list \<Rightarrow> bool" where
  "parses_element v s \<longleftrightarrow> (\<forall>n fs i h d r. slot n fs \<longrightarrow> d \<in> {CHR '','', CHR '']'', CHR ''}''}
     \<longrightarrow> at_text n fs (s @ d # r) i h \<longrightarrow> moves (i, h) (filled fs v (d # r)))"

definition parses_member :: "member \<Rightarrow> char list \<Rightarrow> bool" where
  "parses_member m s \<longleftrightarrow> (\<forall>n a ls fs i h d r. n = 2 \<or> n = 4 \<longrightarrow> d \<in> {CHR '','', CHR ''}''}
     \<longrightarrow> at_text n ((a, JSON_OBJECT, None, ls) # fs) (s @ d # r) i h
     \<longrightarrow> moves (i, h) (\<lambda>j h'. \<exists>u w. at_text 3 ((a, JSON_OBJECT, None, ls @ [u]) # fs) (w @ d # r) j h' \<and> blanks w
            \<and> wf_label u \<and> to_member u = m))"

definition parses_members :: "member list \<Rightarrow> char list \<Rightarrow> bool" where
  "parses_members ms s \<longleftrightarrow> (\<forall>n a ls fs i h r. n = 2 \<or> n = 4
     \<longrightarrow> at_text n ((a, JSON_OBJECT, None, ls) # fs) (s @ CHR ''}'' # r) i h
     \<longrightarrow> moves (i, h) (\<lambda>j h'. \<exists>us w. at_text 3 ((a, JSON_OBJECT, None, ls @ us) # fs) (w @ CHR ''}'' # r) j h' \<and> blanks w
            \<and> (\<forall>u\<in>set us. wf_label u) \<and> map to_member us = ms))"

definition parses_elements :: "json list \<Rightarrow> char list \<Rightarrow> bool" where
  "parses_elements vs s \<longleftrightarrow> (\<forall>a ls fs i h r. at_text 8 ((a, JSON_ARRAY, None, ls) # fs) (s @ CHR '']'' # r) i h
     \<longrightarrow> moves (i, h) (\<lambda>j h'. \<exists>us w. at_text 9 ((a, JSON_ARRAY, None, ls @ us) # fs) (w @ CHR '']'' # r) j h' \<and> blanks w
            \<and> (\<forall>u\<in>set us. wf_value u) \<and> map to_json us = vs))"

text \<open>Strings, numbers and words.\<close>

lemma parses_leaf:
  assumes l: "\<And>x w d r. lex_state x = 0 \<Longrightarrow> blanks w \<Longrightarrow> d \<in> {CHR '','', CHR '']'', CHR ''}''}
      \<Longrightarrow> \<exists>y w'. lexer (s @ w @ d # r) x = Some (v, Some (w' @ d # r), y) \<and> child_text t y z \<and> blanks w'"
    and v: "value_token v t" and s: "s \<noteq> []" and u: "to_json (ANode 0 t z []) = u"
  shows "parses_value u s"
  unfolding parses_value_def
proof (intro allI impI)
  fix n fs i h w0 w d r
  assume a: "slot n fs" "blanks w0" "blanks w" "d \<in> {CHR '','', CHR '']'', CHR ''}''}"
    "at_text n fs (w0 @ s @ w @ d # r) i h"
  note f = slot_fits [OF a(1)]
  have l0: "lex_state (lex i) = 0" using a(5) by (simp add: at_text_def)
  from lexer_blanks [OF a(2) l0] obtain x where x: "lexer (w0 @ s @ w @ d # r) (lex i) = lexer (s @ w @ d # r) x" "lex_state x = 0"
    by blast
  from l [OF x(2) a(3,4)] obtain y w' where y: "lexer (s @ w @ d # r) x = Some (v, Some (w' @ d # r), y)"
    "child_text t y z" "blanks w'" by blast
  have vi: "v \<noteq> LEX_INVALID_CHARACTER" "v \<noteq> LEX_MORE" using v by (auto simp: value_token_def)
  let ?j = "i\<lparr>lex := y, pi_p := Some (w' @ d # r)\<rparr>"
  have st: "stands n fs i h" using a(5) by (simp add: at_text_def)
  have "at_text n fs (w' @ d # r) ?j h"
    using st lexer_progress [OF y(1)] vi by (simp add: at_text_def stands_def)
  from leaf_move [OF a(1) v this _ refl y(3), of z] y(2) obtain j h' where
    j: "parse_token v ?j h = Next j h'" "filled fs u (d # r) j h'" using u by auto
  have n: "n \<in> {0, 2, 3, 4, 5, 6, 8, 9, 99}" using fits_state [OF f(1)] f(4) by blast
  show "moves (i, h) (filled fs u (d # r))"
    by (rule token_step [where P = "filled fs u (d # r)", OF a(5) n stands_sane [OF st f(1)] _ _ j])
      (use s x y in simp_all)
qed

lemma parses_leaves:
  "string_body s \<Longrightarrow> parses_value (JString s) (DQ # s @ [DQ])"
  "is_number s \<Longrightarrow> parses_value (JNumber s) s"
  "parses_value JTrue ''true''" "parses_value JFalse ''false''" "parses_value JNull ''null''"
proof -
  show "parses_value (JString s) (DQ # s @ [DQ])" if s: "string_body s"
  proof (rule parses_leaf [where v = LEX_STRING and t = JSON_STRING and z = "Some s"])
    show "\<exists>y w'. lexer ((DQ # s @ [DQ]) @ w @ d # r) x = Some (LEX_STRING, Some (w' @ d # r), y)
        \<and> child_text JSON_STRING y (Some s) \<and> blanks w'" if "lex_state x = 0" "blanks w" for x w d r
    proof -
      from lexer_string [OF s that(1), of "w @ d # r"] obtain y where
        y: "lexer (DQ # s @ DQ # w @ d # r) x = Some (LEX_STRING, Some (w @ d # r), y)" "in_state 0 s y" by blast
      have "child_text JSON_STRING y (Some s)"
        using y(2) string_body_nul_free [OF s] by (auto simp: child_text_def)
      with y(1) that(2) show ?thesis by auto
    qed
  qed (simp_all add: value_token_def)
  show "parses_value (JNumber s) s" if s: "is_number s"
  proof (rule parses_leaf [where v = LEX_NUMBER and t = JSON_NUMBER and z = "Some s"])
    show "\<exists>y w'. lexer (s @ w @ d # r) x = Some (LEX_NUMBER, Some (w' @ d # r), y)
        \<and> child_text JSON_NUMBER y (Some s) \<and> blanks w'"
      if "lex_state x = 0" "blanks w" "d \<in> {CHR '','', CHR '']'', CHR ''}''}" for x w d r
    proof -
      from lexer_number [OF s that(2,3,1), of r] obtain y w' where
        y: "lexer (s @ w @ d # r) x = Some (LEX_NUMBER, Some (w' @ d # r), y)" "in_state 0 s y" "blanks w'" by blast
      have "child_text JSON_NUMBER y (Some s)"
        using y(2) is_number_nul_free [OF s] by (auto simp: child_text_def)
      with y(1,3) show ?thesis by blast
    qed
    show "s \<noteq> []" using s by (auto simp: is_number_def is_int_def)
  qed (simp_all add: value_token_def)
  have w: "\<exists>y w'. lexer (s @ w @ d # r) x = Some (v, Some (w' @ d # r), y) \<and> child_text t y None \<and> blanks w'"
    if "lexer (s @ w @ d # r) x = Some (v, Some (w @ d # r), x)" "lex_state x = 0" "blanks w"
      "t \<noteq> JSON_STRING" "t \<noteq> JSON_NUMBER" for s w d r x v t
    using that by (auto simp: child_text_def)
  show "parses_value JTrue ''true''"
    by (rule parses_leaf [where v = LEX_TRUE and t = JSON_TRUE and z = None], rule w, erule lexer_words)
      (simp_all add: value_token_def)
  show "parses_value JFalse ''false''"
    by (rule parses_leaf [where v = LEX_FALSE and t = JSON_FALSE and z = None], rule w, erule lexer_words)
      (simp_all add: value_token_def)
  show "parses_value JNull ''null''"
    by (rule parses_leaf [where v = LEX_NULL and t = JSON_NULL and z = None], rule w, erule lexer_words)
      (simp_all add: value_token_def)
qed


text \<open>Objects and arrays around their contents.\<close>

lemma parses_container:
  fixes n1 n2 :: nat
  assumes c: "(t, c, d, v, n1, n2) \<in> {(JSON_OBJECT, CHR ''{'', CHR ''}'', LEX_BEGIN_OBJECT, 1, 2),
      (JSON_ARRAY, CHR ''['', CHR '']'', LEX_BEGIN_ARRAY, 7, 8)}"
    and body: "\<And>b fs i h r. at_text n2 ((b, t, None, []) # fs) (s @ d # r) i h
      \<Longrightarrow> moves (i, h) (\<lambda>j h'. \<exists>n us w. (n = n2 \<or> n = n2 + 1) \<and> at_text n ((b, t, None, us) # fs) (w @ d # r) j h' \<and> blanks w
            \<and> (\<forall>b. wf_value (ANode b t None us) \<and> to_json (ANode b t None us) = u))"
  shows "parses_value u (c # s @ [d])"
  unfolding parses_value_def
proof (intro allI impI)
  fix n fs i h w0 w e r
  assume a: "slot n fs" "blanks w0" "blanks w" "e \<in> {CHR '','', CHR '']'', CHR ''}''}"
    "at_text n fs (w0 @ (c # s @ [d]) @ w @ e # r) i h"
  note f = slot_fits [OF a(1)]
  let ?q = "s @ d # w @ e # r"
  have o: "moves (i, h) (at_text n1 fs ?q)"
  proof (rule goto_move [where w = w0 and c = c and v = v, OF _ a(2) _ _ f(1)])
    show "at_text n fs (w0 @ c # ?q) i h" using a(5) by simp
    show "lexer (c # ?q) x = Some (v, Some ?q, x)" if "lex_state x = 0" for x
      using c lexer_marks [OF that] by auto
    show "parse_token v i' h = Next (set_state n1 i') h" if "pi_state i' = n" for i'
      using c that a(1) by (auto simp: slot_def parse_token_def parse_field_value_def parse_array_start_def)
  qed (use c f(4) in auto)
  show "moves (i, h) (filled fs u (e # r))"
  proof (rule moves_trans [OF o])
    fix j h' assume j: "at_text n1 fs ?q j h'"
    have o2: "moves (j, h') (\<lambda>j h'. \<exists>b. at_text n2 ((b, t, None, []) # fs) ?q j h')"
      by (rule open_move [OF j]) (use c f in auto)
    show "moves (j, h') (filled fs u (e # r))"
    proof (rule moves_trans [OF o2], elim exE)
      fix k h2 b assume k: "at_text n2 ((b, t, None, []) # fs) ?q k h2"
      show "moves (k, h2) (filled fs u (e # r))"
      proof (rule moves_trans [OF body [OF k]], elim exE conjE)
        fix l h3 m us w'
        assume m: "m = n2 \<or> m = n2 + 1" and l: "at_text m ((b, t, None, us) # fs) (w' @ d # w @ e # r) l h3" "blanks w'"
          and u: "\<forall>b. wf_value (ANode b t None us) \<and> to_json (ANode b t None us) = u"
        let ?u = "ANode b t None us"
        have cl: "closed ((b, t, None, us) # fs) = Some (fst (fill fs ?u), snd (fill fs ?u))"
          using slot_closed [OF a(1), of ?u] by simp
        have "moves (l, h3) (at_text (fst (fill fs ?u)) (snd (fill fs ?u)) (w @ e # r))"
          by (rule close_move [OF l _ cl]) (use c m in \<open>auto simp: fits_def\<close>)
        then show "moves (l, h3) (filled fs u (e # r))"
          by (rule moves_trans) (use a(3) u in \<open>auto simp: filled_def intro!: moves_refl exI [of _ ?u] exI [of _ w]\<close>)
      qed
    qed
  qed
qed

lemma parses_containers:
  "blanks w \<Longrightarrow> parses_value (JObject []) (CHR ''{'' # w @ ''}'')"
  "blanks w \<Longrightarrow> parses_value (JArray []) (CHR ''['' # w @ '']'')"
  "parses_members ms s \<Longrightarrow> parses_value (JObject ms) (CHR ''{'' # s @ ''}'')"
  "parses_elements vs s \<Longrightarrow> parses_value (JArray vs) (CHR ''['' # s @ '']'')"
proof -
  show "parses_value (JObject []) (CHR ''{'' # w @ ''}'')" if "blanks w"
    by (rule parses_container [where t = JSON_OBJECT and v = LEX_BEGIN_OBJECT and ?n1.0 = 1 and ?n2.0 = 2])
      (use that in \<open>auto intro!: moves_refl exI [of _ "2 :: nat"] exI [of _ "[]"] exI [of _ w]\<close>)
  show "parses_value (JArray []) (CHR ''['' # w @ '']'')" if "blanks w"
    by (rule parses_container [where t = JSON_ARRAY and v = LEX_BEGIN_ARRAY and ?n1.0 = 7 and ?n2.0 = 8])
      (use that in \<open>auto intro!: moves_refl exI [of _ "8 :: nat"] exI [of _ "[]"] exI [of _ w]\<close>)
  show "parses_value (JObject ms) (CHR ''{'' # s @ ''}'')" if m: "parses_members ms s"
  proof (rule parses_container [where t = JSON_OBJECT and v = LEX_BEGIN_OBJECT and ?n1.0 = 1 and ?n2.0 = 2])
    fix b fs i h r assume i: "at_text 2 ((b, JSON_OBJECT, None, []) # fs) (s @ CHR ''}'' # r) i h"
    have "moves (i, h) (\<lambda>j h'. \<exists>us w. at_text 3 ((b, JSON_OBJECT, None, [] @ us) # fs) (w @ CHR ''}'' # r) j h' \<and> blanks w
            \<and> (\<forall>u\<in>set us. wf_label u) \<and> map to_member us = ms)"
      using m i unfolding parses_members_def by blast
    then show "moves (i, h) (\<lambda>j h'. \<exists>n us w. (n = 2 \<or> n = 2 + 1) \<and> at_text n ((b, JSON_OBJECT, None, us) # fs) (w @ CHR ''}'' # r) j h' \<and> blanks w
            \<and> (\<forall>b. wf_value (ANode b JSON_OBJECT None us) \<and> to_json (ANode b JSON_OBJECT None us) = JObject ms))"
      by (rule moves_trans) (auto intro!: moves_refl)
  qed simp
  show "parses_value (JArray vs) (CHR ''['' # s @ '']'')" if m: "parses_elements vs s"
  proof (rule parses_container [where t = JSON_ARRAY and v = LEX_BEGIN_ARRAY and ?n1.0 = 7 and ?n2.0 = 8])
    fix b fs i h r assume i: "at_text 8 ((b, JSON_ARRAY, None, []) # fs) (s @ CHR '']'' # r) i h"
    have "moves (i, h) (\<lambda>j h'. \<exists>us w. at_text 9 ((b, JSON_ARRAY, None, [] @ us) # fs) (w @ CHR '']'' # r) j h' \<and> blanks w
            \<and> (\<forall>u\<in>set us. wf_value u) \<and> map to_json us = vs)"
      using m i unfolding parses_elements_def by blast
    then show "moves (i, h) (\<lambda>j h'. \<exists>n us w. (n = 8 \<or> n = 8 + 1) \<and> at_text n ((b, JSON_ARRAY, None, us) # fs) (w @ CHR '']'' # r) j h' \<and> blanks w
            \<and> (\<forall>b. wf_value (ANode b JSON_ARRAY None us) \<and> to_json (ANode b JSON_ARRAY None us) = JArray vs))"
      by (rule moves_trans) (auto intro!: moves_refl)
  qed simp
qed

lemma parses_element:
  assumes "parses_value v s" "blanks w1" "blanks w2"
  shows "parses_element v (w1 @ s @ w2)"
  using assms unfolding parses_element_def parses_value_def by auto

lemma parses_elementD:
  assumes "parses_element v s" "slot n fs" "d \<in> {CHR '','', CHR '']'', CHR ''}''}" "at_text n fs (s @ d # r) i h"
  shows "moves (i, h) (filled fs v (d # r))"
  using assms unfolding parses_element_def by blast

lemma parses_memberD:
  assumes "parses_member m s" "n = 2 \<or> n = 4" "d \<in> {CHR '','', CHR ''}''}"
    "at_text n ((a, JSON_OBJECT, None, ls) # fs) (s @ d # r) i h"
  shows "moves (i, h) (\<lambda>j h'. \<exists>u w. at_text 3 ((a, JSON_OBJECT, None, ls @ [u]) # fs) (w @ d # r) j h' \<and> blanks w
            \<and> wf_label u \<and> to_member u = m)"
  using assms unfolding parses_member_def by blast

lemma parses_member:
  assumes k: "blanks w1" "string_body k" "blanks w2" and v: "parses_element v s"
  shows "parses_member (Member k v) (w1 @ DQ # k @ DQ # w2 @ CHR '':'' # s)"
  unfolding parses_member_def
proof (intro allI impI)
  fix n a i h d r and ls :: "atree list" and fs :: "frame list"
  let ?o = "(a, JSON_OBJECT, None, ls) # fs" and ?q = "w2 @ CHR '':'' # s @ d # r"
  assume n: "n = 2 \<or> n = 4" and d: "d \<in> {CHR '','', CHR ''}''}"
    and i: "at_text n ?o ((w1 @ DQ # k @ DQ # w2 @ CHR '':'' # s) @ d # r) i h"
  let ?P = "\<lambda>j h'. \<exists>u w. at_text 3 ((a, JSON_OBJECT, None, ls @ [u]) # fs) (w @ d # r) j h' \<and> blanks w
            \<and> wf_label u \<and> to_member u = Member k v"
  have fits: "fits n ?o" using n by (auto simp: fits_def)
  have "moves (i, h) (\<lambda>j h'. \<exists>l. at_text 5 ((l, JSON_STRING, Some k, []) # ?o) ?q j h')"
  proof (rule token_move [where w = w1 and v = LEX_STRING and q = ?q and T = "in_state 0 k", OF _ k(1) _ _ fits])
    show "at_text n ?o (w1 @ DQ # k @ DQ # ?q) i h" using i by simp
    show "\<exists>y. lexer (DQ # k @ DQ # ?q) x = Some (LEX_STRING, Some ?q, y) \<and> in_state 0 k y" if "lex_state x = 0" for x
      using lexer_string [OF k(2) that] by blast
    show "\<exists>j h'. parse_token LEX_STRING i' h = Next j h' \<and> (\<exists>l. at_text 5 ((l, JSON_STRING, Some k, []) # ?o) ?q j h')"
      if i': "at_text n ?o ?q i' h" "in_state 0 k (lex i')" for i'
    proof -
      have st: "stands n ?o i' h" "pi_p i' = Some ?q" using i'(1) by (auto simp: at_text_def)
      have "parse_token LEX_STRING i' h = new_label i' h"
        using st(1) n by (auto simp: parse_token_def parse_object_start_def parse_sibling_def stands_def)
      with label_stands [OF st(1) i'(2)] st(2) string_body_nul_free [OF k(2)] show ?thesis
        by (fastforce simp: at_text_def)
    qed
  qed (use n in auto)
  then show "moves (i, h) ?P"
  proof (rule moves_trans, elim exE)
    fix j h1 l assume j: "at_text 5 ((l, JSON_STRING, Some k, []) # ?o) ?q j h1"
    let ?l = "(l, JSON_STRING, Some k, []) # ?o"
    have "moves (j, h1) (at_text 6 ?l (s @ d # r))"
      by (rule goto_move [where w = w2 and v = LEX_NAME_SEPARATOR, OF j k(3)])
        (simp_all del: lexer.simps add: fits_def lexer_marks parse_token_def parse_name_separator_def)
    then show "moves (j, h1) ?P"
    proof (rule moves_trans)
      fix m h2 assume m: "at_text 6 ?l (s @ d # r) m h2"
      have "moves (m, h2) (filled ?l v (d # r))"
        by (rule parses_elementD [OF v _ _ m]) (use d in \<open>auto simp: slot_def\<close>)
      then show "moves (m, h2) ?P"
      proof (rule moves_trans)
        fix m' h3 assume "filled ?l v (d # r) m' h3"
        then obtain u w where "at_text 3 ((a, JSON_OBJECT, None, ls @ [ANode l JSON_STRING (Some k) [u]]) # fs) (w @ d # r) m' h3"
          "blanks w" "wf_value u" "to_json u = v" by (auto simp: filled_def)
        then show "moves (m', h3) ?P"
          by (intro moves_refl exI [of _ "ANode l JSON_STRING (Some k) [u]"] exI [of _ w]) simp
      qed
    qed
  qed
qed


lemma parses_members:
  "parses_member m s \<Longrightarrow> parses_members [m] s"
  "parses_member m s \<Longrightarrow> parses_members ms t \<Longrightarrow> parses_members (m # ms) (s @ CHR '','' # t)"
proof -
  assume m: "parses_member m s"
  show "parses_members [m] s"
    unfolding parses_members_def
  proof (intro allI impI)
    fix n a i h r and ls :: "atree list" and fs :: "frame list"
    assume n: "n = 2 \<or> n = 4" and i: "at_text n ((a, JSON_OBJECT, None, ls) # fs) (s @ CHR ''}'' # r) i h"
    have "moves (i, h) (\<lambda>j h'. \<exists>u w. at_text 3 ((a, JSON_OBJECT, None, ls @ [u]) # fs) (w @ CHR ''}'' # r) j h' \<and> blanks w
            \<and> wf_label u \<and> to_member u = m)"
      by (rule parses_memberD [OF m n]) (use i in simp_all)
    then show "moves (i, h) (\<lambda>j h'. \<exists>us w. at_text 3 ((a, JSON_OBJECT, None, ls @ us) # fs) (w @ CHR ''}'' # r) j h' \<and> blanks w
            \<and> (\<forall>u\<in>set us. wf_label u) \<and> map to_member us = [m])"
    proof (rule moves_trans, elim exE conjE)
      fix j h' u w assume "at_text 3 ((a, JSON_OBJECT, None, ls @ [u]) # fs) (w @ CHR ''}'' # r) j h'" "blanks w"
        "wf_label u" "to_member u = m"
      then show "moves (j, h') (\<lambda>j h'. \<exists>us w. at_text 3 ((a, JSON_OBJECT, None, ls @ us) # fs) (w @ CHR ''}'' # r) j h' \<and> blanks w
            \<and> (\<forall>u\<in>set us. wf_label u) \<and> map to_member us = [m])"
        by (intro moves_refl exI [of _ "[u]"] exI [of _ w]) simp
    qed
  qed
  assume ms: "parses_members ms t"
  show "parses_members (m # ms) (s @ CHR '','' # t)"
    unfolding parses_members_def
  proof (intro allI impI)
    fix n a i h r and ls :: "atree list" and fs :: "frame list"
    let ?P = "\<lambda>j h'. \<exists>us w. at_text 3 ((a, JSON_OBJECT, None, ls @ us) # fs) (w @ CHR ''}'' # r) j h' \<and> blanks w
            \<and> (\<forall>u\<in>set us. wf_label u) \<and> map to_member us = m # ms"
    let ?q = "t @ CHR ''}'' # r"
    assume n: "n = 2 \<or> n = 4"
      and i: "at_text n ((a, JSON_OBJECT, None, ls) # fs) ((s @ CHR '','' # t) @ CHR ''}'' # r) i h"
    have "moves (i, h) (\<lambda>j h'. \<exists>u w. at_text 3 ((a, JSON_OBJECT, None, ls @ [u]) # fs) (w @ CHR '','' # ?q) j h' \<and> blanks w
            \<and> wf_label u \<and> to_member u = m)"
      by (rule parses_memberD [OF m n]) (use i in simp_all)
    then show "moves (i, h) ?P"
    proof (rule moves_trans, elim exE conjE)
      fix j h' u w assume j: "at_text 3 ((a, JSON_OBJECT, None, ls @ [u]) # fs) (w @ CHR '','' # ?q) j h'" "blanks w"
        and u: "wf_label u" "to_member u = m"
      have "moves (j, h') (at_text 4 ((a, JSON_OBJECT, None, ls @ [u]) # fs) ?q)"
        by (rule goto_move [where v = LEX_VALUE_SEPARATOR, OF j])
          (simp_all del: lexer.simps add: fits_def lexer_marks parse_token_def parse_field_end_def)
      then show "moves (j, h') ?P"
      proof (rule moves_trans)
        fix k h2 assume k: "at_text 4 ((a, JSON_OBJECT, None, ls @ [u]) # fs) ?q k h2"
        have "moves (k, h2) (\<lambda>j h'. \<exists>us w. at_text 3 ((a, JSON_OBJECT, None, (ls @ [u]) @ us) # fs) (w @ CHR ''}'' # r) j h'
            \<and> blanks w \<and> (\<forall>u\<in>set us. wf_label u) \<and> map to_member us = ms)"
          using ms k unfolding parses_members_def by blast
        then show "moves (k, h2) ?P"
        proof (rule moves_trans, elim exE conjE)
          fix j h' us w assume "at_text 3 ((a, JSON_OBJECT, None, (ls @ [u]) @ us) # fs) (w @ CHR ''}'' # r) j h'" "blanks w"
            "\<forall>u\<in>set us. wf_label u" "map to_member us = ms"
          with u show "moves (j, h') ?P"
            by (intro moves_refl exI [of _ "u # us"] exI [of _ w]) simp
        qed
      qed
    qed
  qed
qed

lemma parses_elements:
  "parses_element v s \<Longrightarrow> parses_elements [v] s"
  "parses_element v s \<Longrightarrow> parses_elements vs t \<Longrightarrow> parses_elements (v # vs) (s @ CHR '','' # t)"
proof -
  assume v: "parses_element v s"
  have first: "moves (i, h) (\<lambda>j h'. \<exists>u w. at_text 9 ((a, JSON_ARRAY, None, ls @ [u]) # fs) (w @ d # r) j h' \<and> blanks w
       \<and> wf_value u \<and> to_json u = v)"
    if "at_text 8 ((a, JSON_ARRAY, None, ls) # fs) (s @ d # r) i h" "d \<in> {CHR '','', CHR '']''}" for a ls fs d r i h
  proof -
    have "moves (i, h) (filled ((a, JSON_ARRAY, None, ls) # fs) v (d # r))"
      by (rule parses_elementD [OF v _ _ that(1)]) (use that(2) in \<open>auto simp: slot_def\<close>)
    then show ?thesis by (rule moves_trans) (auto simp: filled_def intro!: moves_refl)
  qed
  show "parses_elements [v] s"
    unfolding parses_elements_def
  proof (intro allI impI)
    fix a i h r and ls :: "atree list" and fs :: "frame list"
    let ?P = "\<lambda>j h'. \<exists>us w. at_text 9 ((a, JSON_ARRAY, None, ls @ us) # fs) (w @ CHR '']'' # r) j h' \<and> blanks w
            \<and> (\<forall>u\<in>set us. wf_value u) \<and> map to_json us = [v]"
    assume "at_text 8 ((a, JSON_ARRAY, None, ls) # fs) (s @ CHR '']'' # r) i h"
    then have "moves (i, h) (\<lambda>j h'. \<exists>u w. at_text 9 ((a, JSON_ARRAY, None, ls @ [u]) # fs) (w @ CHR '']'' # r) j h' \<and> blanks w
       \<and> wf_value u \<and> to_json u = v)" by (rule first) simp
    then show "moves (i, h) ?P"
    proof (rule moves_trans, elim exE conjE)
      fix j h' u w assume "at_text 9 ((a, JSON_ARRAY, None, ls @ [u]) # fs) (w @ CHR '']'' # r) j h'" "blanks w"
        "wf_value u" "to_json u = v"
      then show "moves (j, h') ?P" by (intro moves_refl exI [of _ "[u]"] exI [of _ w]) simp
    qed
  qed
  assume vs: "parses_elements vs t"
  show "parses_elements (v # vs) (s @ CHR '','' # t)"
    unfolding parses_elements_def
  proof (intro allI impI)
    fix a i h r and ls :: "atree list" and fs :: "frame list"
    let ?P = "\<lambda>j h'. \<exists>us w. at_text 9 ((a, JSON_ARRAY, None, ls @ us) # fs) (w @ CHR '']'' # r) j h' \<and> blanks w
            \<and> (\<forall>u\<in>set us. wf_value u) \<and> map to_json us = v # vs"
    let ?q = "t @ CHR '']'' # r"
    assume "at_text 8 ((a, JSON_ARRAY, None, ls) # fs) ((s @ CHR '','' # t) @ CHR '']'' # r) i h"
    then have "at_text 8 ((a, JSON_ARRAY, None, ls) # fs) (s @ CHR '','' # ?q) i h" by simp
    then have "moves (i, h) (\<lambda>j h'. \<exists>u w. at_text 9 ((a, JSON_ARRAY, None, ls @ [u]) # fs) (w @ CHR '','' # ?q) j h' \<and> blanks w
       \<and> wf_value u \<and> to_json u = v)" by (rule first) simp
    then show "moves (i, h) ?P"
    proof (rule moves_trans, elim exE conjE)
      fix j h' u w assume j: "at_text 9 ((a, JSON_ARRAY, None, ls @ [u]) # fs) (w @ CHR '','' # ?q) j h'" "blanks w"
        and u: "wf_value u" "to_json u = v"
      have "moves (j, h') (at_text 8 ((a, JSON_ARRAY, None, ls @ [u]) # fs) ?q)"
        by (rule goto_move [where v = LEX_VALUE_SEPARATOR, OF j])
          (simp_all del: lexer.simps add: fits_def lexer_marks parse_token_def parse_element_end_def)
      then show "moves (j, h') ?P"
      proof (rule moves_trans)
        fix k h2 assume k: "at_text 8 ((a, JSON_ARRAY, None, ls @ [u]) # fs) ?q k h2"
        have "moves (k, h2) (\<lambda>j h'. \<exists>us w. at_text 9 ((a, JSON_ARRAY, None, (ls @ [u]) @ us) # fs) (w @ CHR '']'' # r) j h'
            \<and> blanks w \<and> (\<forall>u\<in>set us. wf_value u) \<and> map to_json us = vs)"
          using vs k unfolding parses_elements_def by blast
        then show "moves (k, h2) ?P"
        proof (rule moves_trans, elim exE conjE)
          fix j h' us w assume "at_text 9 ((a, JSON_ARRAY, None, (ls @ [u]) @ us) # fs) (w @ CHR '']'' # r) j h'" "blanks w"
            "\<forall>u\<in>set us. wf_value u" "map to_json us = vs"
          with u show "moves (j, h') ?P"
            by (intro moves_refl exI [of _ "u # us"] exI [of _ w]) simp
        qed
      qed
    qed
  qed
qed

lemma parses_texts:
  "is_value v s \<Longrightarrow> parses_value v s" "is_members ms s' \<Longrightarrow> parses_members ms s'"
  "is_member m s2 \<Longrightarrow> parses_member m s2" "is_elements vs s3 \<Longrightarrow> parses_elements vs s3"
  "is_element u s4 \<Longrightarrow> parses_element u s4"
  by (induction rule: is_value_is_members_is_member_is_elements_is_element.inducts)
    (rule parses_leaves parses_containers parses_members parses_elements parses_member parses_element; assumption)+


section \<open>Documents\<close>

inductive_cases object_textE: "is_value (JObject ms) s"
inductive_cases element_textE: "is_element v s"

text \<open>At the end of the text the root is finished.\<close>

lemma finish_document:
  assumes "at_text 99 [(a, JSON_OBJECT, None, us)] w i h" "blanks w"
  shows "\<exists>j. parse_loop i h = Some (JSON_WAITING_FOR_EOF, j, h) \<and> cursor j = Some a"
proof -
  have s: "pi_state i = 99" "cursor i = Some a" "lex_state (lex i) = 0" "pi_p i = Some w"
    "stands 99 [(a, JSON_OBJECT, None, us)] i h" using assms(1) by (auto simp: at_text_def stands_def)
  show ?thesis
  proof (cases "w = []")
    case True
    with s show ?thesis by (simp add: parse_loop.simps [of i h])
  next
    case False
    have sn: "sane i h" by (rule stands_sane [OF s(5)]) (simp add: fits_def)
    obtain y where "lexer w (lex i) = Some (LEX_MORE, None, y)"
      using lexer_blanks [OF assms(2) s(3), of "[]"] by auto
    with s sn have "parse_state i w h = Return JSON_WAITING_FOR_EOF (i\<lparr>lex := y, pi_p := None\<rparr>) h"
      by (simp add: parse_state_def next_token_def parse_token_def parse_finished_def)
    with s False show ?thesis by (simp add: parse_loop.simps [of i h])
  qed
qed

lemma object_body:
  assumes "is_value (JObject ms) s"
  obtains b where "s = CHR ''{'' # b @ ''}''"
    "\<And>a fs i h r. at_text 2 ((a, JSON_OBJECT, None, []) # fs) (b @ CHR ''}'' # r) i h \<Longrightarrow>
      moves (i, h) (\<lambda>j h'. \<exists>n us w. (n = 2 \<or> n = 3) \<and> at_text n ((a, JSON_OBJECT, None, us) # fs) (w @ CHR ''}'' # r) j h'
        \<and> blanks w \<and> (\<forall>u\<in>set us. wf_label u) \<and> map to_member us = ms)"
proof (rule object_textE [OF assms])
  fix w assume w: "ms = []" "s = CHR ''{'' # w @ ''}''" "blanks w"
  show ?thesis
    by (rule that [OF w(2)], rule moves_refl) (use w in \<open>auto intro!: exI [of _ "2 :: nat"] exI [of _ "[]"] exI [of _ w]\<close>)
next
  fix b assume b: "s = CHR ''{'' # b @ ''}''" "is_members ms b"
  show ?thesis
  proof (rule that [OF b(1)])
    fix a fs i h r assume i: "at_text 2 ((a, JSON_OBJECT, None, []) # fs) (b @ CHR ''}'' # r) i h"
    have "moves (i, h) (\<lambda>j h'. \<exists>us w. at_text 3 ((a, JSON_OBJECT, None, [] @ us) # fs) (w @ CHR ''}'' # r) j h' \<and> blanks w
            \<and> (\<forall>u\<in>set us. wf_label u) \<and> map to_member us = ms)"
      using parses_texts(2) [OF b(2)] i unfolding parses_members_def by blast
    then show "moves (i, h) (\<lambda>j h'. \<exists>n us w. (n = 2 \<or> n = 3) \<and> at_text n ((a, JSON_OBJECT, None, us) # fs) (w @ CHR ''}'' # r) j h'
        \<and> blanks w \<and> (\<forall>u\<in>set us. wf_label u) \<and> map to_member us = ms)"
      by (rule moves_trans) (auto intro!: moves_refl)
  qed
qed

lemma root_moves:
  assumes "is_value (JObject ms) s" "blanks w1"
    and i: "at_text 0 [] (w1 @ s @ w2) i h"
  shows "moves (i, h) (\<lambda>j h'. \<exists>a us. at_text 99 [(a, JSON_OBJECT, None, us)] w2 j h' \<and> (\<forall>u\<in>set us. wf_label u)
    \<and> map to_member us = ms)" (is "moves _ ?P")
proof -
  obtain b where b: "s = CHR ''{'' # b @ ''}''"
    and body: "\<And>a fs i h r. at_text 2 ((a, JSON_OBJECT, None, []) # fs) (b @ CHR ''}'' # r) i h \<Longrightarrow>
      moves (i, h) (\<lambda>j h'. \<exists>n us w. (n = 2 \<or> n = 3) \<and> at_text n ((a, JSON_OBJECT, None, us) # fs) (w @ CHR ''}'' # r) j h'
        \<and> blanks w \<and> (\<forall>u\<in>set us. wf_label u) \<and> map to_member us = ms)"
    using object_body [OF assms(1)] by blast
  let ?q = "b @ CHR ''}'' # w2"
  have "moves (i, h) (at_text 1 [] ?q)"
    by (rule goto_move [where w = w1 and c = "CHR ''{''" and v = LEX_BEGIN_OBJECT and n = 0, OF _ assms(2)])
      (use i b in \<open>simp_all del: lexer.simps add: fits_def lexer_marks parse_token_def parse_start_def\<close>)
  then show ?thesis
  proof (rule moves_trans)
    fix j h1 assume j: "at_text 1 [] ?q j h1"
    have "moves (j, h1) (\<lambda>j h'. \<exists>a. at_text 2 ((a, JSON_OBJECT, None, []) # []) ?q j h')"
      by (rule open_move [OF j]) (simp_all add: fits_def)
    then show "moves (j, h1) ?P"
    proof (rule moves_trans, elim exE)
      fix k h2 a assume k: "at_text 2 [(a, JSON_OBJECT, None, [])] ?q k h2"
      show "moves (k, h2) ?P"
      proof (rule moves_trans [OF body [OF k]], elim exE conjE)
        fix l h3 n us w
        assume n: "n = 2 \<or> n = 3" and l: "at_text n [(a, JSON_OBJECT, None, us)] (w @ CHR ''}'' # w2) l h3" "blanks w"
          and us: "\<forall>u\<in>set us. wf_label u" "map to_member us = ms"
        have "moves (l, h3) (at_text 99 [(a, JSON_OBJECT, None, us)] w2)"
          by (rule close_move [OF l]) (use n in \<open>auto simp: fits_def\<close>)
        then show "moves (l, h3) ?P" by (rule moves_trans) (use us in \<open>auto intro!: moves_refl\<close>)
      qed
    qed
  qed
qed

lemma fragment_complete:
  assumes "is_element (JObject ms) s"
  shows "\<exists>t j h'. json_parse_fragment json_jpi_init s h = Some (JSON_WAITING_FOR_EOF, j, h') \<and> cursor j = Some (ad t)
    \<and> document h' t \<and> to_json t = JObject ms"
proof -
  obtain w1 v w2 where s: "s = w1 @ v @ w2" "blanks w1" "is_value (JObject ms) v" "blanks w2"
    using assms by (cases rule: element_textE) blast
  let ?i = "json_jpi_init\<lparr>pi_p := Some s\<rparr>"
  have "at_text 0 [] (w1 @ v @ w2) ?i h"
    using s(1) by (simp add: at_text_def stands_def json_jpi_init_def holds_frames_def)
  from root_moves [OF s(3,2) this] obtain j h' a us where
    j: "parse_loop ?i h = parse_loop j h'" "at_text 99 [(a, JSON_OBJECT, None, us)] w2 j h'"
      "\<forall>u\<in>set us. wf_label u" "map to_member us = ms" by (auto simp: moves_def)
  obtain k where "parse_loop j h' = Some (JSON_WAITING_FOR_EOF, k, h')" "cursor k = Some a"
    using finish_document [OF j(2) s(4)] by blast
  with j(1) have "json_parse_fragment json_jpi_init s h = Some (JSON_WAITING_FOR_EOF, k, h')" "cursor k = Some a"
    by (simp_all add: json_parse_fragment_def)
  moreover have "document h' (ANode a JSON_OBJECT None us)"
    using j(2,3) by (auto simp: document_def at_text_def stands_def holds_frames_def open_node_def)
  ultimately show ?thesis using j(4) by (intro exI [of _ "ANode a JSON_OBJECT None us"] exI [of _ k] exI [of _ h']) simp
qed

text \<open>
  C6: every text of an object after RFC 8259, with white space wherever the grammar allows it, is accepted
  by \<open>json_parse_document\<close>, and the tree it returns is a finished document of the value of the text.
\<close>

theorem parse_document_complete:
  assumes "is_element (JObject ms) s"
  shows "\<exists>t h'. json_parse_document s h = Some (JSON_OK, Some (ad t), h') \<and> document h' t \<and> to_json t = JObject ms"
  using fragment_complete [OF assms, of h] by (auto simp: json_parse_document_def)

theorem parse_document_complete_witness:
  "\<exists>t h'. json_parse_document (''{ '' @ [DQ] @ ''a'' @ [DQ] @ '':[]}'') \<lparr>cells = \<lambda>_. None, fresh = 0\<rparr> = Some (JSON_OK, Some (ad t), h')
     \<and> document h' t \<and> to_json t = JObject [Member ''a'' (JArray [])]"
proof -
  have "string_body ''a''" by (rule body_char [OF _ _ _ body_end]) simp_all
  moreover have "is_element (JArray []) ([] @ ''[]'' @ [])"
    by (rule element) (use value_empty_array [of "[]"] in \<open>simp_all add: blanks_def\<close>)
  ultimately have "is_member (Member ''a'' (JArray [])) ('' '' @ DQ # ''a'' @ DQ # [] @ CHR '':'' # [] @ ''[]'' @ [])"
    by (intro member) (simp_all add: blanks_def is_blank_def)
  then have "is_value (JObject [Member ''a'' (JArray [])]) (CHR ''{'' # ('' '' @ DQ # ''a'' @ DQ # [] @ CHR '':'' # [] @ ''[]'' @ []) @ ''}'')"
    by (intro value_object members_one)
  then have "is_element (JObject [Member ''a'' (JArray [])]) ([] @ (CHR ''{'' # ('' '' @ DQ # ''a'' @ DQ # [] @ CHR '':'' # [] @ ''[]'' @ []) @ ''}'') @ [])"
    by (intro element) (simp_all add: blanks_def)
  from parse_document_complete [OF this, of "\<lparr>cells = \<lambda>_. None, fresh = 0\<rparr>"] show ?thesis by simp
qed

section \<open>Printing and parsing\<close>

text \<open>A value whose strings and numbers are those of a JSON text.\<close>

fun valid_json :: "json \<Rightarrow> bool" and valid_member :: "member \<Rightarrow> bool" where
  "valid_json (JString s) = string_body s"
| "valid_json (JNumber s) = is_number s"
| "valid_json (JObject ms) = (\<forall>m\<in>set ms. valid_member m)"
| "valid_json (JArray vs) = (\<forall>v\<in>set vs. valid_json v)"
| "valid_json JTrue = True"
| "valid_json JFalse = True"
| "valid_json JNull = True"
| "valid_member (Member k v) = (string_body k \<and> valid_json v)"

lemma print_members: "ms \<noteq> [] \<Longrightarrow> (\<And>m. m \<in> set ms \<Longrightarrow> is_member m (mprint m)) \<Longrightarrow> is_members ms (commas (map mprint ms))"
proof (induction ms)
  case (Cons m ms)
  show ?case
  proof (cases "ms = []")
    case True
    with Cons.prems members_one [of m] show ?thesis by simp
  next
    case False
    have "is_members ms (commas (map mprint ms))" using False Cons.prems(2) by (intro Cons.IH) simp_all
    moreover have "commas (map mprint (m # ms)) = mprint m @ CHR '','' # commas (map mprint ms)"
      using False by (cases ms) simp_all
    ultimately show ?thesis using Cons.prems(2) [of m] members_more [of m "mprint m" ms] by simp
  qed
qed simp

lemma print_elements: "vs \<noteq> [] \<Longrightarrow> (\<And>v. v \<in> set vs \<Longrightarrow> is_value v (jprint v)) \<Longrightarrow> is_elements vs (commas (map jprint vs))"
proof (induction vs)
  case (Cons v vs)
  have e: "is_element v (jprint v)"
    using element [of "[]" v "jprint v" "[]"] Cons.prems by (simp add: blanks_def)
  show ?case
  proof (cases "vs = []")
    case True
    with e elements_one [of v] show ?thesis by simp
  next
    case False
    have "is_elements vs (commas (map jprint vs))" using False Cons.prems(2) by (intro Cons.IH) simp_all
    moreover have "commas (map jprint (v # vs)) = jprint v @ CHR '','' # commas (map jprint vs)"
      using False by (cases vs) simp_all
    ultimately show ?thesis using e elements_more [of v "jprint v" vs] by simp
  qed
qed simp

lemma print_is_value:
  "valid_json v \<Longrightarrow> is_value v (jprint v)" "valid_member m \<Longrightarrow> is_member m (mprint m)"
proof (induction v and m rule: valid_json_valid_member.induct)
  case (3 ms)
  then show ?case
    using value_empty_object [of "[]"] by (cases "ms = []") (auto simp: blanks_def intro!: value_object print_members)
next
  case (4 vs)
  then show ?case
    using value_empty_array [of "[]"] by (cases "vs = []") (auto simp: blanks_def intro!: value_array print_elements)
next
  case (8 k v)
  then have "is_element v ([] @ jprint v @ [])" by (intro element) (simp_all add: blanks_def)
  from member [OF _ _ _ this, of "[]" k "[]"] 8 show ?case by (simp add: blanks_def)
qed (auto intro: is_value_is_members_is_member_is_elements_is_element.intros simp: value_true value_false value_null)

lemma commas_nul_free: "(\<And>x. x \<in> set xs \<Longrightarrow> nul_free x) \<Longrightarrow> nul_free (commas xs)"
  by (induction xs rule: commas.induct) auto

lemma print_nul_free: "valid_json v \<Longrightarrow> nul_free (jprint v)" "valid_member m \<Longrightarrow> nul_free (mprint m)"
  by (induction v and m rule: valid_json_valid_member.induct)
    (auto intro!: commas_nul_free simp: string_body_nul_free is_number_nul_free)



end
