(* ===== verification/JsonFree.thy ===== *)
theory JsonFree
  imports JsonTree
begin

text \<open>
  Releasing a tree of \<open>src/ServerEngine/mjson/json.c\<close>: \<open>intern_json_free_value\<close> unlinks one node
  without children and frees it, \<open>json_free_value\<close> walks down to such nodes and up again.
  A freed node is no longer in the store, so a later load through a pointer to it is \<open>None\<close>.
\<close>

section \<open>The code\<close>

text \<open>The links of the neighbours; what follows a store is read again.\<close>

definition unlink_siblings :: "addr \<Rightarrow> store \<Rightarrow> store option" where
  "unlink_siblings a h = do {
     n \<leftarrow> cells h a;
     (case previous n of
        None \<Rightarrow> (case nextp n of None \<Rightarrow> Some h | Some q \<Rightarrow> change q (previous_update (\<lambda>_. None)) h)
      | Some p \<Rightarrow> (case nextp n of
            None \<Rightarrow> change p (nextp_update (\<lambda>_. None)) h
          | Some q \<Rightarrow> do {
              h1 \<leftarrow> change p (nextp_update (\<lambda>_. Some q)) h;
              n1 \<leftarrow> cells h1 a;
              q1 \<leftarrow> nextp n1;
              change q1 (previous_update (\<lambda>_. previous n1)) h1 })) }"

text \<open>The first and the last child of the parent.\<close>

definition unlink_parent :: "addr \<Rightarrow> store \<Rightarrow> store option" where
  "unlink_parent a h = do {
     n \<leftarrow> cells h a;
     (case parent n of
        None \<Rightarrow> Some h
      | Some p \<Rightarrow> do {
          np \<leftarrow> cells h p;
          h1 \<leftarrow> (if child np = Some a then change p (child_update (\<lambda>_. nextp n)) h else Some h);
          n1 \<leftarrow> cells h1 a;
          np1 \<leftarrow> cells h1 p;
          if child_end np1 = Some a then change p (child_end_update (\<lambda>_. previous n1)) h1 else Some h1 }) }"

definition intern_json_free_value :: "addr \<Rightarrow> store \<Rightarrow> store option" where
  "intern_json_free_value a h = do {
     n \<leftarrow> cells h a;
     if child n \<noteq> None then None
     else do {
       h1 \<leftarrow> unlink_siblings a h;
       h2 \<leftarrow> unlink_parent a h1;
       Some (h2\<lparr>cells := (cells h2)(a := None)\<rparr>) } }"

text \<open>\<open>v\<close> is the node to free, \<open>c\<close> the cursor; a cursor that is null is undefined.\<close>

partial_function (option) free_loop :: "addr \<Rightarrow> addr \<Rightarrow> store \<Rightarrow> store option" where
  "free_loop v c h = do {
     n \<leftarrow> cells h c;
     (case child n of
        Some d \<Rightarrow> free_loop v d h
      | None \<Rightarrow> do {
          h1 \<leftarrow> intern_json_free_value c h;
          if c = v then Some h1
          else (case parent n of None \<Rightarrow> None | Some p \<Rightarrow> free_loop v p h1) }) }"

definition json_free_value :: "addr option \<Rightarrow> store \<Rightarrow> store option" where
  "json_free_value value h = (case value of None \<Rightarrow> None | Some a \<Rightarrow> free_loop a a h)"

section \<open>Freeing the children of a node\<close>

definition without :: "addr list \<Rightarrow> (addr \<Rightarrow> json_t option) \<Rightarrow> addr \<Rightarrow> json_t option" where
  "without as m b = (if b \<in> set as then None else m b)"

lemma without_Nil [simp]: "without [] m = m"
  by (simp add: without_def fun_eq_iff)

lemma without_notin: "b \<notin> set as \<Longrightarrow> without as m b = m b"
  by (simp add: without_def)

lemma without_without [simp]: "without as (without bs m) = without (as @ bs) m"
  by (auto simp: without_def fun_eq_iff)

lemma rep_without [simp]:
  "set (addrs t) \<inter> set as = {} \<Longrightarrow> rep (without as m) par prv nxt t = rep m par prv nxt t"
  "set (addrs_list ts) \<inter> set as = {} \<Longrightarrow> rep_list (without as m) par prv nxt ts = rep_list m par prv nxt ts"
  by (rule rep_cong; auto simp: without_def)+

text \<open>The first child, itself without children, is freed.\<close>

lemma rep_previous:
  assumes "rep m par prv nxt t" "distinct (addrs t)"
  shows "\<exists>n. m (ad t) = Some n \<and> rep (m(ad t \<mapsto> previous_update (\<lambda>_. prv') n)) par prv' nxt t"
  using assms by (cases t) (auto simp: node_def)

lemma rep_list_previous:
  assumes "rep_list m par prv nxt (t # ts)" "distinct (addrs_list (t # ts))"
  shows "\<exists>n. m (ad t) = Some n \<and> rep_list (m(ad t \<mapsto> previous_update (\<lambda>_. prv') n)) par prv' nxt (t # ts)"
proof -
  have "ad t \<notin> set (addrs_list ts)" using assms(2) ad_in_addrs [of t] by (auto simp: disjoint_iff simp del: ad_in_addrs)
  then show ?thesis using assms rep_previous [of m par prv _ t prv'] by fastforce
qed


lemma free_first:
  assumes p: "cells h a = Some (node t x nxt prv par (Some c) (last_ad (ANode c u y [] # ts)))"
    and c: "cells h c = Some (node u y (first_ad ts) None (Some a) None None)"
    and ts: "rep_list (cells h) (Some a) (Some c) None ts"
    and d: "distinct (a # c # addrs_list ts)"
  shows "\<exists>h'. intern_json_free_value c h = Some h'
    \<and> cells h' a = Some (node t x nxt prv par (first_ad ts) (last_ad ts))
    \<and> rep_list (cells h') (Some a) None None ts
    \<and> (\<forall>b. b \<notin> insert a (set (addrs_list ts)) \<longrightarrow> cells h' b = without [c] (cells h) b) \<and> fresh h' = fresh h"
proof (cases ts)
  case Nil
  let ?h = "h\<lparr>cells := (cells h)(a \<mapsto> node t x nxt prv par None None, c := None)\<rparr>"
  have "intern_json_free_value c h = Some ?h"
    using p c d Nil
    by (simp add: intern_json_free_value_def unlink_siblings_def unlink_parent_def change_def node_def)
  moreover have "cells ?h a = Some (node t x nxt prv par None None)" using d by simp
  ultimately show ?thesis using Nil by (intro exI [of _ ?h]) (auto simp: without_def)
next
  case (Cons s ss)
  obtain n where n: "cells h (ad s) = Some n"
    "rep_list ((cells h)(ad s \<mapsto> previous_update (\<lambda>_. None) n)) (Some a) None None ts"
    using rep_list_previous [of "cells h" "Some a" "Some c" None s ss None] ts d by (auto simp: Cons)
  have s: "ad s \<in> set (addrs_list ts)" by (simp add: Cons)
  then have sd: "ad s \<noteq> a" "ad s \<noteq> c" using d by auto
  have l: "last_ad (ANode c u y [] # ts) = last_ad ts" by (simp add: last_ad_def Cons)
  have lc: "last_ad ts \<noteq> Some c"
    using d ad_in_addrs [of "last ts"] last_in_set [of ts] by (auto simp: last_ad_def simp del: ad_in_addrs last_in_set)
  let ?m = "(cells h)(ad s \<mapsto> previous_update (\<lambda>_. None) n, a \<mapsto> node t x nxt prv par (first_ad ts) (last_ad ts))"
  let ?h = "h\<lparr>cells := ?m(c := None)\<rparr>"
  have "unlink_siblings c h = Some (h\<lparr>cells := (cells h)(ad s \<mapsto> previous_update (\<lambda>_. None) n)\<rparr>)"
    using c n(1) by (simp add: unlink_siblings_def change_def Cons)
  moreover have "unlink_parent c (h\<lparr>cells := (cells h)(ad s \<mapsto> previous_update (\<lambda>_. None) n)\<rparr>) = Some (h\<lparr>cells := ?m\<rparr>)"
    using p c d sd lc l by (simp add: unlink_parent_def change_def node_def)
  ultimately have f: "intern_json_free_value c h = Some ?h"
    using c by (simp add: intern_json_free_value_def)
  have r: "rep_list (cells ?h) (Some a) None None ts"
    using n(2) d by (simp del: fun_upd_apply)
  have "cells ?h a = Some (node t x nxt prv par (first_ad ts) (last_ad ts))" using d by simp
  with f r s show ?thesis by (intro exI [of _ ?h]) (auto simp: without_def)
qed

text \<open>The walk from a node, back at it: its children are gone.\<close>

definition emptied :: "atree \<Rightarrow> addr option \<Rightarrow> addr option \<Rightarrow> addr option \<Rightarrow> store \<Rightarrow> store \<Rightarrow> bool" where
  "emptied t par prv nxt h h' \<longleftrightarrow> cells h' (ad t) = Some (node (ty t) (tx t) nxt prv par None None)
     \<and> (\<forall>b. b \<noteq> ad t \<longrightarrow> cells h' b = without (addrs_list (kids t)) (cells h) b) \<and> fresh h' = fresh h"

lemma free_kids:
  assumes "\<And>s h prv nxt par. s \<in> set ts \<Longrightarrow> rep (cells h) par prv nxt s \<Longrightarrow> distinct (addrs s) \<Longrightarrow> v \<notin> set (addrs_list (kids s)) \<Longrightarrow>
      \<exists>h'. emptied s par prv nxt h h' \<and> free_loop v (ad s) h = free_loop v (ad s) h'"
    and "cells h a = Some (node t x nxt prv par (first_ad ts) (last_ad ts))" "rep_list (cells h) (Some a) None None ts"
    and "distinct (a # addrs_list ts)" "v \<notin> set (addrs_list ts)"
  shows "\<exists>h'. emptied (ANode a t x ts) par prv nxt h h' \<and> free_loop v a h = free_loop v a h'"
  using assms
proof (induction ts arbitrary: h)
  case Nil
  then show ?case by (intro exI [of _ h]) (simp add: emptied_def)
next
  case (Cons s ss)
  let ?c = "ad s"
  have s: "rep (cells h) (Some a) None (first_ad ss) s" and ss: "rep_list (cells h) (Some a) (Some ?c) None ss"
    using Cons.prems(3) by (cases ss, auto)+
  have d: "distinct (addrs s)" "v \<notin> set (addrs_list (kids s))" "v \<noteq> ?c" "a \<notin> set (addrs s)"
      "set (addrs s) \<inter> set (addrs_list ss) = {}" "distinct (a # addrs_list ss)" "v \<notin> set (addrs_list ss)"
    using Cons.prems(4,5) by (cases s; auto)+
  obtain h1 where h1: "emptied s (Some a) None (first_ad ss) h h1" "free_loop v ?c h = free_loop v ?c h1"
    using Cons.prems(1) [OF _ s d(1,2)] by auto
  obtain u y ks where u: "s = ANode ?c u y ks" by (cases s) auto
  have e: "cells h1 ?c = Some (node u y (first_ad ss) None (Some a) None None)"
      "\<And>b. b \<noteq> ?c \<Longrightarrow> cells h1 b = without (addrs_list ks) (cells h) b" "fresh h1 = fresh h"
    using h1(1) u by (auto simp: emptied_def) (metis atree.sel(2,3,4))+
  have ks: "a \<noteq> ?c" "a \<notin> set (addrs_list ks)" "set (addrs_list ks) \<inter> set (addrs_list ss) = {}" "?c \<notin> set (addrs_list ss)"
    using d(4,5) by (subst (asm) (1 2) u; auto)+
  have l: "last_ad (s # ss) = last_ad (ANode ?c u y [] # ss)" by (simp add: last_ad_def)
  have p1: "cells h1 a = Some (node t x nxt prv par (Some ?c) (last_ad (ANode ?c u y [] # ss)))"
    using e(2) [OF ks(1)] ks(2) Cons.prems(2) by (simp add: without_def l)
  have "rep_list (cells h1) (Some a) (Some ?c) None ss = rep_list (cells h) (Some a) (Some ?c) None ss"
  proof (rule rep_cong)
    fix b assume "b \<in> set (addrs_list ss)"
    then have "b \<noteq> ?c" "b \<notin> set (addrs_list ks)" using ks(3,4) by blast+
    then show "cells h1 b = cells h b" using e(2) [of b] by (simp add: without_notin)
  qed
  with ss have r1: "rep_list (cells h1) (Some a) (Some ?c) None ss" by simp
  have d1: "distinct (a # ?c # addrs_list ss)" using d(6) ks by simp
  from free_first [OF p1 e(1) r1 d1] obtain h2 where h2: "intern_json_free_value ?c h1 = Some h2"
    "cells h2 a = Some (node t x nxt prv par (first_ad ss) (last_ad ss))"
    "rep_list (cells h2) (Some a) None None ss"
    "\<And>b. b \<notin> insert a (set (addrs_list ss)) \<Longrightarrow> cells h2 b = without [?c] (cells h1) b" "fresh h2 = fresh h1"
    by blast
  have f2: "free_loop v a h = free_loop v a h2"
    using Cons.prems(2) h1(2) e(1) h2(1) d(3) free_loop.simps [of v a h] free_loop.simps [of v ?c h1] by simp
  obtain h3 where h3: "emptied (ANode a t x ss) par prv nxt h2 h3" "free_loop v a h2 = free_loop v a h3"
    using Cons.IH [OF _ h2(2,3) d(6,7)] Cons.prems(1) by auto
  have "cells h3 b = without (addrs_list (s # ss)) (cells h) b" if b: "b \<noteq> a" for b
  proof -
    have 3: "cells h3 b = without (addrs_list ss) (cells h2) b" using h3(1) b by (simp add: emptied_def)
    have k: "set (addrs s) = insert ?c (set (addrs_list ks))" by (subst u) simp
    show ?thesis
      using 3 b h2(4) [of b] e(2) [of b] k by (cases "b \<in> set (addrs_list ss)"; cases "b = ?c") (auto simp: without_def)
  qed
  with h3 f2 h2(5) e(3) show ?case by (intro exI [of _ h3]) (simp add: emptied_def)
qed

lemma free_tree:
  "rep (cells h) par prv nxt t \<Longrightarrow> distinct (addrs t) \<Longrightarrow> v \<notin> set (addrs_list (kids t)) \<Longrightarrow>
     \<exists>h'. emptied t par prv nxt h h' \<and> free_loop v (ad t) h = free_loop v (ad t) h'"
proof (induction t arbitrary: h par prv nxt)
  case (ANode a t x ts)
  have "\<exists>h'. emptied (ANode a t x ts) par prv nxt h h' \<and> free_loop v a h = free_loop v a h'"
    by (rule free_kids) (use ANode in \<open>simp_all\<close>)
  then show ?case by simp
qed

section \<open>Freeing a whole tree\<close>

lemma free_root:
  assumes "rep (cells h) None None None t" "distinct (addrs t)"
  shows "json_free_value (Some (ad t)) h = Some (h\<lparr>cells := without (addrs t) (cells h)\<rparr>)"
proof -
  obtain a u x ts where t: "t = ANode a u x ts" by (cases t)
  from free_tree [OF assms] assms(2) t obtain h' where
    h': "emptied t None None None h h'" "free_loop a a h = free_loop a a h'" by auto
  have a: "cells h' a = Some (node u x None None None None None)" using h'(1) t by (simp add: emptied_def)
  then have "intern_json_free_value a h' = Some (h'\<lparr>cells := (cells h')(a := None)\<rparr>)"
    by (simp add: intern_json_free_value_def unlink_siblings_def unlink_parent_def)
  with a have f: "free_loop a a h' = Some (h'\<lparr>cells := (cells h')(a := None)\<rparr>)"
    by (subst free_loop.simps) simp
  have "(cells h')(a := None) = without (addrs t) (cells h)"
    using h'(1) t by (auto simp: emptied_def fun_eq_iff without_def)
  then have "h'\<lparr>cells := (cells h')(a := None)\<rparr> = h\<lparr>cells := without (addrs t) (cells h)\<rparr>"
    using h'(1) by (simp add: emptied_def)
  with f h'(2) t show ?thesis by (simp add: json_free_value_def)
qed


section \<open>Freeing the open node of a growing tree\<close>

lemma zip_rep_cong:
  "(\<And>b. b \<in> set (frame_addrs fs) \<Longrightarrow> m b = m' b) \<Longrightarrow> zip_rep m cur fs = zip_rep m' cur fs"
proof (induction fs arbitrary: cur rule: frame_addrs.induct)
  case (2 a t x ls fs)
  have "rep_list m (Some a) None cur ls = rep_list m' (Some a) None cur ls"
    by (rule rep_cong) (use 2(2) in auto)
  with 2 show ?case by simp
qed simp

lemma unlink_open:
  assumes a: "cells h a = Some (node t x None (top_last fs) (top_ad fs) None None)"
    and z: "zip_rep (cells h) (Some a) fs" and d: "distinct (frame_addrs fs)" "a \<notin> set (frame_addrs fs)"
  shows "\<exists>h'. intern_json_free_value a h = Some h' \<and> zip_rep (cells h') None fs
    \<and> (\<forall>b. b \<notin> set (frame_addrs fs) \<longrightarrow> cells h' b = without [a] (cells h) b) \<and> fresh h' = fresh h"
proof (cases fs)
  case Nil
  with a show ?thesis
    by (auto simp: intern_json_free_value_def unlink_siblings_def unlink_parent_def without_def)
next
  case (Cons f gs)
  obtain b u y ls where f: "f = (b, u, y, ls)" by (cases f)
  have b: "cells h b = Some (open_node u y ls (Some a) gs)" "rep_list (cells h) (Some b) None (Some a) ls"
      "zip_rep (cells h) (Some b) gs" "b \<noteq> a" "b \<notin> set (addrs_list ls)" "b \<notin> set (frame_addrs gs)"
      "a \<notin> set (addrs_list ls)" "a \<notin> set (frame_addrs gs)" "set (addrs_list ls) \<inter> set (frame_addrs gs) = {}"
      "distinct (addrs_list ls)"
    using z d by (auto simp: Cons f)
  show ?thesis
  proof (cases "ls = []")
    case True
    let ?h = "h\<lparr>cells := (cells h)(b \<mapsto> open_node u y [] None gs, a := None)\<rparr>"
    have "intern_json_free_value a h = Some ?h"
      using a b(1,4) True
      by (simp add: intern_json_free_value_def unlink_siblings_def unlink_parent_def change_def Cons f open_node_def node_def)
    moreover have "zip_rep (cells ?h) None fs"
      using b True by (simp add: Cons f)
    ultimately show ?thesis
      by (intro exI [of _ ?h]) (auto simp: without_def Cons f)
  next
    case False
    let ?e = "ad (last ls)"
    obtain n where n: "cells h ?e = Some n" "rep_list ((cells h)(?e \<mapsto> nextp_update (\<lambda>_. None) n)) (Some b) None None ls"
      using rep_list_next [OF b(2,10) False, of None] by blast
    have e: "?e \<in> set (addrs_list ls)" using False by (auto intro: bexI [of _ "last ls"])
    then have en: "?e \<noteq> a" "?e \<noteq> b" "?e \<notin> set (frame_addrs gs)" using b(5,7,9) by auto
    have fa: "first_ad ls \<noteq> Some a" using b(7) ad_in_addrs [of "hd ls"] False by (cases ls) auto
    have la: "last_ad ls = Some ?e" using False by (simp add: last_ad_def)
    let ?m = "(cells h)(?e \<mapsto> nextp_update (\<lambda>_. None) n)"
    let ?h = "h\<lparr>cells := ?m(b \<mapsto> open_node u y ls None gs, a := None)\<rparr>"
    have "unlink_siblings a h = Some (h\<lparr>cells := ?m\<rparr>)"
      using a n(1) la by (simp add: unlink_siblings_def change_def Cons f)
    moreover have "unlink_parent a (h\<lparr>cells := ?m\<rparr>) = Some (h\<lparr>cells := ?m(b \<mapsto> open_node u y ls None gs)\<rparr>)"
      using a b(1,4) en fa la False
      by (simp add: unlink_parent_def change_def Cons f open_node_def node_def)
    ultimately have i: "intern_json_free_value a h = Some ?h"
      using a by (simp add: intern_json_free_value_def)
    have "rep_list (cells ?h) (Some b) None None ls"
      using n(2) b(5,7) by (simp del: fun_upd_apply)
    moreover have "zip_rep (cells ?h) (Some b) gs"
      using b(3,6,8) en(3) by (simp del: fun_upd_apply)
    moreover have "cells ?h b = Some (open_node u y ls None gs)" using b(4) by simp
    ultimately have "zip_rep (cells ?h) None fs" by (simp only: Cons f zip_rep.simps simp_thms)
    with i e show ?thesis
      by (intro exI [of _ ?h]) (auto simp: without_def Cons f)
  qed
qed

lemma free_open:
  assumes "holds_frames h ((a, t, x, ls) # fs)"
  shows "\<exists>h'. json_free_value (Some a) h = Some h' \<and> holds_frames h' fs \<and> fresh h' = fresh h
    \<and> (\<forall>b. b \<notin> set (frame_addrs fs) \<longrightarrow> cells h' b = without (a # addrs_list ls) (cells h) b)"
proof -
  have h: "cells h a = Some (open_node t x ls None fs)" "rep_list (cells h) (Some a) None None ls"
      "zip_rep (cells h) (Some a) fs" "distinct (a # addrs_list ls)" "a \<notin> set (frame_addrs fs)"
      "set (addrs_list ls) \<inter> set (frame_addrs fs) = {}" "distinct (frame_addrs fs)"
      "\<forall>b\<in>set (frame_addrs fs). b < fresh h"
    using assms by (auto simp: holds_frames_def)
  have "rep (cells h) (top_ad fs) (top_last fs) None (ANode a t x ls)"
    using h(1,2) by (simp add: open_node_def)
  from free_tree [OF this, of a] h(4) obtain h1 where
    h1: "emptied (ANode a t x ls) (top_ad fs) (top_last fs) None h h1" "free_loop a a h = free_loop a a h1" by auto
  have a1: "cells h1 a = Some (node t x None (top_last fs) (top_ad fs) None None)" "fresh h1 = fresh h"
      "\<And>b. b \<noteq> a \<Longrightarrow> cells h1 b = without (addrs_list ls) (cells h) b"
    using h1(1) by (simp_all add: emptied_def)
  have "zip_rep (cells h1) (Some a) fs = zip_rep (cells h) (Some a) fs"
  proof (rule zip_rep_cong)
    fix b assume "b \<in> set (frame_addrs fs)"
    then have "b \<noteq> a" "b \<notin> set (addrs_list ls)" using h(5,6) by blast+
    then show "cells h1 b = cells h b" using a1(3) [of b] by (simp add: without_notin)
  qed
  with h(3) have "zip_rep (cells h1) (Some a) fs" by simp
  from unlink_open [OF a1(1) this h(7,5)] obtain h2 where
    h2: "intern_json_free_value a h1 = Some h2" "zip_rep (cells h2) None fs"
      "\<And>b. b \<notin> set (frame_addrs fs) \<Longrightarrow> cells h2 b = without [a] (cells h1) b" "fresh h2 = fresh h1" by blast
  have "free_loop a a h1 = Some h2" using a1(1) h2(1) by (subst free_loop.simps) simp
  then have "json_free_value (Some a) h = Some h2" using h1(2) by (simp add: json_free_value_def)
  moreover have "holds_frames h2 fs" using h2(2,4) h(7,8) a1(2) by (simp add: holds_frames_def)
  moreover have "cells h2 b = without (a # addrs_list ls) (cells h) b" if "b \<notin> set (frame_addrs fs)" for b
    using h2(3) [OF that] a1(3) [of b] by (cases "b = a") (auto simp: without_def)
  ultimately show ?thesis using h2(4) a1(2) by (intro exI [of _ h2]) simp
qed




end
