(* ===== verification/JsonStream.thy ===== *)
theory JsonStream
  imports JsonDocument JsonFree
begin

text \<open>
  Documents from outside: \<open>json_stream_parse\<close> of \<open>src/ServerEngine/mjson/json.c\<close>, which feeds
  a file line by line to the parser, and \<open>on_json_protocal_recv_entry\<close> of
  \<open>src/ServerEngine/baseinet/CHttpParser.h\<close>, which looks for the number of a service in a
  document that has arrived.  A file is the list of the characters not read yet.
\<close>

section \<open>Reading a file\<close>

text \<open>\<open>fgets (buffer, 1024, file)\<close> on a file that is not at its end: the line and the rest.\<close>

definition fgets :: "nat \<Rightarrow> char list \<Rightarrow> char list \<times> char list" where
  "fgets n file =
     (let k = min (n - 1) (length (takeWhile (\<lambda>c. c \<noteq> CHR 0x0A) file) + 1) in (take k file, drop k file))"

lemma fgets_shorter: "file \<noteq> [] \<Longrightarrow> 1 < n \<Longrightarrow> length (snd (fgets n file)) < length file"
  by (simp add: fgets_def Let_def)

lemma fgets_append: "fst (fgets n file) @ snd (fgets n file) = file"
  by (simp add: fgets_def Let_def)

function stream_loop ::
  "json_error \<Rightarrow> json_parsing_info \<Rightarrow> char list \<Rightarrow> store \<Rightarrow> (json_error \<times> addr option \<times> store) option" where
  "stream_loop error state file h =
     (if error = JSON_WAITING_FOR_EOF \<or> error = JSON_INCOMPLETE_DOCUMENT then
        if file \<noteq> [] then
          let line = fst (fgets 1024 file); rest = snd (fgets 1024 file) in
          (case json_parse_fragment state (c_str line) h of
             None \<Rightarrow> None
           | Some (e, j, h1) \<Rightarrow>
               if e \<in> {JSON_OK, JSON_WAITING_FOR_EOF, JSON_INCOMPLETE_DOCUMENT} then stream_loop e j rest h1
               else map_option (\<lambda>h2. (e, None, h2)) (json_free_value (cursor j) h1))
        else Some (if error = JSON_WAITING_FOR_EOF then (JSON_OK, cursor state, h) else (JSON_UNKNOWN_PROBLEM, None, h))
      else Some (error, if error = JSON_OK then cursor state else None, h))"
  by pat_completeness auto
termination
  by (relation "measure (\<lambda>(e, i, file, h). length file)") (auto intro: fgets_shorter)

declare stream_loop.simps [simp del]

text \<open>The result and \<open>*document\<close>, which is null before the call.\<close>

definition json_stream_parse :: "char list \<Rightarrow> store \<Rightarrow> (json_error \<times> addr option \<times> store) option" where
  "json_stream_parse file h = stream_loop JSON_INCOMPLETE_DOCUMENT json_jpi_init file h"

section \<open>A text that has arrived\<close>

text \<open>
  The byte behind the text is overwritten first; the result of the look-up is not tested.  The
  service number that is read is the result here, \<open>None\<close> when the function returns before.
\<close>

definition on_json_protocal_recv_entry ::
  "char list \<Rightarrow> nat \<Rightarrow> store \<Rightarrow> (char list \<times> u32 option \<times> store) option" where
  "on_json_protocal_recv_entry data len h = do {
     data1 \<leftarrow> poke data len NUL;
     (ret, root, h1) \<leftarrow> json_parse_document (c_str data1) h;
     (case root of
        None \<Rightarrow> Some (data1, None, h1)
      | Some r \<Rightarrow>
          if ret \<noteq> JSON_OK then Some (data1, None, h1)
          else do {
            l \<leftarrow> json_find_first_label r ''0'' h1;
            a \<leftarrow> l;
            n \<leftarrow> cells h1 a;
            (case child n of
               None \<Rightarrow> Some (data1, None, h1)
             | Some b \<Rightarrow> do {
                 m \<leftarrow> cells h1 b;
                 if jtype m \<noteq> JSON_NUMBER then Some (data1, None, h1)
                 else do { t \<leftarrow> jtext m; stype \<leftarrow> atoi t; Some (data1, Some stype, h1) } }) }) }"


section \<open>Fragments that are refused\<close>

text \<open>When the parser refuses a fragment it refuses every longer one, with the same tree built.\<close>

lemma parse_token_nonzero: "nexts (\<lambda>j h. pi_state j \<noteq> 0) (parse_token v i h)"
  unfolding parse_token_def token_defs new_label_def field_value_def element_def Let_def
  by (auto split: lex_value.split option.split intro!: nexts_add_child nexts_close nexts_at_cursor)

lemma parse_state_nonzero: "nexts (\<lambda>j h. pi_state j \<noteq> 0) (parse_state i s h)"
  using parse_token_nonzero
  by (auto simp: parse_state_def next_token_def open_container_def Let_def split: option.split prod.split
      intro!: nexts_add_child nexts_at_cursor)

lemma token_more_state:
  assumes "parse_token LEX_MORE i h = Return e j h'" "pi_state i \<noteq> 0"
  shows "e = JSON_INCOMPLETE_DOCUMENT \<or> e = JSON_WAITING_FOR_EOF"
  using assms unfolding parse_token_def token_defs Let_def by (auto split: if_splits)

lemma parse_state_error:
  assumes r: "parse_state i s h = Return e j h'" and e: "e \<noteq> JSON_INCOMPLETE_DOCUMENT" "e \<noteq> JSON_WAITING_FOR_EOF"
    and "pi_state i \<noteq> 0"
  shows "\<exists>q. parse_state (i\<lparr>pi_p := Some (s @ t)\<rparr>) (s @ t) h = Return e (j\<lparr>pi_p := q\<rparr>) h'"
proof (cases "pi_state i = 1 \<or> pi_state i = 7")
  case True
  from parse_open_p(1) [OF True, of "Some (s @ t)" "s @ t" h s] r show ?thesis by auto
next
  case False
  show ?thesis
  proof (cases "pi_state i \<in> {2, 3, 4, 5, 6, 8, 9, 99}")
    case True
    with False r obtain v p x where l: "lexer s (lex i) = Some (v, p, x)"
      and k: "parse_token v (i\<lparr>lex := x, pi_p := p\<rparr>) h = Return e j h'" and g: "sane i h"
      by (auto simp: parse_state_def next_token_def Let_def split: if_splits option.splits prod.splits)
    from k assms(4) e have "v \<noteq> LEX_MORE"
      using token_more_state [of "i\<lparr>lex := x, pi_p := p\<rparr>" h e j h'] by auto
    with lexer_progress [OF l] obtain q where q: "p = Some q" by auto
    have "parse_token v (i\<lparr>lex := x, pi_p := Some (q @ t)\<rparr>) h = Return e (j\<lparr>pi_p := Some (q @ t)\<rparr>) h'"
      using parse_token_p [where i = "i\<lparr>lex := x, pi_p := p\<rparr>" and p = "Some (q @ t)"] k by fastforce
    with lexer_append [OF l, of t] q g True False show ?thesis
      by (auto simp: parse_state_def next_token_def Let_def)
  next
    case n: False
    with False assms(4) r have "e = JSON_UNKNOWN_PROBLEM" "j = i" "h' = h" by (auto simp: parse_state_def Let_def)
    with n False assms(4) show ?thesis by (auto simp: parse_state_def Let_def)
  qed
qed

text \<open>A text the first round of the parser does not refuse.\<close>

definition begun :: "json_parsing_info \<Rightarrow> char list \<Rightarrow> store \<Rightarrow> bool" where
  "begun i s h \<longleftrightarrow> (pi_state i = 0 \<longrightarrow> (\<exists>j h'. parse_state i s h = Next j h'))"

lemma parse_loop_error:
  "parse_loop i h = Some (e, j, h') \<Longrightarrow> e \<noteq> JSON_INCOMPLETE_DOCUMENT \<Longrightarrow> e \<noteq> JSON_WAITING_FOR_EOF \<Longrightarrow> pi_p i = Some s \<Longrightarrow>
     begun i s h \<Longrightarrow> \<exists>q. parse_loop (i\<lparr>pi_p := Some (s @ t)\<rparr>) h = Some (e, j\<lparr>pi_p := q\<rparr>, h')"
proof (induction i h arbitrary: s rule: parse_loop.induct)
  case (1 i h)
  note u = parse_loop.simps [of i h] parse_loop.simps [of "i\<lparr>pi_p := Some (s @ t)\<rparr>" h]
  have s: "s \<noteq> []" using 1(2-5) by (auto simp: u split: if_splits)
  show ?case
  proof (cases "parse_state i s h")
    case (Next k h1)
    with 1(2,5) s obtain q where q: "pi_p k = Some q" by (auto simp: u split: if_splits)
    have "pi_state k \<noteq> 0" using parse_state_nonzero [of i s h] Next by simp
    then have "begun k q h1" by (simp add: begun_def)
    with 1(1) [OF 1(5) s Next _ _ 1(3,4) q] 1(2,5) s Next q parse_state_next [OF Next 1(5) q, of t]
    show ?thesis by (simp add: u)
  next
    case (Return e1 k h1)
    with 1(2,5) s have k: "e1 = e" "k = j" "h1 = h'" by (simp_all add: u)
    from Return 1(6) have "pi_state i \<noteq> 0" by (auto simp: begun_def)
    from parse_state_error [OF Return [unfolded k] 1(3,4) this, of t] s show ?thesis
      by (auto simp: u)
  next
    case Stuck
    with 1(2,5) s show ?thesis by (simp add: u)
  qed
qed

lemma parse_fragment_error:
  assumes "json_parse_fragment i s h = Some (e, j, h')" "e \<noteq> JSON_INCOMPLETE_DOCUMENT" "e \<noteq> JSON_WAITING_FOR_EOF"
    "pi_state i = 0 \<Longrightarrow> lex_state (lex i) = 0 \<and> (\<exists>r. s = CHR ''{'' # r)"
  shows "\<exists>q. json_parse_fragment i (s @ t) h = Some (e, j\<lparr>pi_p := q\<rparr>, h')"
proof -
  have "begun (i\<lparr>pi_p := Some s\<rparr>) s h"
    using assms(4)
    by (auto simp: begun_def parse_state_def next_token_def sane_def parse_token_def parse_start_def lex_char_def lex_root_def)
  with parse_loop_error [of "i\<lparr>pi_p := Some s\<rparr>" h e j h' s t] assms show ?thesis
    by (simp add: json_parse_fragment_def)
qed


section \<open>A file is parsed like one text\<close>

lemma parse_state_keeps:
  assumes "parse_state i s h = Return e j h'" "e = JSON_INCOMPLETE_DOCUMENT \<or> e = JSON_WAITING_FOR_EOF"
  shows "pi_state j = pi_state i"
proof -
  have n: "\<not> (pi_state i = 1 \<or> pi_state i = 7)" using parse_open_p(3) [OF _ assms(1)] assms(2) by auto
  with assms obtain v q x where
    k: "parse_token v (i\<lparr>lex := x, pi_p := q\<rparr>) h = Return e j h'"
    and g: "pi_state i \<in> {0, 2, 3, 4, 5, 6, 8, 9, 99}"
    by (auto simp: parse_state_def next_token_def Let_def split: if_splits option.splits prod.splits)
  from token_more [OF k assms(2)] g have "j = i\<lparr>lex := x, pi_p := q\<rparr>" by auto
  then show ?thesis by simp
qed

lemma parse_loop_nonzero:
  "parse_loop i h = Some (e, j, h') \<Longrightarrow> e = JSON_INCOMPLETE_DOCUMENT \<or> e = JSON_WAITING_FOR_EOF \<Longrightarrow>
     pi_state i \<noteq> 0 \<Longrightarrow> pi_state j \<noteq> 0"
proof (induction i h rule: parse_loop.induct)
  case (1 i h)
  obtain s where p: "pi_p i = Some s" using 1(2) by (auto simp: parse_loop.simps [of i h] split: option.splits)
  show ?case
  proof (cases "s = []")
    case True
    with 1(2,4) p show ?thesis by (auto simp: parse_loop.simps [of i h] split: if_splits)
  next
    case False
    show ?thesis
    proof (cases "parse_state i s h")
      case (Next k h1)
      with 1(2) p False obtain q where q: "pi_p k = Some q" by (auto simp: parse_loop.simps [of i h] split: if_splits)
      have "pi_state k \<noteq> 0" using parse_state_nonzero [of i s h] Next by simp
      with 1(1) [OF p False Next _ _ 1(3)] 1(2) p False Next q show ?thesis
        by (simp add: parse_loop.simps [of i h])
    next
      case (Return e1 k h1)
      with 1(2) p False have "e1 = e" "k = j" by (simp_all add: parse_loop.simps [of i h])
      with parse_state_keeps [OF Return] 1(3,4) show ?thesis by simp
    next
      case Stuck
      with 1(2) p False show ?thesis by (simp add: parse_loop.simps [of i h])
    qed
  qed
qed

lemma parse_fragment_nonzero:
  assumes "json_parse_fragment i s h = Some (e, j, h')" "e = JSON_INCOMPLETE_DOCUMENT \<or> e = JSON_WAITING_FOR_EOF"
    "pi_state i = 0 \<Longrightarrow> lex_state (lex i) = 0 \<and> (\<exists>r. s = CHR ''{'' # r)"
  shows "pi_state j \<noteq> 0"
proof (cases "pi_state i = 0")
  case True
  with assms(3) obtain r where r: "s = CHR ''{'' # r" "lex_state (lex i) = 0" by auto
  let ?i = "i\<lparr>pi_p := Some s\<rparr>"
  obtain k h1 where k: "parse_state ?i s h = Next k h1"
    using r True
    by (auto simp: parse_state_def next_token_def sane_def parse_token_def parse_start_def lex_char_def lex_root_def)
  with assms(1) r have "parse_loop k h1 = Some (e, j, h')"
    unfolding json_parse_fragment_def parse_loop.simps [of ?i h] by (auto split: if_splits)
  moreover have "pi_state k \<noteq> 0" using parse_state_nonzero [of ?i s h] k by simp
  ultimately show ?thesis using parse_loop_nonzero [OF _ assms(2)] by blast
next
  case False
  with parse_loop_nonzero [of "i\<lparr>pi_p := Some s\<rparr>" h e j h'] assms(1,2) show ?thesis
    by (simp add: json_parse_fragment_def)
qed

text \<open>What \<open>json_stream_parse\<close> makes of the result of the parser for the whole file.\<close>

definition stream_end :: "json_error \<times> json_parsing_info \<times> store \<Rightarrow> (json_error \<times> addr option \<times> store) option" where
  "stream_end r = (case r of (e, j, h) \<Rightarrow>
     if e = JSON_WAITING_FOR_EOF then Some (JSON_OK, cursor j, h)
     else if e = JSON_INCOMPLETE_DOCUMENT then Some (JSON_UNKNOWN_PROBLEM, None, h)
     else map_option (\<lambda>h1. (e, None, h1)) (json_free_value (cursor j) h))"

lemma fgets_first: "fst (fgets 1024 (c # s)) \<noteq> [] \<and> hd (fst (fgets 1024 (c # s))) = c"
  by (simp add: fgets_def Let_def min_def)

lemma stream_whole:
  assumes "parse_ok i h" "nul_free file"
    "pi_state i = 0 \<Longrightarrow> lex_state (lex i) = 0 \<and> (file = [] \<or> (\<exists>r. file = CHR ''{'' # r))"
  shows "stream_loop (if pi_state i = 99 then JSON_WAITING_FOR_EOF else JSON_INCOMPLETE_DOCUMENT) i file h
    = Option.bind (json_parse_fragment i file h) stream_end"
  using assms
proof (induction "length file" arbitrary: "file" i h rule: less_induct)
  case less
  let ?e = "if pi_state i = 99 then JSON_WAITING_FOR_EOF else JSON_INCOMPLETE_DOCUMENT"
  show ?case
  proof (cases "file = []")
    case True
    then show ?thesis
      by (simp add: stream_loop.simps [of ?e] json_parse_fragment_def parse_loop.simps [of "i\<lparr>pi_p := Some []\<rparr>"] stream_end_def)
  next
    case False
    let ?l = "fst (fgets 1024 file)" and ?r = "snd (fgets 1024 file)"
    have f: "?l @ ?r = file" by (rule fgets_append)
    then have nf: "nul_free ?l" "nul_free ?r" using less(3) by (metis nul_free_append)+
    have s: "lex_state (lex i) = 0 \<and> (\<exists>r. ?l = CHR ''{'' # r)" if "pi_state i = 0"
      using less(4) [OF that] False fgets_first by (metis list.collapse)
    from parse_loop_ok [of "i\<lparr>pi_p := Some ?l\<rparr>" h] less(2) obtain e j h1 where
      r: "json_parse_fragment i ?l h = Some (e, j, h1)" "ok_step (Return e j h1)"
      by (auto simp: json_parse_fragment_def ok_result_def split: option.splits)
    have eo: "e \<noteq> JSON_OK" using r(2) by (auto simp: ok_step_def)
    show ?thesis
    proof (cases "e = JSON_INCOMPLETE_DOCUMENT \<or> e = JSON_WAITING_FOR_EOF")
      case True
      have j: "parse_ok j h1" "e = (if pi_state j = 99 then JSON_WAITING_FOR_EOF else JSON_INCOMPLETE_DOCUMENT)"
        using r(2) True by (auto simp: ok_step_def)
      have z: "pi_state j \<noteq> 0" by (rule parse_fragment_nonzero [OF r(1) True s])
      have w: "json_parse_fragment i file h = json_parse_fragment j ?r h1"
        using parse_loop_append [of "i\<lparr>pi_p := Some ?l\<rparr>" h e j h1 ?l ?r] r(1) True f
        by (simp add: json_parse_fragment_def)
      have "length ?r < length file" using False by (simp add: fgets_shorter)
      with less(1) [of ?r j h1] j(1) nf(2) z have "stream_loop e j ?r h1 = Option.bind (json_parse_fragment j ?r h1) stream_end"
        unfolding j(2) by blast
      moreover have "stream_loop ?e i file h = stream_loop e j ?r h1"
        using False nf(1) r(1) True by (auto simp: stream_loop.simps [of ?e i "file" h] Let_def)
      ultimately show ?thesis by (simp add: w)
    next
      case e: False
      from parse_fragment_error [OF r(1), of ?r] e s f obtain q where
        q: "json_parse_fragment i file h = Some (e, j\<lparr>pi_p := q\<rparr>, h1)" by auto
      have "stream_loop ?e i file h = map_option (\<lambda>h2. (e, None, h2)) (json_free_value (cursor j) h1)"
        using False nf(1) r(1) e eo by (simp add: stream_loop.simps [of ?e i "file" h] Let_def)
      with q e show ?thesis by (simp add: stream_end_def)
    qed
  qed
qed


section \<open>What is left when a file is refused\<close>

lemma token_error:
  assumes "parse_token v i h = Return e j h'" "e \<in> {JSON_MALFORMED_DOCUMENT, JSON_ILLEGAL_CHARACTER, JSON_MEMORY}"
  shows "j = i \<and> h' = h"
proof -
  have a: "add_child t i h k = Return e j h' \<Longrightarrow> (\<And>a i h. k a i h \<noteq> Return e j h') \<Longrightarrow> e = JSON_UNKNOWN_PROBLEM" for t k
    by (auto simp: add_child_def Let_def split: option.splits prod.splits if_splits)
  have c: "close_value k i h = Return e j h' \<Longrightarrow> e = JSON_BAD_TREE_STRUCTURE \<or> k = Return e j h'" for k
    by (auto simp: close_value_def Let_def at_cursor_def split: option.splits json_value_type.splits if_splits)
  have n: "new_label i h \<noteq> Return e j h'" "element t i h \<noteq> Return e j h'" "field_value t i h \<noteq> Return e j h'" for t
    using assms(2) unfolding new_label_def element_def field_value_def
    by (auto dest!: a simp: at_cursor_def split: option.splits)
  show ?thesis
    using assms n unfolding parse_token_def token_defs Let_def
    by (cases v) (auto split: if_splits dest!: c)
qed

definition on_frame :: "json_parsing_info \<Rightarrow> store \<Rightarrow> bool" where
  "on_frame j h \<longleftrightarrow> (\<exists>a t x ls fs. cursor j = Some a \<and> holds_frames h ((a, t, x, ls) # fs))"

lemma parse_state_refused:
  assumes "parse_state i s h = Return e j h'" "e \<noteq> JSON_INCOMPLETE_DOCUMENT" "e \<noteq> JSON_WAITING_FOR_EOF"
    "parse_ok i h" "pi_p i \<noteq> None" "pi_state i \<noteq> 0"
  shows "on_frame j h'"
proof -
  have e: "e \<in> {JSON_MALFORMED_DOCUMENT, JSON_ILLEGAL_CHARACTER, JSON_MEMORY}"
    using parse_state_ok(1) [OF assms(4,5), of s] assms(1-3) by (auto simp: ok_step_def)
  have n: "\<not> (pi_state i = 1 \<or> pi_state i = 7)" using parse_open_p(3) [OF _ assms(1)] e by auto
  obtain fs where fs: "stands (pi_state i) fs i h" "fits (pi_state i) fs" using assms(4) by (auto simp: parse_ok_def)
  then obtain a t x ls gs where f: "fs = (a, t, x, ls) # gs" using n assms(6) by (cases fs) (auto simp: fits_def)
  from assms(1) n e obtain v q x where "parse_token v (i\<lparr>lex := x, pi_p := q\<rparr>) h = Return e j h'"
    by (auto simp: parse_state_def next_token_def Let_def split: if_splits option.splits prod.splits)
  from token_error [OF this e] have "cursor j = cursor i" "h' = h" by auto
  with fs(1) f show ?thesis by (auto simp: on_frame_def stands_def)
qed

lemma parse_loop_refused:
  "parse_loop i h = Some (e, j, h') \<Longrightarrow> e \<noteq> JSON_INCOMPLETE_DOCUMENT \<Longrightarrow> e \<noteq> JSON_WAITING_FOR_EOF \<Longrightarrow> parse_ok i h \<Longrightarrow>
     pi_p i = Some s \<Longrightarrow> begun i s h \<Longrightarrow> on_frame j h'"
proof (induction i h arbitrary: s rule: parse_loop.induct)
  case (1 i h)
  have s: "s \<noteq> []" using 1(2-4,6) by (auto simp: parse_loop.simps [of i h] split: if_splits)
  have p: "pi_p i \<noteq> None" using 1(6) by simp
  note st = parse_state_ok [OF 1(5) p, of s]
  show ?case
  proof (cases "parse_state i s h")
    case (Next k h1)
    with st have k: "parse_ok k h1" "pi_p k \<noteq> None" by (simp_all add: ok_step_def)
    then obtain q where q: "pi_p k = Some q" by auto
    have "pi_state k \<noteq> 0" using parse_state_nonzero [of i s h] Next by simp
    then have "begun k q h1" by (simp add: begun_def)
    with 1(1) [OF 1(6) s Next _ _ 1(3,4) k(1) q] 1(2,6) s Next q show ?thesis
      by (simp add: parse_loop.simps [of i h])
  next
    case (Return e1 k h1)
    with 1(2,6) s have k: "e1 = e" "k = j" "h1 = h'" by (simp_all add: parse_loop.simps [of i h])
    from Return 1(7) have "pi_state i \<noteq> 0" by (auto simp: begun_def)
    from parse_state_refused [OF Return [unfolded k] 1(3-5) p this] show ?thesis .
  next
    case Stuck
    with 1(2,6) s show ?thesis by (simp add: parse_loop.simps [of i h])
  qed
qed

section \<open>Texts have no nul bytes\<close>

lemma blanks_nul_free: "blanks w \<Longrightarrow> nul_free w"
proof -
  have "\<not> is_blank NUL" by (simp add: is_blank_def)
  then show "blanks w \<Longrightarrow> nul_free w" unfolding blanks_def nul_free_def by blast
qed

lemma texts_nul_free:
  "is_value v s1 \<Longrightarrow> nul_free s1" "is_members ms s2 \<Longrightarrow> nul_free s2" "is_member m s3 \<Longrightarrow> nul_free s3"
  "is_elements us s4 \<Longrightarrow> nul_free s4" "is_element u s5 \<Longrightarrow> nul_free s5"
proof (induction rule: is_value_is_members_is_member_is_elements_is_element.inducts)
qed (simp_all, (blast intro: string_body_nul_free is_number_nul_free blanks_nul_free)+)


section \<open>Files and arriving texts\<close>

lemma init_ok: "parse_ok json_jpi_init h"
  by (auto simp: parse_ok_def json_jpi_init_def lex_ok_def stands_def fits_def holds_frames_def intro!: exI [of _ "[]"])

lemma init_sel [simp]: "pi_state json_jpi_init = 0" "lex_state (lex json_jpi_init) = 0"
  by (simp_all add: json_jpi_init_def)

lemma stream_parse_file:
  assumes "nul_free (CHR ''{'' # r)"
  shows "json_stream_parse (CHR ''{'' # r) h = Option.bind (json_parse_fragment json_jpi_init (CHR ''{'' # r) h) stream_end"
  using stream_whole [OF init_ok assms, of h] by (simp add: json_stream_parse_def)

lemma object_text_brace: "is_value (JObject ms) s \<Longrightarrow> \<exists>r. s = CHR ''{'' # r"
  by (erule object_textE) auto

lemma stream_complete:
  assumes "is_value (JObject ms) s" "blanks w"
  shows "\<exists>t h'. json_stream_parse (s @ w) h = Some (JSON_OK, Some (ad t), h') \<and> document h' t \<and> to_json t = JObject ms"
proof -
  obtain r where r: "s = CHR ''{'' # r" using object_text_brace [OF assms(1)] by blast
  have "is_element (JObject ms) ([] @ s @ w)" by (rule element) (use assms in \<open>simp_all add: blanks_def\<close>)
  then have e: "is_element (JObject ms) (s @ w)" by simp
  obtain t j h' where "json_parse_fragment json_jpi_init (s @ w) h = Some (JSON_WAITING_FOR_EOF, j, h')"
    "cursor j = Some (ad t)" "document h' t" "to_json t = JObject ms" using fragment_complete [OF e, of h] by blast
  moreover have "nul_free (CHR ''{'' # r @ w)" using texts_nul_free(5) [OF e] r by simp
  ultimately show ?thesis using stream_parse_file [of "r @ w" h] r by (auto simp: stream_end_def)
qed

text \<open>Looking for a label among the members of an object.\<close>

definition label_is :: "char list \<Rightarrow> member \<Rightarrow> bool" where
  "label_is k m = (case m of Member l v \<Rightarrow> l = k)"

lemma find_label_rep:
  assumes "rep_list (cells h) par prv None ls" "\<forall>l\<in>set ls. wf_label l"
  shows "find_label k (first_ad ls) h = Some (map_option ad (find (\<lambda>l. label_is k (to_member l)) ls))"
  using assms
proof (induction ls arbitrary: prv)
  case Nil
  show ?case by (simp add: find_label.simps)
next
  case (Cons l ls)
  obtain a t x cs where l: "l = ANode a t x cs" by (cases l)
  obtain y where x: "x = Some y" using Cons.prems(2) l by auto
  have "find_label k (first_ad ls) h = Some (map_option ad (find (\<lambda>l. label_is k (to_member l)) ls))"
    by (rule Cons.IH) (use Cons.prems in auto)
  moreover have "cells h a = Some (node t x (first_ad ls) prv par (first_ad cs) (last_ad cs))"
    using Cons.prems(1) l by (cases "ls = []") simp_all
  ultimately show ?case using l x by (simp add: find_label.simps [of k "Some a"] label_is_def)
qed

lemma find_map_option: "find P (map f xs) = map_option f (find (P \<circ> f) xs)"
  by (induction xs) simp_all

lemma rep_list_member:
  "rep_list m par prv nxt ls \<Longrightarrow> l \<in> set ls \<Longrightarrow> \<exists>p n. rep m par p n l"
proof (induction ls arbitrary: prv)
  case (Cons x xs)
  then show ?case by (cases "l = x") auto
qed simp

text \<open>What the entry does with the first member labelled 0.\<close>

fun service_of :: "member option \<Rightarrow> u32 option option" where
  "service_of None = None"
| "service_of (Some (Member k (JNumber n))) = map_option Some (atoi n)"
| "service_of (Some (Member k v)) = Some None"

lemma recv_entry:
  assumes e: "is_element (JObject ms) s" and len: "length s < length data" "take (length s) data = s"
  shows "\<exists>h'. on_json_protocal_recv_entry data (length s) h
    = map_option (\<lambda>v. (data[length s := NUL], v, h')) (service_of (find (label_is ''0'') ms))"
proof -
  obtain t j h' where f: "json_parse_fragment json_jpi_init s h = Some (JSON_WAITING_FOR_EOF, j, h')"
    "cursor j = Some (ad t)" and t: "document h' t" "to_json t = JObject ms" using fragment_complete [OF e, of h] by blast
  then have d: "json_parse_document s h = Some (JSON_OK, Some (ad t), h')" by (simp add: json_parse_document_def)
  have "data[length s := NUL] = take (length s) data @ NUL # drop (Suc (length s)) data"
    using len(1) by (rule upd_conv_take_nth_drop)
  then have c: "c_str (data[length s := NUL]) = s"
    using len(2) texts_nul_free(5) [OF e] by simp
  obtain a x ls where a: "t = ANode a JSON_OBJECT x ls" and ms: "map to_member ls = ms"
    using t(2) by (cases t) (auto split: json_value_type.splits)
  have n: "cells h' a = Some (node JSON_OBJECT x None None None (first_ad ls) (last_ad ls))"
    and r: "rep_list (cells h') (Some a) None None ls" and w: "\<forall>l\<in>set ls. wf_label l"
    using t(1) a by (auto simp: document_def)
  let ?l = "find (\<lambda>l. label_is ''0'' (to_member l)) ls"
  have g: "json_find_first_label a ''0'' h' = Some (map_option ad ?l)"
    using n find_label_rep [OF r w] by (simp add: json_find_first_label_def)
  have m: "find (label_is ''0'') ms = map_option to_member ?l"
    using ms find_map_option [of "label_is ''0''" to_member ls] by (simp add: comp_def)
  note u = on_json_protocal_recv_entry_def
  show ?thesis
  proof (cases ?l)
    case None
    with m g d c len(1) a show ?thesis by (auto simp: u)
  next
    case (Some l)
    then have l: "l \<in> set ls" by (auto simp: find_Some_iff)
    obtain p q where pq: "rep (cells h') (Some a) p q l" using rep_list_member [OF r l] by blast
    obtain b y v where b: "l = ANode b JSON_STRING y [v]"
    proof -
      have "wf_label l" using w l by blast
      then show thesis using that by (cases l) (auto simp: length_Suc_conv)
    qed
    have wv: "wf_value v" using w l b by auto
    have cb: "cells h' b = Some (node JSON_STRING y q p (Some a) (Some (ad v)) (Some (ad v)))"
      and rv: "rep (cells h') (Some b) None None v" using pq b by auto
    obtain vt vx vs where v: "v = ANode (ad v) vt vx vs" by (cases v) auto
    have cv: "cells h' (ad v) = Some (node vt vx None None (Some b) (first_ad vs) (last_ad vs))"
      using rv by (subst (asm) v) simp
    have fm: "find (label_is ''0'') ms = Some (Member (the y) (to_json v))" using m Some b by simp
    show ?thesis
    proof (cases "vt = JSON_NUMBER")
      case True
      then obtain n where vx: "vx = Some n" using wv by (subst (asm) v) auto
      then have "to_json v = JNumber n" using True by (subst v) simp
      with True vx g d c len(1) a Some b cb cv fm show ?thesis by (cases "atoi n") (auto simp: u)
    next
      case False
      then have "service_of (Some (Member (the y) (to_json v))) = Some None"
        by (subst v) (auto split: json_value_type.split)
      with False g d c len(1) a Some b cb cv fm show ?thesis by (auto simp: u)
    qed
  qed
qed


lemma stream_ends:
  assumes "nul_free (CHR ''{'' # r)"
  shows "\<exists>e d h'. json_stream_parse (CHR ''{'' # r) h = Some (e, d, h')
    \<and> (if e = JSON_OK then \<exists>t. d = Some (ad t) \<and> document h' t else d = None)"
proof -
  let ?s = "CHR ''{'' # r" and ?i = "json_jpi_init\<lparr>pi_p := Some (CHR ''{'' # r)\<rparr>"
  have ok: "parse_ok ?i h" using init_ok by simp
  from parse_loop_ok [OF ok] obtain e j h1 where
    f: "parse_loop ?i h = Some (e, j, h1)" "ok_step (Return e j h1)"
    by (auto simp: ok_result_def split: option.splits)
  then have g: "json_parse_fragment json_jpi_init ?s h = Some (e, j, h1)" by (simp add: json_parse_fragment_def)
  note u = stream_parse_file [OF assms, of h]
  consider "e = JSON_WAITING_FOR_EOF" | "e = JSON_INCOMPLETE_DOCUMENT"
    | "e \<noteq> JSON_INCOMPLETE_DOCUMENT" "e \<noteq> JSON_WAITING_FOR_EOF" by blast
  then show ?thesis
  proof cases
    case 1
    with f(2) obtain fs where fs: "stands 99 fs j h1" "nested fs" "fits 99 fs"
      by (auto simp: ok_step_def parse_ok_def)
    then obtain a x ls where s: "fs = [(a, JSON_OBJECT, x, ls)]"
      by (cases fs) (auto simp: fits_def)
    have "document h1 (ANode a JSON_OBJECT x ls)" "cursor j = Some a"
      using fs s by (auto simp: document_def stands_def holds_frames_def open_node_def)
    with u g 1 show ?thesis by (auto simp: stream_end_def intro!: exI [of _ "ANode a JSON_OBJECT x ls"])
  next
    case 2
    with u g show ?thesis by (simp add: stream_end_def)
  next
    case 3
    have "begun ?i ?s h"
      by (auto simp: begun_def parse_state_def next_token_def sane_def parse_token_def parse_start_def lex_char_def lex_root_def)
    from parse_loop_refused [OF f(1) 3 ok _ this] obtain a t x ls fs where
      "cursor j = Some a" "holds_frames h1 ((a, t, x, ls) # fs)" by (auto simp: on_frame_def)
    with free_open obtain h2 where "json_free_value (cursor j) h1 = Some h2" by fastforce
    moreover have "e \<noteq> JSON_OK" using f(2) by (auto simp: ok_step_def)
    ultimately show ?thesis using u g 3 by (simp add: stream_end_def)
  qed
qed





text \<open>
  C27: on every file that starts with an opening brace and holds no nul byte \<open>json_stream_parse\<close> ends, frees
  only nodes that are there, and returns a finished document or, with an error, none.
\<close>

theorem stream_parse_ends:
  assumes "nul_free (CHR ''{'' # r)"
  shows "\<exists>e d h'. json_stream_parse (CHR ''{'' # r) h = Some (e, d, h')
    \<and> (if e = JSON_OK then \<exists>t. d = Some (ad t) \<and> document h' t else d = None)"
  using assms by (rule stream_ends)

theorem stream_parse_ends_witness:
  "\<exists>e d h'. json_stream_parse ''{[}'' \<lparr>cells = \<lambda>_. None, fresh = 0\<rparr> = Some (e, d, h')
    \<and> (if e = JSON_OK then \<exists>t. d = Some (ad t) \<and> document h' t else d = None)"
  by (rule stream_parse_ends) simp

text \<open>
  a file that starts with an array is refused before there is a tree, and then \<open>json_free_value\<close> is
  given the null cursor, which its assertion does not allow.
\<close>

theorem stream_parse_array_aborts: "json_stream_parse (CHR ''['' # s) h = None"
proof -
  let ?f = "CHR ''['' # s"
  obtain l' where "fst (fgets 1024 ?f) = CHR ''['' # l'" using fgets_first [of "CHR ''[''" s] by (metis list.collapse)
  then obtain l where l: "c_str (fst (fgets 1024 ?f)) = CHR ''['' # l" by (simp add: c_str_def)
  have "json_parse_fragment json_jpi_init (CHR ''['' # l) h
    = Some (JSON_MALFORMED_DOCUMENT, json_jpi_init\<lparr>pi_p := Some l\<rparr>, h)"
    by (simp add: json_parse_fragment_def json_jpi_init_def parse_loop.simps parse_state_def next_token_def
        sane_def parse_token_def parse_start_def lex_char_def lex_root_def)
  with l show ?thesis
    by (simp add: json_stream_parse_def stream_loop.simps [of _ _ ?f] json_free_value_def json_jpi_init_def Let_def)
qed

text \<open>
  C28: given a text of an object with a byte of room behind it, \<open>on_json_protocal_recv_entry\<close> overwrites that
  byte and reads the number of the member labelled 0; a member of another kind is passed over, and without
  such a member the function follows a null pointer.
\<close>

theorem recv_entry_service:
  assumes "is_element (JObject ms) s" "length s < length data" "take (length s) data = s"
  shows "\<exists>h'. on_json_protocal_recv_entry data (length s) h
    = map_option (\<lambda>v. (data[length s := NUL], v, h')) (service_of (find (label_is ''0'') ms))"
  using assms by (rule recv_entry)

theorem recv_entry_service_witness:
  "\<exists>h'. on_json_protocal_recv_entry ([CHR ''{'', DQ, CHR ''0'', DQ] @ '':7}x'') 7 \<lparr>cells = \<lambda>_. None, fresh = 0\<rparr>
    = Some ([CHR ''{'', DQ, CHR ''0'', DQ] @ '':7}'' @ [NUL], Some 7, h')"
proof -
  let ?ms = "[Member ''0'' (JNumber ''7'')]" and ?s = "[CHR ''{'', DQ, CHR ''0'', DQ] @ '':7}''"
  have "string_body ''0''" by (rule body_char [OF _ _ _ body_end]) simp_all
  moreover have "is_number ''7''"
    unfolding is_number_def by (rule exI [of _ "[]"], rule exI [of _ "''7''"]) (simp add: is_int_def is_frac_def is_exponent_def is_digit_def digits_def)
  ultimately have "is_value (JObject ?ms) (jprint (JObject ?ms))" by (intro print_is_value(1)) simp
  then have "is_element (JObject ?ms) ([] @ ?s @ [])" by (intro element) (simp_all add: blanks_def)
  then have e: "is_element (JObject ?ms) ?s" by simp
  have n: "atoi ''7'' = Some 7"
    by (simp add: atoi_def c_number_def is_c_space_def leading_digits_def dec_value_def)
  have l: "length ?s = 7" by simp
  from recv_entry_service [OF e, of "?s @ ''x''" "\<lparr>cells = \<lambda>_. None, fresh = 0\<rparr>"] n
  show ?thesis unfolding l by (simp add: label_is_def)
qed

end
