(* ===== verification/JsonSaxy.thy ===== *)
theory JsonSaxy
  imports JsonTree
begin

text \<open>
  The event parser \<open>json_saxy_parse\<close> of \<open>src/ServerEngine/mjson/json.c\<close>, which takes one character
  at a time and calls the functions it is given.  A call is recorded in the log of the status; a
  call of a function that is null, a null buffer that is used and a failed assertion are \<open>None\<close>.
\<close>

section \<open>The data\<close>

text \<open>Which of the functions are there.\<close>

record json_saxy_functions =
  open_object :: bool
  close_object :: bool
  open_array :: bool
  close_array :: bool
  new_string :: bool
  new_number :: bool
  new_true :: bool
  new_false :: bool
  new_null :: bool
  label_value_separator :: bool
  sibling_separator :: bool

datatype event =
  OpenObject | CloseObject | OpenArray | CloseArray | NewString "char list" | NewNumber "char list"
  | NewTrue | NewFalse | NewNull | LabelValueSeparator | SiblingSeparator

record json_saxy_parser_status =
  sx_state :: nat
  limit_reached :: bool
  temp :: "rcstring option"
  sx_log :: "event list"

type_synonym saxy_result = "(json_error \<times> json_saxy_parser_status) option"

text \<open>
  \<open>JSON_MAX_STRING_LENGTH\<close> is \<open>SIZE_MAX-1\<close> without parentheses, so the half of it that
  the states for numbers compare with is \<open>SIZE_MAX - 1 / 2\<close>.
\<close>

definition SIZE_MAX :: nat where "SIZE_MAX = 2 ^ 64 - 1"
definition JSON_MAX_STRING_LENGTH :: nat where "JSON_MAX_STRING_LENGTH = SIZE_MAX - 1"
definition half_limit :: nat where "half_limit = SIZE_MAX - 1 div 2"

section \<open>What the states do\<close>

definition fine :: "json_saxy_parser_status \<Rightarrow> saxy_result" where
  "fine s = Some (JSON_OK, s)"

definition goto :: "nat \<Rightarrow> json_saxy_parser_status \<Rightarrow> json_saxy_parser_status" where
  "goto n s = s\<lparr>sx_state := n\<rparr>"

definition illegal :: "json_saxy_parser_status \<Rightarrow> saxy_result" where
  "illegal s = Some (JSON_ILLEGAL_CHARACTER, s)"

text \<open>A function that is tested and called, and one that is called when another is there.\<close>

definition call :: "bool \<Rightarrow> event \<Rightarrow> json_saxy_parser_status \<Rightarrow> json_saxy_parser_status" where
  "call there e s = (if there then s\<lparr>sx_log := sx_log s @ [e]\<rparr> else s)"

definition call_if :: "bool \<Rightarrow> bool \<Rightarrow> event \<Rightarrow> json_saxy_parser_status \<Rightarrow> json_saxy_parser_status option" where
  "call_if tested there e s = (if tested then if there then Some (call True e s) else None else Some s)"

definition create_temp :: "nat \<Rightarrow> json_saxy_parser_status \<Rightarrow> json_saxy_parser_status" where
  "create_temp n s = s\<lparr>temp := Some (rcs_create n)\<rparr>"

definition catc_temp :: "char \<Rightarrow> json_saxy_parser_status \<Rightarrow> json_saxy_parser_status option" where
  "catc_temp c s = do { t \<leftarrow> temp s; t' \<leftarrow> rcs_catc t c; Some (s\<lparr>temp := Some t'\<rparr>) }"

definition add_char :: "nat \<Rightarrow> char \<Rightarrow> json_saxy_parser_status \<Rightarrow> json_saxy_parser_status option" where
  "add_char n c s =
     (if limit_reached s then Some s
      else do {
        t \<leftarrow> temp s;
        if rcs_length t < n then catc_temp c s else Some (s\<lparr>limit_reached := True\<rparr>) })"

text \<open>The start of a number.\<close>

definition start_temp :: "nat \<Rightarrow> char \<Rightarrow> nat \<Rightarrow> json_saxy_parser_status \<Rightarrow> saxy_result" where
  "start_temp n c k s = do { s1 \<leftarrow> catc_temp c (create_temp k (goto n s)); fine s1 }"

text \<open>The end of a number: \<open>new_number\<close> is called and the buffer freed.\<close>

definition call_number :: "json_saxy_functions \<Rightarrow> json_saxy_parser_status \<Rightarrow> json_saxy_parser_status option" where
  "call_number f s =
     (if new_number f then do { t \<leftarrow> temp s; x \<leftarrow> c_string (rtext t); Some (call True (NewNumber x) s) } else Some s)"

definition end_number ::
  "json_saxy_functions \<Rightarrow> json_saxy_parser_status \<Rightarrow> (json_saxy_parser_status \<Rightarrow> saxy_result) \<Rightarrow> saxy_result" where
  "end_number f s k =
     (if temp s = None then Some (JSON_MEMORY, s) else do { s1 \<leftarrow> call_number f s; k (s1\<lparr>temp := None\<rparr>) })"

text \<open>Where the null test is made only when the function is there.\<close>

definition end_number_late ::
  "json_saxy_functions \<Rightarrow> json_saxy_parser_status \<Rightarrow> (json_saxy_parser_status \<Rightarrow> saxy_result) \<Rightarrow> saxy_result" where
  "end_number_late f s k =
     (if new_number f \<and> temp s = None then Some (JSON_MEMORY, s)
      else do { s1 \<leftarrow> call_number f s; k (s1\<lparr>temp := None\<rparr>) })"

definition is_space_char :: "char \<Rightarrow> bool" where
  "is_space_char c \<longleftrightarrow> c \<in> {CHR 0x20, CHR 0x09, CHR 0x0A, CHR 0x0D}"

definition is_digit_char :: "char \<Rightarrow> bool" where
  "is_digit_char c \<longleftrightarrow> 48 \<le> ord c \<and> ord c \<le> 57"

definition is_hex_char :: "char \<Rightarrow> bool" where
  "is_hex_char c \<longleftrightarrow> is_digit_char c \<or> 97 \<le> ord c \<and> ord c \<le> 102 \<or> 65 \<le> ord c \<and> ord c \<le> 70"

section \<open>The states\<close>

definition saxy_general :: "json_saxy_functions \<Rightarrow> char \<Rightarrow> json_saxy_parser_status \<Rightarrow> saxy_result" where
  "saxy_general f c s =
     (if is_space_char c then fine s
      else if c = CHR 0x22 then fine (goto 1 (s\<lparr>limit_reached := False\<rparr>))
      else if c = CHR ''{'' then fine (goto 25 (call (open_object f) OpenObject s))
      else if c = CHR ''}'' then fine (goto 26 (call (close_object f) CloseObject s))
      else if c = CHR ''['' then fine (call (open_array f) OpenArray s)
      else if c = CHR '']'' then fine (goto 26 (call (close_array f) CloseArray s))
      else if c = CHR ''t'' then fine (goto 7 s)
      else if c = CHR ''f'' then fine (goto 10 s)
      else if c = CHR ''n'' then fine (goto 14 s)
      else if c = CHR '':'' then fine (call (label_value_separator f) LabelValueSeparator s)
      else if c = CHR '','' then fine (goto 27 (call (sibling_separator f) SiblingSeparator s))
      else if c = CHR ''0'' then start_temp 17 c 5 (s\<lparr>limit_reached := False\<rparr>)
      else if is_digit_char c then start_temp 24 c 5 (s\<lparr>limit_reached := False\<rparr>)
      else if c = CHR ''-'' then start_temp 23 c 5 (s\<lparr>limit_reached := False\<rparr>)
      else illegal s)"

text \<open>Inside a string: the end calls \<open>new_string\<close>.\<close>

definition saxy_string :: "json_saxy_functions \<Rightarrow> char \<Rightarrow> json_saxy_parser_status \<Rightarrow> saxy_result" where
  "saxy_string f c s =
     (if c = CHR 0x5C then do { s1 \<leftarrow> add_char (JSON_MAX_STRING_LENGTH - 1) c s; fine (goto 2 s1) }
      else if c = CHR 0x22 then
        (case temp s of
           None \<Rightarrow> Some (JSON_UNKNOWN_PROBLEM, s)
         | Some t \<Rightarrow>
             if new_string f then do { x \<leftarrow> c_string (rtext t); fine ((call True (NewString x) (goto 0 s))\<lparr>temp := None\<rparr>) }
             else fine ((goto 0 s)\<lparr>temp := None\<rparr>))
      else do { s1 \<leftarrow> add_char JSON_MAX_STRING_LENGTH c s; fine s1 })"

text \<open>Behind a backslash; the state is not left but for the letter u.\<close>

definition saxy_escape :: "char \<Rightarrow> json_saxy_parser_status \<Rightarrow> saxy_result" where
  "saxy_escape c s =
     (if c \<in> {CHR 0x22, CHR 0x5C, CHR ''/'', CHR ''b'', CHR ''f'', CHR ''n'', CHR ''r'', CHR ''t''} then
        do { s1 \<leftarrow> add_char JSON_MAX_STRING_LENGTH c s; fine s1 }
      else if c = CHR ''u'' then do { s1 \<leftarrow> add_char (JSON_MAX_STRING_LENGTH - 4) c s; fine (goto 3 s1) }
      else illegal s)"

text \<open>The hexadecimal digits; for the first one a letter u is stored.\<close>

definition saxy_hex :: "nat \<Rightarrow> char \<Rightarrow> json_saxy_parser_status \<Rightarrow> saxy_result" where
  "saxy_hex n c s =
     (if is_hex_char c then do {
        s1 \<leftarrow> add_char (JSON_MAX_STRING_LENGTH - (6 - n)) (if n = 3 then CHR ''u'' else c) s;
        fine (goto (if n = 6 then 1 else n + 1) s1) }
      else illegal s)"

text \<open>The letters of a literal, and the calls at their ends.\<close>

definition saxy_letter :: "char \<Rightarrow> nat \<Rightarrow> bool \<Rightarrow> event \<Rightarrow> char \<Rightarrow> json_saxy_parser_status \<Rightarrow> saxy_result" where
  "saxy_letter l n there e c s = (if c \<noteq> l then illegal s else fine (call there e (goto n s)))"

definition saxy_literal :: "json_saxy_functions \<Rightarrow> nat \<Rightarrow> char \<Rightarrow> json_saxy_parser_status \<Rightarrow> saxy_result" where
  "saxy_literal f n c s =
     (if n = 7 then saxy_letter (CHR ''r'') 8 False NewTrue c s
      else if n = 8 then saxy_letter (CHR ''u'') 9 False NewTrue c s
      else if n = 9 then saxy_letter (CHR ''e'') 0 (new_true f) NewTrue c s
      else if n = 10 then saxy_letter (CHR ''a'') 11 False NewFalse c s
      else if n = 11 then saxy_letter (CHR ''l'') 12 False NewFalse c s
      else if n = 12 then saxy_letter (CHR ''s'') 13 False NewFalse c s
      else if n = 13 then saxy_letter (CHR ''e'') 0 (new_false f) NewFalse c s
      else if n = 14 then saxy_letter (CHR ''u'') 15 False NewNull c s
      else if n = 15 then saxy_letter (CHR ''l'') 16 False NewNull c s
      else saxy_letter (CHR ''l'') 0 (new_null f) NewNull c s)"


text \<open>
  Numbers.  What ends one differs from state to state in the function that is tested before the
  call and in the one that is called at a comma.
\<close>

definition close_number ::
  "json_saxy_functions \<Rightarrow> bool \<Rightarrow> event \<Rightarrow> json_saxy_parser_status \<Rightarrow> saxy_result" where
  "close_number f there e s = do { s1 \<leftarrow> call_if (open_object f) there e s; fine (goto 26 s1) }"

definition saxy_zero :: "json_saxy_functions \<Rightarrow> char \<Rightarrow> json_saxy_parser_status \<Rightarrow> saxy_result" where
  "saxy_zero f c s =
     (if c = CHR ''.'' then do { s1 \<leftarrow> catc_temp c (create_temp 5 s); fine (goto 18 s1) }
      else if is_space_char c then end_number f s (\<lambda>s. fine (goto 0 s))
      else if c = CHR ''}'' then end_number f s (close_number f (close_object f) CloseObject)
      else if c = CHR '']'' then end_number f s (close_number f (close_array f) CloseArray)
      else if c = CHR '','' then end_number f s (\<lambda>s. do {
        s1 \<leftarrow> call_if (open_object f) (label_value_separator f) LabelValueSeparator s; fine (goto 27 s1) })
      else illegal s)"

definition saxy_frac_start :: "char \<Rightarrow> json_saxy_parser_status \<Rightarrow> saxy_result" where
  "saxy_frac_start c s =
     (if is_digit_char c then do { s1 \<leftarrow> add_char half_limit c s; fine (goto 19 s1) } else illegal s)"

definition saxy_frac :: "json_saxy_functions \<Rightarrow> char \<Rightarrow> json_saxy_parser_status \<Rightarrow> saxy_result" where
  "saxy_frac f c s =
     (if is_digit_char c then do { s1 \<leftarrow> add_char half_limit c s; fine s1 }
      else if c = CHR ''e'' \<or> c = CHR ''E'' then do { s1 \<leftarrow> catc_temp c s; fine (goto 20 s1) }
      else if is_space_char c then end_number f s (\<lambda>s. fine (goto 0 s))
      else if c = CHR ''}'' then end_number f s (close_number f (close_object f) CloseObject)
      else if c = CHR '']'' then end_number_late f s (close_number f (close_array f) CloseArray)
      else if c = CHR '','' then
        end_number f s (\<lambda>s. fine (goto 27 (call (label_value_separator f) LabelValueSeparator s)))
      else illegal s)"

definition saxy_exp_start :: "char \<Rightarrow> json_saxy_parser_status \<Rightarrow> saxy_result" where
  "saxy_exp_start c s =
     (if c = CHR ''+'' \<or> c = CHR ''-'' then
        do { s1 \<leftarrow> catc_temp c (s\<lparr>limit_reached := False\<rparr>); fine (goto 22 s1) }
      else if is_digit_char c then do { s1 \<leftarrow> add_char JSON_MAX_STRING_LENGTH c s; fine (goto 21 s1) }
      else illegal s)"

definition saxy_exp :: "json_saxy_functions \<Rightarrow> char \<Rightarrow> json_saxy_parser_status \<Rightarrow> saxy_result" where
  "saxy_exp f c s =
     (if is_digit_char c then do { s1 \<leftarrow> add_char JSON_MAX_STRING_LENGTH c s; fine s1 }
      else if is_space_char c then end_number f s (\<lambda>s. fine (goto 0 s))
      else if c = CHR ''}'' then end_number f s (close_number f (close_object f) CloseObject)
      else if c = CHR '']'' then end_number_late f s (close_number f (close_array f) CloseArray)
      else if c = CHR '','' then
        end_number_late f s (\<lambda>s. fine (goto 27 (call (label_value_separator f) LabelValueSeparator s)))
      else illegal s)"

definition saxy_exp_sign :: "char \<Rightarrow> json_saxy_parser_status \<Rightarrow> saxy_result" where
  "saxy_exp_sign c s =
     (if is_digit_char c then do { s1 \<leftarrow> add_char JSON_MAX_STRING_LENGTH c s; fine (goto 21 s1) } else illegal s)"

text \<open>The flag is set when the first digit has been stored, in a buffer of its own.\<close>

definition saxy_minus :: "char \<Rightarrow> json_saxy_parser_status \<Rightarrow> saxy_result" where
  "saxy_minus c s =
     (if c = CHR ''0'' then do { s1 \<leftarrow> catc_temp c s; fine (goto 17 s1) }
      else if is_digit_char c then do {
        s1 \<leftarrow> (if limit_reached s then Some s
          else do {
            t \<leftarrow> temp s;
            if rcs_length t < half_limit then
              do { s1 \<leftarrow> catc_temp c (create_temp 5 s); Some (s1\<lparr>limit_reached := True\<rparr>) }
            else Some s });
        fine (goto 24 s1) }
      else illegal s)"

text \<open>Every digit gets a buffer of its own.\<close>

definition saxy_int :: "json_saxy_functions \<Rightarrow> char \<Rightarrow> json_saxy_parser_status \<Rightarrow> saxy_result" where
  "saxy_int f c s =
     (if is_digit_char c then do {
        s1 \<leftarrow> (if limit_reached s then Some s
          else do {
            t \<leftarrow> temp s;
            if rcs_length t < half_limit then catc_temp c (create_temp 5 s) else Some (s\<lparr>limit_reached := True\<rparr>) });
        fine s1 }
      else if c = CHR ''.'' then do { s1 \<leftarrow> catc_temp c (create_temp 5 s); fine (goto 18 s1) }
      else if c = CHR ''e'' \<or> c = CHR ''E'' then
        do { s1 \<leftarrow> catc_temp c (create_temp 5 s); fine (goto 20 (s1\<lparr>limit_reached := False\<rparr>)) }
      else if is_space_char c then end_number f s (\<lambda>s. fine (goto 0 s))
      else if c = CHR ''}'' then end_number f s (close_number f (close_object f) CloseObject)
      else if c = CHR '']'' then end_number f s (close_number f (close_array f) CloseArray)
      else if c = CHR '','' then
        end_number f s (\<lambda>s. fine (goto 27 (call (label_value_separator f) LabelValueSeparator s)))
      else illegal s)"

text \<open>Objects and siblings.\<close>

definition saxy_open_object :: "json_saxy_functions \<Rightarrow> char \<Rightarrow> json_saxy_parser_status \<Rightarrow> saxy_result" where
  "saxy_open_object f c s =
     (if is_space_char c then fine s
      else if c = CHR 0x22 then fine (goto 1 (s\<lparr>temp := None\<rparr>))
      else if c = CHR ''}'' then fine (goto 26 (call (close_object f) CloseObject s))
      else illegal s)"

definition saxy_closed :: "json_saxy_functions \<Rightarrow> char \<Rightarrow> json_saxy_parser_status \<Rightarrow> saxy_result" where
  "saxy_closed f c s =
     (if is_space_char c then fine s
      else if c = CHR ''}'' then fine (call (close_object f) CloseObject s)
      else if c = CHR '']'' then fine (call (close_array f) CloseArray s)
      else if c = CHR '','' then fine (goto 27 (call (sibling_separator f) SiblingSeparator s))
      else illegal s)"

definition saxy_sibling :: "json_saxy_functions \<Rightarrow> char \<Rightarrow> json_saxy_parser_status \<Rightarrow> saxy_result" where
  "saxy_sibling f c s =
     (if is_space_char c then fine s
      else if c = CHR 0x22 then fine (goto 1 (s\<lparr>temp := None\<rparr>))
      else if c = CHR ''{'' then fine (goto 25 (call (open_object f) OpenObject s))
      else if c = CHR ''['' then fine (call (open_array f) OpenArray s)
      else if c = CHR ''t'' then fine (goto 7 s)
      else if c = CHR ''f'' then fine (goto 10 s)
      else if c = CHR ''n'' then fine (goto 14 s)
      else if c = CHR ''0'' then start_temp 17 c 5 s
      else if is_digit_char c then start_temp 24 c 5 s
      else if c = CHR ''-'' then start_temp 23 c RSTRING_DEFAULT s
      else illegal s)"

definition json_saxy_parse :: "json_saxy_functions \<Rightarrow> char \<Rightarrow> json_saxy_parser_status \<Rightarrow> saxy_result" where
  "json_saxy_parse f c s =
     (let n = sx_state s in
      if n = 0 then saxy_general f c s
      else if n = 1 then saxy_string f c s
      else if n = 2 then saxy_escape c s
      else if n \<in> {3, 4, 5, 6} then saxy_hex n c s
      else if 7 \<le> n \<and> n \<le> 16 then saxy_literal f n c s
      else if n = 17 then saxy_zero f c s
      else if n = 18 then saxy_frac_start c s
      else if n = 19 then saxy_frac f c s
      else if n = 20 then saxy_exp_start c s
      else if n = 21 then saxy_exp f c s
      else if n = 22 then saxy_exp_sign c s
      else if n = 23 then saxy_minus c s
      else if n = 24 then saxy_int f c s
      else if n = 25 then saxy_open_object f c s
      else if n = 26 then saxy_closed f c s
      else if n = 27 then saxy_sibling f c s
      else Some (JSON_UNKNOWN_PROBLEM, s))"

text \<open>A client that feeds a text and stops at the first error.\<close>

fun saxy_run :: "json_saxy_functions \<Rightarrow> char list \<Rightarrow> json_saxy_parser_status \<Rightarrow> saxy_result" where
  "saxy_run f [] s = fine s"
| "saxy_run f (c # cs) s = do {
     (e, s1) \<leftarrow> json_saxy_parse f c s;
     if e = JSON_OK then saxy_run f cs s1 else Some (e, s1) }"


section \<open>The invariant\<close>

text \<open>There is a buffer in the states for numbers and in no other.\<close>

definition saxy_ok :: "json_saxy_parser_status \<Rightarrow> bool" where
  "saxy_ok s \<longleftrightarrow> sx_state s \<le> 27 \<and>
     (if 17 \<le> sx_state s \<and> sx_state s \<le> 24 then \<exists>t x. temp s = Some t \<and> rcs_holds t x else temp s = None)"

text \<open>The functions that are called when another one is there.\<close>

definition guarded :: "json_saxy_functions \<Rightarrow> bool" where
  "guarded f \<longleftrightarrow> (open_object f \<longrightarrow> close_object f \<and> close_array f \<and> label_value_separator f)"

text \<open>Nothing but calls is added to the log, and never one of \<open>new_string\<close>.\<close>

definition no_string :: "event list \<Rightarrow> bool" where
  "no_string es \<longleftrightarrow> (\<forall>x. NewString x \<notin> set es)"

definition saxy_fine :: "json_saxy_parser_status \<Rightarrow> saxy_result \<Rightarrow> bool" where
  "saxy_fine s r \<longleftrightarrow> (\<exists>e s'. r = Some (e, s') \<and> e \<in> {JSON_OK, JSON_ILLEGAL_CHARACTER, JSON_UNKNOWN_PROBLEM}
     \<and> (e = JSON_OK \<longrightarrow> saxy_ok s') \<and> (no_string (sx_log s) \<longrightarrow> no_string (sx_log s')))"

lemma catc_holds:
  assumes "rcs_holds t x"
  obtains t' where "rcs_catc t c = Some t'" "rcs_holds t' (x @ [c])"
  using rcs.addE [OF assms] by blast

lemma call_sel [simp]: "sx_state (call b e s) = sx_state s" "temp (call b e s) = temp s"
    "limit_reached (call b e s) = limit_reached s" "sx_log (call b e s) = (if b then sx_log s @ [e] else sx_log s)"
  by (simp_all add: call_def)

lemma goto_sel [simp]: "sx_state (goto n s) = n" "temp (goto n s) = temp s" "limit_reached (goto n s) = limit_reached s"
    "sx_log (goto n s) = sx_log s"
  by (simp_all add: goto_def)

lemma create_sel [simp]: "sx_state (create_temp n s) = sx_state s" "temp (create_temp n s) = Some (rcs_create n)"
    "limit_reached (create_temp n s) = limit_reached s" "sx_log (create_temp n s) = sx_log s"
  by (simp_all add: create_temp_def)

lemma no_string_append [simp]: "no_string (es @ [e]) \<longleftrightarrow> no_string es \<and> (\<forall>x. e \<noteq> NewString x)"
  by (auto simp: no_string_def)

lemma fine_fine: "saxy_ok s' \<Longrightarrow> (no_string (sx_log s) \<Longrightarrow> no_string (sx_log s')) \<Longrightarrow> saxy_fine s (fine s')"
  by (simp add: saxy_fine_def fine_def)

lemma fine_illegal [simp]: "saxy_fine s (illegal s)"
  by (simp add: saxy_fine_def illegal_def)

text \<open>The buffer of a number takes a further character.\<close>

lemma add_number:
  assumes "temp s = Some t" "rcs_holds t x"
  shows "\<exists>s1 t1 x1. add_char n c s = Some s1 \<and> temp s1 = Some t1 \<and> rcs_holds t1 x1 \<and> sx_log s1 = sx_log s \<and> sx_state s1 = sx_state s"
    and "\<exists>s1 t1. catc_temp c s = Some s1 \<and> temp s1 = Some t1 \<and> rcs_holds t1 (x @ [c]) \<and> sx_log s1 = sx_log s
      \<and> sx_state s1 = sx_state s \<and> limit_reached s1 = limit_reached s"
proof -
  obtain t' where t': "rcs_catc t c = Some t'" "rcs_holds t' (x @ [c])" using catc_holds [OF assms(2)] .
  then show "\<exists>s1 t1 x1. add_char n c s = Some s1 \<and> temp s1 = Some t1 \<and> rcs_holds t1 x1 \<and> sx_log s1 = sx_log s \<and> sx_state s1 = sx_state s"
    using assms by (auto simp: add_char_def catc_temp_def)
  show "\<exists>s1 t1. catc_temp c s = Some s1 \<and> temp s1 = Some t1 \<and> rcs_holds t1 (x @ [c]) \<and> sx_log s1 = sx_log s
      \<and> sx_state s1 = sx_state s \<and> limit_reached s1 = limit_reached s"
    using t' assms by (auto simp: catc_temp_def)
qed

lemma new_buffer: "\<exists>s1 t1. catc_temp c (create_temp n s) = Some s1 \<and> temp s1 = Some t1 \<and> rcs_holds t1 [c] \<and> sx_log s1 = sx_log s
      \<and> sx_state s1 = sx_state s \<and> limit_reached s1 = limit_reached s"
  using add_number(2) [of "create_temp n s" "rcs_create n" "[]" c] rcs.new_holds by simp

lemma fine_start:
  assumes "n \<in> {17..24}"
  shows "saxy_fine s (start_temp n c k s)" "saxy_fine s (start_temp n c k (s\<lparr>limit_reached := False\<rparr>))"
proof -
  obtain s1 t1 where "catc_temp c (create_temp k (goto n s)) = Some s1" "temp s1 = Some t1" "rcs_holds t1 [c]"
      "sx_log s1 = sx_log s" "sx_state s1 = n" using new_buffer [of c k "goto n s"] by auto
  with assms show "saxy_fine s (start_temp n c k s)"
    by (auto simp: start_temp_def saxy_ok_def intro!: fine_fine)
  obtain s2 t2 where "catc_temp c (create_temp k (goto n (s\<lparr>limit_reached := False\<rparr>))) = Some s2" "temp s2 = Some t2" "rcs_holds t2 [c]"
      "sx_log s2 = sx_log s" "sx_state s2 = n" using new_buffer [of c k "goto n (s\<lparr>limit_reached := False\<rparr>)"] by auto
  with assms show "saxy_fine s (start_temp n c k (s\<lparr>limit_reached := False\<rparr>))"
    by (auto simp: start_temp_def saxy_ok_def intro!: fine_fine)
qed

text \<open>The end of a number.\<close>

lemma end_number_eq:
  assumes "temp s = Some t" "rcs_holds t x"
  shows "end_number f s k = k ((call (new_number f) (NewNumber (c_str x)) s)\<lparr>temp := None\<rparr>)"
    and "end_number_late f s k = k ((call (new_number f) (NewNumber (c_str x)) s)\<lparr>temp := None\<rparr>)"
  using assms rcs.text_holds [OF assms(2)]
  by (simp_all add: end_number_def end_number_late_def call_number_def rcs_unwrap_def call_def)


lemma ok_closed: "sx_state s \<in> {0, 25, 26, 27} \<union> {1..16} \<Longrightarrow> temp s = None \<Longrightarrow> saxy_ok s"
  by (auto simp: saxy_ok_def)

lemma ok_number: "17 \<le> sx_state s \<Longrightarrow> sx_state s \<le> 24 \<Longrightarrow> temp s = Some t \<Longrightarrow> rcs_holds t x \<Longrightarrow> saxy_ok s"
  by (auto simp: saxy_ok_def)

lemma temp_None_sel [simp]: "sx_state (s\<lparr>temp := y\<rparr>) = sx_state s" "sx_log (s\<lparr>temp := y\<rparr>) = sx_log s"
    "temp (s\<lparr>temp := y\<rparr>) = y"
  by simp_all

text \<open>What ends a number leaves a state without a buffer.\<close>

lemma fine_ends:
  assumes "temp s = Some t" "rcs_holds t x" "guarded f"
  shows "n \<in> {0, 27} \<Longrightarrow> saxy_fine s (end_number f s (\<lambda>s. fine (goto n s)))"
    and "saxy_fine s (end_number f s (\<lambda>s. fine (goto 27 (call b LabelValueSeparator s))))"
    and "saxy_fine s (end_number_late f s (\<lambda>s. fine (goto 27 (call b LabelValueSeparator s))))"
    and "saxy_fine s (end_number f s (\<lambda>s. do {
        s1 \<leftarrow> call_if (open_object f) (label_value_separator f) LabelValueSeparator s; fine (goto 27 s1) }))"
    and "saxy_fine s (end_number f s (close_number f (close_object f) CloseObject))"
    and "saxy_fine s (end_number f s (close_number f (close_array f) CloseArray))"
    and "saxy_fine s (end_number_late f s (close_number f (close_array f) CloseArray))"
  unfolding end_number_eq [OF assms(1,2)] close_number_def call_if_def
  using assms(3) by (auto simp: guarded_def intro!: fine_fine ok_closed)

lemma fine_adds:
  assumes "temp s = Some t" "rcs_holds t x" "17 \<le> sx_state s" "sx_state s \<le> 24"
  shows "saxy_fine s (do { s1 \<leftarrow> add_char n c s; fine s1 })"
    and "17 \<le> m \<Longrightarrow> m \<le> 24 \<Longrightarrow> saxy_fine s (do { s1 \<leftarrow> add_char n c s; fine (goto m s1) })"
    and "17 \<le> m \<Longrightarrow> m \<le> 24 \<Longrightarrow> saxy_fine s (do { s1 \<leftarrow> catc_temp c s; fine (goto m s1) })"
    and "17 \<le> m \<Longrightarrow> m \<le> 24 \<Longrightarrow> saxy_fine s (do { s1 \<leftarrow> catc_temp c (s\<lparr>limit_reached := b\<rparr>); fine (goto m s1) })"
proof -
  from add_number(1) [OF assms(1,2), of n c] obtain s1 t1 x1 where 1: "add_char n c s = Some s1" "temp s1 = Some t1"
    "rcs_holds t1 x1" "sx_log s1 = sx_log s" "sx_state s1 = sx_state s" by blast
  show "saxy_fine s (do { s1 \<leftarrow> add_char n c s; fine s1 })"
    using 1 assms(3,4) by (auto intro!: fine_fine intro: ok_number)
  show "17 \<le> m \<Longrightarrow> m \<le> 24 \<Longrightarrow> saxy_fine s (do { s1 \<leftarrow> add_char n c s; fine (goto m s1) })"
    using 1 by (auto intro!: fine_fine intro: ok_number)
  from add_number(2) [OF assms(1,2), of c] obtain s2 t2 where 2: "catc_temp c s = Some s2" "temp s2 = Some t2"
    "rcs_holds t2 (x @ [c])" "sx_log s2 = sx_log s" by blast
  show "17 \<le> m \<Longrightarrow> m \<le> 24 \<Longrightarrow> saxy_fine s (do { s1 \<leftarrow> catc_temp c s; fine (goto m s1) })"
    using 2 by (auto intro!: fine_fine intro: ok_number)
  from add_number(2) [of "s\<lparr>limit_reached := b\<rparr>" t x c] assms(1,2) obtain s3 t3 where
    3: "catc_temp c (s\<lparr>limit_reached := b\<rparr>) = Some s3" "temp s3 = Some t3" "rcs_holds t3 (x @ [c])" "sx_log s3 = sx_log s" by auto
  show "17 \<le> m \<Longrightarrow> m \<le> 24 \<Longrightarrow> saxy_fine s (do { s1 \<leftarrow> catc_temp c (s\<lparr>limit_reached := b\<rparr>); fine (goto m s1) })"
    using 3 by (auto intro!: fine_fine intro: ok_number)
qed

lemma fine_new:
  assumes "17 \<le> m" "m \<le> 24"
  shows "saxy_fine s (do { s1 \<leftarrow> catc_temp c (create_temp n s); fine (goto m s1) })"
    and "saxy_fine s (do { s1 \<leftarrow> catc_temp c (create_temp n s); fine (goto m (s1\<lparr>limit_reached := b\<rparr>)) })"
proof -
  obtain s1 t1 where 1: "catc_temp c (create_temp n s) = Some s1" "temp s1 = Some t1" "rcs_holds t1 [c]"
      "sx_log s1 = sx_log s" using new_buffer [of c n s] by auto
  show "saxy_fine s (do { s1 \<leftarrow> catc_temp c (create_temp n s); fine (goto m s1) })"
    "saxy_fine s (do { s1 \<leftarrow> catc_temp c (create_temp n s); fine (goto m (s1\<lparr>limit_reached := b\<rparr>)) })"
    using 1 assms by (auto intro!: fine_fine intro: ok_number)
qed

text \<open>The digits behind a minus sign and in an integer.\<close>

lemma fine_digits:
  assumes "temp s = Some t" "rcs_holds t x" "sx_state s \<in> {23, 24}"
  shows "saxy_fine s (saxy_minus c s)" "guarded f \<Longrightarrow> sx_state s = 24 \<Longrightarrow> saxy_fine s (saxy_int f c s)"
proof -
  have r: "17 \<le> sx_state s" "sx_state s \<le> 24" using assms(3) by auto
  obtain s1 t1 where 1: "catc_temp c (create_temp 5 s) = Some s1" "temp s1 = Some t1" "rcs_holds t1 [c]"
      "sx_log s1 = sx_log s" "sx_state s1 = sx_state s" using new_buffer [of c 5 s] by auto
  have a: "17 \<le> m \<Longrightarrow> m \<le> 24 \<Longrightarrow> saxy_fine s (fine (goto m s))" for m
    using assms(1,2) by (auto intro!: fine_fine intro: ok_number)
  have b: "17 \<le> m \<Longrightarrow> m \<le> 24 \<Longrightarrow> saxy_fine s (fine (goto m (s1\<lparr>limit_reached := True\<rparr>)))" for m
    using 1 by (auto intro!: fine_fine intro: ok_number)
  show "saxy_fine s (saxy_minus c s)"
    using fine_adds(3) [OF assms(1,2) r, of 17 c] a [of 24] b [of 24] assms(1) 1(1)
    by (auto simp: saxy_minus_def)
  have d: "saxy_fine s (fine s)" "saxy_fine s (fine s1)" "saxy_fine s (fine (s\<lparr>limit_reached := True\<rparr>))"
    using 1 assms(1,2) r by (auto intro!: fine_fine intro: ok_number)
  show "saxy_fine s (saxy_int f c s)" if "guarded f" "sx_state s = 24"
  proof (cases "is_digit_char c")
    case True
    with d assms(1) 1(1) show ?thesis by (simp add: saxy_int_def)
  next
    case False
    with fine_ends [OF assms(1,2) that(1)] fine_new(1) [of 18 s "CHR ''.''" 5] fine_new(2) [of 20 s c 5 False]
    show ?thesis by (simp add: saxy_int_def)
  qed
qed

lemma saxy_at:
  "sx_state s = 0 \<Longrightarrow> json_saxy_parse f c s = saxy_general f c s"
  "sx_state s = 1 \<Longrightarrow> json_saxy_parse f c s = saxy_string f c s"
  "7 \<le> sx_state s \<Longrightarrow> sx_state s \<le> 16 \<Longrightarrow> json_saxy_parse f c s = saxy_literal f (sx_state s) c s"
  "sx_state s = 17 \<Longrightarrow> json_saxy_parse f c s = saxy_zero f c s"
  "sx_state s = 18 \<Longrightarrow> json_saxy_parse f c s = saxy_frac_start c s"
  "sx_state s = 19 \<Longrightarrow> json_saxy_parse f c s = saxy_frac f c s"
  "sx_state s = 20 \<Longrightarrow> json_saxy_parse f c s = saxy_exp_start c s"
  "sx_state s = 21 \<Longrightarrow> json_saxy_parse f c s = saxy_exp f c s"
  "sx_state s = 22 \<Longrightarrow> json_saxy_parse f c s = saxy_exp_sign c s"
  "sx_state s = 23 \<Longrightarrow> json_saxy_parse f c s = saxy_minus c s"
  "sx_state s = 24 \<Longrightarrow> json_saxy_parse f c s = saxy_int f c s"
  "sx_state s = 25 \<Longrightarrow> json_saxy_parse f c s = saxy_open_object f c s"
  "sx_state s = 26 \<Longrightarrow> json_saxy_parse f c s = saxy_closed f c s"
  "sx_state s = 27 \<Longrightarrow> json_saxy_parse f c s = saxy_sibling f c s"
  unfolding json_saxy_parse_def by simp_all

text \<open>One step from every good state that is not inside a string.\<close>

lemma saxy_step_fine:
  assumes ok: "saxy_ok s" and g: "guarded f" and n: "sx_state s \<notin> {1..6}"
  shows "saxy_fine s (json_saxy_parse f c s)"
proof (cases "17 \<le> sx_state s \<and> sx_state s \<le> 24")
  case True
  then obtain t x where t: "temp s = Some t" "rcs_holds t x" using ok by (auto simp: saxy_ok_def)
  have r: "17 \<le> sx_state s" "sx_state s \<le> 24" using True by auto
  note e = fine_ends [OF t g] and a = fine_adds [OF t r]
  have 17: "saxy_fine s (saxy_zero f c s)"
    using e fine_new(1) [of 18 s "CHR ''.''" 5] by (simp add: saxy_zero_def)
  have 18: "saxy_fine s (saxy_frac_start c s)" using a by (simp add: saxy_frac_start_def)
  have 19: "saxy_fine s (saxy_frac f c s)" using e a by (simp add: saxy_frac_def)
  have 20: "saxy_fine s (saxy_exp_start c s)" using a by (simp add: saxy_exp_start_def)
  have 21: "saxy_fine s (saxy_exp f c s)" using e a by (simp add: saxy_exp_def)
  have 22: "saxy_fine s (saxy_exp_sign c s)" using a by (simp add: saxy_exp_sign_def)
  consider "sx_state s = 17" | "sx_state s = 18" | "sx_state s = 19" | "sx_state s = 20" | "sx_state s = 21"
    | "sx_state s = 22" | "sx_state s = 23" | "sx_state s = 24" using r by linarith
  then show ?thesis
    by cases (simp_all add: saxy_at 17 18 19 20 21 22 fine_digits [OF t] g)
next
  case False
  then have t: "temp s = None" and le: "sx_state s \<le> 27" using ok by (simp_all add: saxy_ok_def)
  have go: "saxy_fine s (fine (goto m (call b ev s)))" if "m \<in> {0, 25, 26, 27} \<union> {1..16}" "\<And>x. ev \<noteq> NewString x" for m b ev
    by (rule fine_fine, rule ok_closed) (use t that in simp_all)
  have go': "saxy_fine s (fine (goto m s))" "saxy_fine s (fine (goto m (s\<lparr>limit_reached := b\<rparr>)))"
      "saxy_fine s (fine (goto m (s\<lparr>temp := None\<rparr>)))" if "m \<in> {0, 25, 26, 27} \<union> {1..16}" for m b
    by (rule fine_fine, rule ok_closed; use t that in simp)+
  have stay: "saxy_fine s (fine s)"
    by (rule fine_fine) (use ok in simp_all)
  have log: "saxy_fine s (fine (call b ev s))" if "\<And>x. ev \<noteq> NewString x" for b ev
    by (rule fine_fine; use t le False that in \<open>simp add: saxy_ok_def\<close>)
  have 0: "saxy_fine s (saxy_general f c s)"
    unfolding saxy_general_def by (simp add: go go' stay log fine_start)
  have w: "saxy_fine s (saxy_letter l m b ev c s)" if "m \<in> {0, 25, 26, 27} \<union> {1..16}" "\<And>x. ev \<noteq> NewString x" for l m b ev
  proof -
    have e: "call b ev (goto m s) = goto m (call b ev s)" by (simp add: call_def goto_def)
    show ?thesis unfolding saxy_letter_def e using go [OF that, of b] by simp
  qed
  have 7: "saxy_fine s (saxy_literal f m c s)" for m
    unfolding saxy_literal_def by (simp add: w)
  have 25: "saxy_fine s (saxy_open_object f c s)"
    unfolding saxy_open_object_def by (simp add: go go' stay log)
  have 26: "saxy_fine s (saxy_closed f c s)"
    unfolding saxy_closed_def by (simp add: go go' stay log)
  have 27: "saxy_fine s (saxy_sibling f c s)"
    unfolding saxy_sibling_def by (simp add: go go' stay log fine_start)
  consider "sx_state s = 0" | "7 \<le> sx_state s \<and> sx_state s \<le> 16" | "sx_state s = 25" | "sx_state s = 26" | "sx_state s = 27"
    using le n False by fastforce
  then show ?thesis
    by cases (simp_all add: saxy_at 0 7 25 26 27)
qed


section \<open>Whole texts\<close>

text \<open>
  Inside a string there is no buffer, so that nothing is reported from there: the status has the log it
  came with, and a first character that is to be kept is stored through a null pointer.
\<close>

lemma saxy_string_step:
  assumes "saxy_ok s" "sx_state s \<in> {1..6}" "json_saxy_parse f c s = Some (e, s')"
  shows "saxy_ok s' \<and> sx_log s' = sx_log s"
proof -
  have t: "temp s = None" using assms(1,2) by (auto simp: saxy_ok_def)
  have a: "add_char n d s = Some s1 \<Longrightarrow> s1 = s" for n d s1
    using t by (auto simp: add_char_def split: if_splits)
  have ok: "saxy_ok s" by (rule assms(1))
  have g: "saxy_ok (goto m s)" if "m \<in> {1..6}" for m
    by (rule ok_closed) (use t that in auto)
  note d = saxy_string_def saxy_escape_def saxy_hex_def fine_def illegal_def
  consider "sx_state s = 1" | "sx_state s = 2" | "sx_state s = 3" | "sx_state s = 4" | "sx_state s = 5" | "sx_state s = 6"
    using assms(2) by fastforce
  then show ?thesis
  proof cases
    case 1
    with assms(3) t ok g [of 2] show ?thesis
      by (auto simp: saxy_at d split: if_splits Option.bind_splits dest!: a)
  next
    case 2
    with assms(3) ok g [of 3] show ?thesis
      by (auto simp: json_saxy_parse_def d split: if_splits Option.bind_splits dest!: a)
  next
    case 3
    with assms(3) ok g [of 4] show ?thesis
      by (auto simp: json_saxy_parse_def d split: if_splits Option.bind_splits dest!: a)
  next
    case 4
    with assms(3) ok g [of 5] show ?thesis
      by (auto simp: json_saxy_parse_def d split: if_splits Option.bind_splits dest!: a)
  next
    case 5
    with assms(3) ok g [of 6] show ?thesis
      by (auto simp: json_saxy_parse_def d split: if_splits Option.bind_splits dest!: a)
  next
    case 6
    with assms(3) ok g [of 1] show ?thesis
      by (auto simp: json_saxy_parse_def d split: if_splits Option.bind_splits dest!: a)
  qed
qed

text \<open>What a run keeps.\<close>

lemma saxy_run_keeps:
  "saxy_ok s \<Longrightarrow> guarded f \<Longrightarrow> no_string (sx_log s) \<Longrightarrow> saxy_run f cs s = Some (e, s') \<Longrightarrow>
     no_string (sx_log s') \<and> (e = JSON_OK \<longrightarrow> saxy_ok s')"
proof (induction cs arbitrary: s)
  case Nil
  then show ?case by (simp add: fine_def)
next
  case (Cons c cs)
  obtain e1 s1 where 1: "json_saxy_parse f c s = Some (e1, s1)"
    "(if e1 = JSON_OK then saxy_run f cs s1 else Some (e1, s1)) = Some (e, s')"
    using Cons.prems(4) by (auto split: Option.bind_splits)
  have 2: "no_string (sx_log s1) \<and> (e1 = JSON_OK \<longrightarrow> saxy_ok s1)"
  proof (cases "sx_state s \<in> {1..6}")
    case True
    with saxy_string_step [OF Cons.prems(1) True 1(1)] Cons.prems(3) show ?thesis by simp
  next
    case False
    with saxy_step_fine [OF Cons.prems(1,2) False, of c] 1(1) Cons.prems(3) show ?thesis
      by (auto simp: saxy_fine_def)
  qed
  with 1(2) Cons.IH [of s1] Cons.prems(2) show ?case by (auto split: if_splits)
qed

text \<open>A string is entered at a quote only.\<close>

definition outside :: "saxy_result \<Rightarrow> bool" where
  "outside r \<longleftrightarrow> (\<forall>s'. r = Some (JSON_OK, s') \<longrightarrow> sx_state s' \<notin> {1..6})"

lemma outside_fine: "outside (fine s) \<longleftrightarrow> sx_state s \<notin> {1..6}"
  by (auto simp: outside_def fine_def)

lemma outside_error: "outside (illegal s)" "e \<noteq> JSON_OK \<Longrightarrow> outside (Some (e, s))"
  by (simp_all add: outside_def illegal_def)

lemma outside_bind: "(\<And>x. m = Some x \<Longrightarrow> outside (k x)) \<Longrightarrow> outside (Option.bind m k)"
  by (cases m) (simp_all add: outside_def)

lemma catc_state: "catc_temp c s = Some s1 \<Longrightarrow> sx_state s1 = sx_state s"
  by (auto simp: catc_temp_def split: Option.bind_splits)

lemma add_state: "add_char n c s = Some s1 \<Longrightarrow> sx_state s1 = sx_state s"
  by (auto simp: add_char_def catc_state split: if_splits Option.bind_splits)

lemma outside_goto:
  "n \<notin> {1..6} \<Longrightarrow> outside (Option.bind m (\<lambda>s. fine (goto n s)))"
  "n \<notin> {1..6} \<Longrightarrow> outside (Option.bind m (\<lambda>s. fine (goto n (s\<lparr>limit_reached := b\<rparr>))))"
  by (auto intro!: outside_bind simp: outside_fine)

lemma digit_state:
  "(if limit_reached s then Some s
    else do { t \<leftarrow> temp s; if rcs_length t < n then catc_temp c (create_temp k s) else Some (s\<lparr>limit_reached := True\<rparr>) })
   = Some s1 \<Longrightarrow> sx_state s1 = sx_state s"
  by (auto dest: catc_state split: if_splits Option.bind_splits)

lemma outside_end: "(\<And>s. outside (k s)) \<Longrightarrow> outside (end_number f s k)" "(\<And>s. outside (k s)) \<Longrightarrow> outside (end_number_late f s k)"
  by (auto simp: end_number_def end_number_late_def intro!: outside_bind outside_error)

lemma outside_start: "n \<notin> {1..6} \<Longrightarrow> outside (start_temp n c k s)"
  unfolding start_temp_def by (rule outside_bind) (auto simp: outside_fine dest: catc_state)

lemma outside_close: "outside (close_number f b ev s)"
  unfolding close_number_def by (rule outside_bind) (simp add: outside_fine)

lemmas outside_rules = outside_fine outside_error outside_end outside_start outside_close

lemma outside_numbers:
  assumes "sx_state s \<in> {17..24}"
  shows "outside (saxy_zero f c s)" "outside (saxy_frac_start c s)" "outside (saxy_frac f c s)" "outside (saxy_exp_start c s)"
    "outside (saxy_exp f c s)" "outside (saxy_exp_sign c s)" "outside (saxy_minus c s)" "outside (saxy_int f c s)"
proof -
  have f: "outside (fine s)" using assms by (simp add: outside_fine)
  note d = outside_rules
  show "outside (saxy_zero f c s)"
    unfolding saxy_zero_def using assms by (auto intro!: outside_bind outside_end simp: d)
  show "outside (saxy_frac_start c s)"
    unfolding saxy_frac_start_def by (auto intro!: outside_bind simp: d)
  show "outside (saxy_frac f c s)"
    unfolding saxy_frac_def using assms by (auto intro!: outside_bind simp: d dest: add_state)
  show "outside (saxy_exp_start c s)"
    unfolding saxy_exp_start_def by (auto intro!: outside_bind simp: d)
  show "outside (saxy_exp f c s)"
    unfolding saxy_exp_def using assms by (auto intro!: outside_bind simp: d dest: add_state)
  show "outside (saxy_exp_sign c s)"
    unfolding saxy_exp_sign_def by (auto intro!: outside_bind simp: d)
  show "outside (saxy_minus c s)"
    unfolding saxy_minus_def by (auto intro!: outside_bind simp: d)
  show "outside (saxy_int f c s)"
  proof (cases "is_digit_char c")
    case True
    show ?thesis unfolding saxy_int_def if_P [OF True]
      by (rule outside_bind, drule digit_state) (use f in \<open>simp add: outside_fine\<close>)
  next
    case False
    then show ?thesis unfolding saxy_int_def by (simp add: d outside_goto)
  qed
qed

lemma outside_step:
  assumes "sx_state s \<notin> {1..6}" "c \<noteq> DQ"
  shows "outside (json_saxy_parse f c s)"
proof -
  have n: "sx_state s \<noteq> n" if "n \<in> {1..6}" for n using assms(1) that by auto
  have l: "outside (saxy_literal f m c s)" for m
    unfolding saxy_literal_def saxy_letter_def by (simp add: outside_rules)
  have 0: "outside (saxy_general f c s)" "outside (saxy_open_object f c s)" "outside (saxy_closed f c s)" "outside (saxy_sibling f c s)"
    unfolding saxy_general_def saxy_open_object_def saxy_closed_def saxy_sibling_def
    using assms by (simp_all add: outside_rules)
  show ?thesis
    unfolding json_saxy_parse_def Let_def
    using n [of 1] n [of 2] n [of 3] n [of 4] n [of 5] n [of 6] by (simp add: l 0 outside_numbers outside_error)
qed

lemma saxy_run_outside:
  "saxy_ok s \<Longrightarrow> guarded f \<Longrightarrow> sx_state s \<notin> {1..6} \<Longrightarrow> DQ \<notin> set cs \<Longrightarrow>
   \<exists>e s'. saxy_run f cs s = Some (e, s') \<and> e \<in> {JSON_OK, JSON_ILLEGAL_CHARACTER, JSON_UNKNOWN_PROBLEM}
     \<and> (e = JSON_OK \<longrightarrow> saxy_ok s' \<and> sx_state s' \<notin> {1..6})"
proof (induction cs arbitrary: s)
  case Nil
  then show ?case by (simp add: fine_def)
next
  case (Cons c cs)
  obtain e s1 where 1: "json_saxy_parse f c s = Some (e, s1)" "e \<in> {JSON_OK, JSON_ILLEGAL_CHARACTER, JSON_UNKNOWN_PROBLEM}"
    "e = JSON_OK \<longrightarrow> saxy_ok s1" using saxy_step_fine [OF Cons.prems(1-3), of c] by (auto simp: saxy_fine_def)
  have "e = JSON_OK \<longrightarrow> sx_state s1 \<notin> {1..6}"
    using outside_step [OF Cons.prems(3), of c f] 1(1) Cons.prems(4) by (auto simp: outside_def)
  with 1 Cons.IH [of s1] Cons.prems(2,4) show ?case by (cases "e = JSON_OK") auto
qed

text \<open>The digits of an integer: the buffer holds the last one.\<close>

lemma saxy_digit:
  assumes "sx_state s = 24" "\<not> limit_reached s" "temp s = Some t" "rcs_holds t [d]" "is_digit_char c"
  shows "\<exists>s' t'. json_saxy_parse f c s = Some (JSON_OK, s') \<and> sx_state s' = 24 \<and> \<not> limit_reached s' \<and> temp s' = Some t'
    \<and> rcs_holds t' [c] \<and> sx_log s' = sx_log s"
proof -
  have "rcs_length t < half_limit"
    using assms(4) by (simp add: rcs_holds_def rcs_length_def half_limit_def SIZE_MAX_def)
  with new_buffer [of c 5 s] assms show ?thesis
    by (auto simp: saxy_at saxy_int_def fine_def)
qed

lemma saxy_digits:
  assumes "sx_state s = 24" "\<not> limit_reached s" "temp s = Some t" "rcs_holds t [d]" "\<forall>c\<in>set ds. is_digit_char c"
  shows "\<exists>s' t'. saxy_run f (ds @ r) s = saxy_run f r s' \<and> sx_state s' = 24 \<and> temp s' = Some t' \<and> rcs_holds t' [last (d # ds)]
    \<and> sx_log s' = sx_log s"
  using assms
proof (induction ds arbitrary: s t d)
  case Nil
  then show ?case by auto
next
  case (Cons c ds)
  obtain s1 t1 where 1: "json_saxy_parse f c s = Some (JSON_OK, s1)" "sx_state s1 = 24" "\<not> limit_reached s1"
    "temp s1 = Some t1" "rcs_holds t1 [c]" "sx_log s1 = sx_log s"
    using saxy_digit [OF Cons.prems(1-4), of c f] Cons.prems(5) by auto
  from Cons.IH [OF 1(2-5)] Cons.prems(5) 1 show ?case by auto
qed


section \<open>Properties\<close>

definition saxy_init :: json_saxy_parser_status where
  "saxy_init = \<lparr>sx_state = 0, limit_reached = False, temp = None, sx_log = []\<rparr>"

lemma saxy_init_ok [simp]: "saxy_ok saxy_init" "sx_log saxy_init = []"
  by (simp_all add: saxy_init_def saxy_ok_def)

definition all_functions :: json_saxy_functions where
  "all_functions = \<lparr>open_object = True, close_object = True, open_array = True, close_array = True, new_string = True,
     new_number = True, new_true = True, new_false = True, new_null = True, label_value_separator = True, sibling_separator = True\<rparr>"



text \<open>
  C36: no text makes the event parser call \<open>new_string\<close>: behind an opening quote a closing one is an error, as
  there is no buffer, and every other character is stored through the null pointer.
\<close>

theorem saxy_no_strings:
  assumes "guarded f"
  shows "(saxy_run f cs saxy_init = Some (e, s') \<longrightarrow> NewString x \<notin> set (sx_log s'))
    \<and> saxy_run f [DQ, DQ] saxy_init = Some (JSON_UNKNOWN_PROBLEM, saxy_init\<lparr>sx_state := 1\<rparr>)
    \<and> (c \<noteq> DQ \<longrightarrow> saxy_run f [DQ, c] saxy_init = None)"
proof -
  have "no_string (sx_log saxy_init)" by (simp add: no_string_def)
  with saxy_run_keeps [OF saxy_init_ok(1) assms] have "saxy_run f cs saxy_init = Some (e, s') \<longrightarrow> NewString x \<notin> set (sx_log s')"
    by (auto simp: no_string_def)
  moreover have q: "json_saxy_parse f DQ saxy_init = Some (JSON_OK, saxy_init\<lparr>sx_state := 1\<rparr>)"
    by (simp add: saxy_at saxy_init_def saxy_general_def is_space_char_def goto_def fine_def)
  moreover have "json_saxy_parse f DQ (saxy_init\<lparr>sx_state := 1\<rparr>) = Some (JSON_UNKNOWN_PROBLEM, saxy_init\<lparr>sx_state := 1\<rparr>)"
    by (simp add: saxy_at saxy_init_def saxy_string_def)
  moreover have "json_saxy_parse f c (saxy_init\<lparr>sx_state := 1\<rparr>) = None" if "c \<noteq> DQ"
    using that by (simp add: saxy_at saxy_init_def saxy_string_def add_char_def)
  ultimately show ?thesis by simp
qed

theorem saxy_no_strings_witness:
  "saxy_run all_functions [DQ, DQ] saxy_init = Some (JSON_UNKNOWN_PROBLEM, saxy_init\<lparr>sx_state := 1\<rparr>)
    \<and> saxy_run all_functions [DQ, CHR ''a''] saxy_init = None"
  using saxy_no_strings [of all_functions "[]" JSON_OK saxy_init "[]" "CHR ''a''"] by (simp add: guarded_def all_functions_def)

text \<open>
  of an integer of several digits the event parser reports the last digit only, as every digit is stored
  in a buffer of its own.
\<close>

theorem saxy_last_digit:
  assumes "sx_state s = 0" "is_digit_char d" "d \<noteq> CHR ''0''" "\<forall>c\<in>set ds. is_digit_char c" "new_number f"
  shows "\<exists>s'. saxy_run f (d # ds @ '' '') s = Some (JSON_OK, s') \<and> sx_log s' = sx_log s @ [NewNumber [last (d # ds)]]"
proof -
  let ?s = "s\<lparr>limit_reached := False\<rparr>"
  obtain s1 t1 where 1: "catc_temp d (create_temp 5 (goto 24 ?s)) = Some s1" "temp s1 = Some t1" "rcs_holds t1 [d]"
    "sx_log s1 = sx_log s" "sx_state s1 = 24" "\<not> limit_reached s1"
    using new_buffer [of d 5 "goto 24 ?s"] by auto
  have n: "\<not> is_space_char d" "d \<notin> {DQ, CHR ''{'', CHR ''}'', CHR ''['', CHR '']'', CHR ''t'', CHR ''f'', CHR ''n'', CHR '':'', CHR '',''}"
    using assms(2) by (auto simp: is_space_char_def is_digit_char_def)
  have p: "json_saxy_parse f d s = Some (JSON_OK, s1)"
    using n assms(1-3) 1(1) by (simp add: saxy_at saxy_general_def start_temp_def fine_def)
  obtain s2 t2 where 2: "saxy_run f (ds @ '' '') s1 = saxy_run f '' '' s2" "sx_state s2 = 24" "temp s2 = Some t2"
    "rcs_holds t2 [last (d # ds)]" "sx_log s2 = sx_log s1"
    using saxy_digits [OF 1(5,6,2,3) assms(4), of f "'' ''"] by auto
  have l: "last (d # ds) \<noteq> NUL" using assms(2,4) last_in_set [of "d # ds"] by (auto simp: is_digit_char_def simp del: last_in_set)
  have "\<exists>s'. json_saxy_parse f (CHR '' '') s2 = Some (JSON_OK, s') \<and> sx_log s' = sx_log s @ [NewNumber [last (d # ds)]]"
    using 2(2,5) 1(4) assms(5) l
    by (simp add: saxy_at saxy_int_def is_digit_char_def is_space_char_def end_number_eq [OF 2(3,4)] fine_def c_str_def)
  with p 2(1) show ?thesis by (auto simp: fine_def)
qed

theorem saxy_last_digit_witness:
  "\<exists>s'. saxy_run all_functions ''4096 '' saxy_init = Some (JSON_OK, s') \<and> sx_log s' = [NewNumber ''6'']"
  using saxy_last_digit [of saxy_init "CHR ''4''" "''096''" all_functions]
  by (simp add: saxy_init_def is_digit_char_def all_functions_def)

end
