(* ===== verification/DataBuffer.thy ===== *)
theory DataBuffer
  imports Prelude
begin

text \<open>
  The buffer pools of \<open>src/Common/DataBuffer.h\<close> and \<open>DataBuffer.cpp\<close>: \<open>CDataBuffer\<close>,
  \<open>CBufferManager\<close> with its doubly linked lists of used and free buffers, and \<open>CBufferAllocator\<close>
  that picks the pool for a size.  Buffers live in a store, pointers are addresses; \<open>None\<close> is a
  failed assertion or an access through a null or dangling pointer.  What runs between the lock and
  the unlock of the mutex is one step.  The invariant relates a manager to the lists of its used and
  free buffers, and every operation is shown to do on them what a pool should do.
\<close>

section \<open>The data\<close>

type_synonym addr = nat

record data_buffer =
  m_pPrev :: "addr option"
  m_pNext :: "addr option"
  m_dwRefCount :: "32 word"
  m_nBufSize :: u32
  m_Buffer :: "char list"
  m_nDataLen :: u32

record buffer_manager =
  m_pUsedList :: "addr option"
  m_pFreeList :: "addr option"
  m_dwBufferCount :: u32
  m_EnablePool :: bool
  nodes :: "addr \<Rightarrow> data_buffer option"
  fresh :: addr

definition HEADER_LEN :: nat where "HEADER_LEN = 28"

text \<open>The constructor; the bytes of the buffer are whatever the memory held.\<close>

definition CDataBuffer :: "nat \<Rightarrow> (nat \<Rightarrow> char) \<Rightarrow> data_buffer" where
  "CDataBuffer SIZE junk = \<lparr>m_pPrev = None, m_pNext = None, m_dwRefCount = 0, m_nBufSize = of_nat SIZE,
     m_Buffer = map junk [0..<SIZE], m_nDataLen = 0\<rparr>"

definition CBufferManager :: buffer_manager where
  "CBufferManager = \<lparr>m_pUsedList = None, m_pFreeList = None, m_dwBufferCount = 0, m_EnablePool = True,
     nodes = (\<lambda>_. None), fresh = 0\<rparr>"

definition SetEnablePool :: "bool \<Rightarrow> buffer_manager \<Rightarrow> buffer_manager" where
  "SetEnablePool b M = M\<lparr>m_EnablePool := b\<rparr>"

definition modify :: "addr \<Rightarrow> (data_buffer \<Rightarrow> data_buffer) \<Rightarrow> buffer_manager \<Rightarrow> buffer_manager option" where
  "modify a f M = (case nodes M a of None \<Rightarrow> None | Some n \<Rightarrow> Some (M\<lparr>nodes := (nodes M)(a \<mapsto> f n)\<rparr>))"

section \<open>The operations of a manager\<close>

text \<open>A new buffer, or the first of the free list taken off it.\<close>

definition take_free :: "nat \<Rightarrow> (nat \<Rightarrow> char) \<Rightarrow> buffer_manager \<Rightarrow> (addr \<times> buffer_manager) option" where
  "take_free SIZE junk M =
     (case m_pFreeList M of
        None \<Rightarrow> Some (fresh M, M\<lparr>nodes := (nodes M)(fresh M \<mapsto> CDataBuffer SIZE junk), fresh := fresh M + 1\<rparr>)
      | Some a \<Rightarrow> do {
          n \<leftarrow> nodes M a;
          let M1 = M\<lparr>m_pFreeList := m_pNext n\<rparr>;
          M2 \<leftarrow> (case m_pNext n of None \<Rightarrow> Some M1 | Some b \<Rightarrow> modify b (m_pPrev_update (\<lambda>_. None)) M1);
          M3 \<leftarrow> modify a (\<lambda>n. n\<lparr>m_pNext := None, m_pPrev := None\<rparr>) M2;
          Some (a, M3) })"

definition push_used :: "addr \<Rightarrow> buffer_manager \<Rightarrow> buffer_manager option" where
  "push_used a M =
     (case m_pUsedList M of
        None \<Rightarrow> Some (M\<lparr>m_pUsedList := Some a\<rparr>)
      | Some u \<Rightarrow> do {
          M1 \<leftarrow> modify a (m_pNext_update (\<lambda>_. Some u)) M;
          M2 \<leftarrow> modify u (m_pPrev_update (\<lambda>_. Some a)) M1;
          M3 \<leftarrow> modify a (m_pPrev_update (\<lambda>_. None)) M2;
          Some (M3\<lparr>m_pUsedList := Some a\<rparr>) })"

definition AllocDataBuff :: "nat \<Rightarrow> (nat \<Rightarrow> char) \<Rightarrow> buffer_manager \<Rightarrow> (addr \<times> buffer_manager) option" where
  "AllocDataBuff SIZE junk M = do {
     (a, M1) \<leftarrow> take_free SIZE junk M;
     n \<leftarrow> nodes M1 a;
     if m_dwRefCount n \<noteq> 0 then None else do {
       M2 \<leftarrow> modify a (m_dwRefCount_update (\<lambda>_. 1)) M1;
       M3 \<leftarrow> push_used a M2;
       Some (a, M3\<lparr>m_dwBufferCount := m_dwBufferCount M3 + 1\<rparr>) } }"

definition AddRef :: "addr \<Rightarrow> buffer_manager \<Rightarrow> buffer_manager option" where
  "AddRef a M = modify a (m_dwRefCount_update (\<lambda>r. r + 1)) M"

text \<open>The test of the count in front of the lock, with the assertion.\<close>

definition release_check :: "addr \<Rightarrow> buffer_manager \<Rightarrow> bool" where
  "release_check a M = (case nodes M a of None \<Rightarrow> False | Some n \<Rightarrow> 0 <s m_dwRefCount n)"

definition unlink_used :: "addr \<Rightarrow> buffer_manager \<Rightarrow> buffer_manager option" where
  "unlink_used a M = do {
     n \<leftarrow> nodes M a;
     if m_pUsedList M = Some a then
       let M1 = M\<lparr>m_pUsedList := m_pNext n\<rparr> in
       (case m_pNext n of None \<Rightarrow> Some M1 | Some u \<Rightarrow> modify u (m_pPrev_update (\<lambda>_. None)) M1)
     else do {
       p \<leftarrow> m_pPrev n;
       M1 \<leftarrow> modify p (m_pNext_update (\<lambda>_. m_pNext n)) M;
       (case m_pNext n of None \<Rightarrow> Some M1 | Some x \<Rightarrow> modify x (m_pPrev_update (\<lambda>_. Some p)) M1) } }"

definition push_free :: "addr \<Rightarrow> buffer_manager \<Rightarrow> buffer_manager option" where
  "push_free a M = do {
     M1 \<leftarrow> modify a (\<lambda>n. n\<lparr>m_pNext := m_pFreeList M, m_pPrev := None\<rparr>) M;
     let M2 = M1\<lparr>m_pFreeList := Some a\<rparr>;
     (case m_pFreeList M of None \<Rightarrow> Some M2 | Some x \<Rightarrow> modify x (m_pPrev_update (\<lambda>_. Some a)) M2) }"

text \<open>What runs under the lock.\<close>

definition release_locked :: "addr \<Rightarrow> buffer_manager \<Rightarrow> buffer_manager option" where
  "release_locked a M = do {
     M1 \<leftarrow> modify a (m_dwRefCount_update (\<lambda>r. r - 1)) M;
     n \<leftarrow> nodes M1 a;
     if m_dwRefCount n \<le>s 0 then do {
       M2 \<leftarrow> modify a (m_nDataLen_update (\<lambda>_. 0)) M1;
       M3 \<leftarrow> unlink_used a M2;
       M4 \<leftarrow> (if m_EnablePool M3 then push_free a M3 else Some (M3\<lparr>nodes := (nodes M3)(a := None)\<rparr>));
       Some (M4\<lparr>m_dwBufferCount := m_dwBufferCount M4 - 1\<rparr>) }
     else Some M1 }"

definition ReleaseDataBuff :: "addr \<Rightarrow> buffer_manager \<Rightarrow> buffer_manager option" where
  "ReleaseDataBuff a M = (if release_check a M then release_locked a M else None)"

text \<open>The destructor frees both lists.\<close>

partial_function (option) delete_list :: "addr option \<Rightarrow> (addr \<Rightarrow> data_buffer option) \<Rightarrow> (addr \<Rightarrow> data_buffer option) option" where
  "delete_list p m =
     (case p of
        None \<Rightarrow> Some m
      | Some a \<Rightarrow> do { n \<leftarrow> m a; delete_list (m_pNext n) (m(a := None)) })"

definition ReleaseAll :: "buffer_manager \<Rightarrow> buffer_manager option" where
  "ReleaseAll M = do {
     m1 \<leftarrow> delete_list (m_pFreeList M) (nodes M);
     m2 \<leftarrow> delete_list (m_pUsedList M) m1;
     Some (M\<lparr>nodes := m2\<rparr>) }"

section \<open>The operations of a buffer\<close>

definition GetBodyLenth :: "data_buffer \<Rightarrow> u32" where
  "GetBodyLenth b = m_nDataLen b - of_nat HEADER_LEN"

definition GetData :: "data_buffer \<Rightarrow> char list" where
  "GetData b = drop HEADER_LEN (m_Buffer b)"

definition SetTotalLenth :: "u32 \<Rightarrow> data_buffer \<Rightarrow> data_buffer" where
  "SetTotalLenth n b = b\<lparr>m_nDataLen := n\<rparr>"

text \<open>\<open>memcpy\<close> of \<open>n\<close> bytes of \<open>src\<close> to offset \<open>i\<close> of a block; \<open>None\<close> when it leaves one of them.\<close>

definition memcpy :: "char list \<Rightarrow> nat \<Rightarrow> char list \<Rightarrow> nat \<Rightarrow> char list option" where
  "memcpy dst i src n =
     (if i + n \<le> length dst \<and> n \<le> length src then Some (take i dst @ take n src @ drop (i + n) dst) else None)"

definition CopyFrom :: "data_buffer \<Rightarrow> data_buffer \<Rightarrow> (u32 \<times> data_buffer) option" where
  "CopyFrom src b = do {
     m \<leftarrow> memcpy (m_Buffer b) 0 (m_Buffer src) (unat (m_nDataLen src));
     Some (m_nDataLen src, b\<lparr>m_Buffer := m, m_nDataLen := m_nDataLen src\<rparr>) }"

definition CopyTo :: "data_buffer \<Rightarrow> char list \<Rightarrow> u32 \<Rightarrow> (u32 \<times> char list) option" where
  "CopyTo b dest n =
     (if n < m_nDataLen b then Some (0, dest)
      else do { d \<leftarrow> memcpy dest 0 (m_Buffer b) (unat (m_nDataLen b)); Some (n, d) })"

section \<open>Doubly linked lists\<close>

text \<open>
  From the pointer \<open>p\<close>, with the predecessor \<open>pv\<close>, the buffers \<open>as\<close> are linked one behind the other;
  behind the last one the pointer is \<open>q\<close>, and \<open>l\<close> is the last one.
\<close>

fun dseg :: "(addr \<Rightarrow> data_buffer option) \<Rightarrow> addr option \<Rightarrow> addr option \<Rightarrow> addr list \<Rightarrow> addr option \<Rightarrow> addr option \<Rightarrow> bool" where
  "dseg m p pv [] q l \<longleftrightarrow> p = q \<and> pv = l"
| "dseg m p pv (a # as) q l \<longleftrightarrow> p = Some a \<and>
     (case m a of None \<Rightarrow> False | Some n \<Rightarrow> m_pPrev n = pv \<and> dseg m (m_pNext n) (Some a) as q l)"

definition dll :: "(addr \<Rightarrow> data_buffer option) \<Rightarrow> addr option \<Rightarrow> addr list \<Rightarrow> bool" where
  "dll m p as \<longleftrightarrow> (\<exists>l. dseg m p None as None l)"

lemma dseg_append: "dseg m p pv (xs @ ys) q l \<longleftrightarrow> (\<exists>r t. dseg m p pv xs r t \<and> dseg m r t ys q l)"
  by (induction xs arbitrary: p pv) (auto split: option.splits)

text \<open>Only the two pointers of the buffers matter.\<close>

lemma dseg_cong:
  "(\<And>a. a \<in> set as \<Longrightarrow> map_option (\<lambda>n. (m_pPrev n, m_pNext n)) (m a) = map_option (\<lambda>n. (m_pPrev n, m_pNext n)) (m' a))
    \<Longrightarrow> dseg m p pv as q l = dseg m' p pv as q l"
proof (induction as arbitrary: p pv)
  case (Cons a as)
  have "dseg m p pv as q l = dseg m' p pv as q l" for p pv by (rule Cons.IH) (rule Cons.prems, simp)
  with Cons.prems [of a] show ?case by (cases "m a"; cases "m' a") auto
qed simp

lemma dseg_upd [simp]: "b \<notin> set as \<Longrightarrow> dseg (m(b := v)) p pv as q l = dseg m p pv as q l"
  by (rule dseg_cong) auto

lemma dll_upd [simp]: "b \<notin> set as \<Longrightarrow> dll (m(b := v)) p as = dll m p as"
  by (simp add: dll_def)

lemma dll_data:
  assumes "m b = Some n" "m_pPrev n' = m_pPrev n" "m_pNext n' = m_pNext n"
  shows "dll (m(b \<mapsto> n')) p as = dll m p as"
  using dseg_cong [of as "m(b \<mapsto> n')" m] assms by (auto simp: dll_def)

lemma dll_Nil [simp]: "dll m p [] \<longleftrightarrow> p = None"
  by (auto simp: dll_def)

lemma dll_head: "dll m p as \<Longrightarrow> p = (case as of [] \<Rightarrow> None | a # _ \<Rightarrow> Some a)"
  by (cases as) (auto simp: dll_def)

lemma dll_mem: "dll m p as \<Longrightarrow> a \<in> set as \<Longrightarrow> m a \<noteq> None"
proof -
  have "dseg m p pv as q l \<Longrightarrow> a \<in> set as \<Longrightarrow> m a \<noteq> None" for pv q l
    by (induction as arbitrary: p pv) (auto split: option.splits)
  then show "dll m p as \<Longrightarrow> a \<in> set as \<Longrightarrow> m a \<noteq> None" by (auto simp: dll_def)
qed

text \<open>Linking a buffer in front of a list.\<close>

lemma dll_push:
  assumes "dll m p as" "a \<notin> set as" "distinct as"
  shows "dll ((case p of None \<Rightarrow> m | Some x \<Rightarrow> m(x \<mapsto> (the (m x))\<lparr>m_pPrev := Some a\<rparr>))(a \<mapsto> n\<lparr>m_pNext := p, m_pPrev := None\<rparr>))
    (Some a) (a # as)"
proof (cases as)
  case Nil
  with assms show ?thesis by (simp add: dll_def)
next
  case (Cons x xs)
  from assms(1) Cons obtain nx l where x: "p = Some x" "m x = Some nx" "dseg m (m_pNext nx) (Some x) xs None l"
    by (auto simp: dll_def split: option.splits)
  with assms(2,3) Cons show ?thesis by (auto simp: dll_def intro!: exI [of _ l])
qed

text \<open>Taking the first one off, and one in the middle.\<close>

lemma dll_pop:
  assumes "dll m p (a # as)" "distinct (a # as)"
  shows "\<exists>n. p = Some a \<and> m a = Some n
    \<and> dll (case m_pNext n of None \<Rightarrow> m | Some x \<Rightarrow> m(x \<mapsto> (the (m x))\<lparr>m_pPrev := None\<rparr>)) (m_pNext n) as"
proof -
  from assms(1) obtain n l where n: "p = Some a" "m a = Some n" "dseg m (m_pNext n) (Some a) as None l"
    by (auto simp: dll_def split: option.splits)
  have "dll (case m_pNext n of None \<Rightarrow> m | Some x \<Rightarrow> m(x \<mapsto> (the (m x))\<lparr>m_pPrev := None\<rparr>)) (m_pNext n) as"
  proof (cases as)
    case (Cons x xs)
    with n obtain nx where "m_pNext n = Some x" "m x = Some nx" "dseg m (m_pNext nx) (Some x) xs None l"
      by (auto split: option.splits)
    with assms(2) Cons show ?thesis by (auto simp: dll_def intro!: exI [of _ l])
  qed (use n in simp)
  with n show ?thesis by blast
qed

lemma dll_unlink:
  assumes "dll m p (xs @ b # a # ys)" "distinct (xs @ b # a # ys)"
  shows "\<exists>nb n. m b = Some nb \<and> m a = Some n \<and> m_pPrev n = Some b
    \<and> dll (let m1 = m(b \<mapsto> nb\<lparr>m_pNext := m_pNext n\<rparr>) in
          case m_pNext n of None \<Rightarrow> m1 | Some x \<Rightarrow> m1(x \<mapsto> (the (m1 x))\<lparr>m_pPrev := Some b\<rparr>)) p (xs @ b # ys)"
proof -
  from assms(1) obtain r t nb n l where
    xs: "dseg m p None xs (Some b) t" and b: "m b = Some nb" "m_pPrev nb = t" "m_pNext nb = Some a"
    and a: "m a = Some n" "m_pPrev n = Some b" and ys: "dseg m (m_pNext n) (Some a) ys None l"
    by (auto simp: dll_def dseg_append split: option.splits)
  let ?m1 = "m(b \<mapsto> nb\<lparr>m_pNext := m_pNext n\<rparr>)"
  have "dll (case m_pNext n of None \<Rightarrow> ?m1 | Some x \<Rightarrow> ?m1(x \<mapsto> (the (?m1 x))\<lparr>m_pPrev := Some b\<rparr>)) p (xs @ b # ys)"
  proof (cases ys)
    case Nil
    with xs b ys assms(2) show ?thesis
      by (auto simp: dll_def dseg_append intro!: exI [of _ "Some b"] exI [of _ t])
  next
    case (Cons x zs)
    with ys obtain nx where x: "m_pNext n = Some x" "m x = Some nx" "dseg m (m_pNext nx) (Some x) zs None l"
      by (auto split: option.splits)
    let ?m = "?m1(x \<mapsto> nx\<lparr>m_pPrev := Some b\<rparr>)"
    have "dseg ?m p None xs (Some b) t \<and> dseg ?m (Some b) t (b # ys) None l"
      using xs b x assms(2) Cons by auto
    then have "dll ?m p (xs @ b # ys)" unfolding dll_def dseg_append by blast
    then show ?thesis using x(1,2) assms(2) Cons by simp
  qed
  with b a show ?thesis by (auto simp: Let_def)
qed


section \<open>The invariant\<close>

text \<open>A buffer without its links.\<close>

definition data :: "data_buffer \<Rightarrow> data_buffer" where
  "data n = n\<lparr>m_pPrev := None, m_pNext := None\<rparr>"

definition data_of :: "buffer_manager \<Rightarrow> addr \<Rightarrow> data_buffer option" where
  "data_of M a = map_option data (nodes M a)"

definition sized :: "nat \<Rightarrow> data_buffer \<Rightarrow> bool" where
  "sized SIZE n \<longleftrightarrow> length (m_Buffer n) = SIZE \<and> m_nBufSize n = of_nat SIZE"

definition used_buffer :: "nat \<Rightarrow> data_buffer \<Rightarrow> bool" where
  "used_buffer SIZE n \<longleftrightarrow> sized SIZE n \<and> 0 <s m_dwRefCount n"

definition free_buffer :: "nat \<Rightarrow> data_buffer \<Rightarrow> bool" where
  "free_buffer SIZE n \<longleftrightarrow> sized SIZE n \<and> m_dwRefCount n = 0 \<and> m_nDataLen n = 0"

definition linked :: "buffer_manager \<Rightarrow> addr list \<Rightarrow> addr list \<Rightarrow> bool" where
  "linked M used free \<longleftrightarrow> dll (nodes M) (m_pUsedList M) used \<and> dll (nodes M) (m_pFreeList M) free"

text \<open>
  The manager holds the lists of the used and the free buffers: both are linked properly and share no
  buffer, used buffers have a positive count, free ones none and no data, the counter counts the used
  ones, every buffer has the size of its pool, and there are no others: no buffer is lost.
\<close>

definition pool_ok :: "nat \<Rightarrow> buffer_manager \<Rightarrow> addr list \<Rightarrow> addr list \<Rightarrow> bool" where
  "pool_ok SIZE M used free \<longleftrightarrow> linked M used free \<and> distinct (used @ free) \<and> (\<forall>a\<in>set (used @ free). a < fresh M)
     \<and> (\<forall>a\<in>set used. \<exists>n. data_of M a = Some n \<and> used_buffer SIZE n)
     \<and> (\<forall>a\<in>set free. \<exists>n. data_of M a = Some n \<and> free_buffer SIZE n)
     \<and> m_dwBufferCount M = of_nat (length used) \<and> (\<not> m_EnablePool M \<longrightarrow> free = [])
     \<and> (\<forall>a. a \<notin> set (used @ free) \<longrightarrow> data_of M a = None)"

lemma data_simps [simp]:
  "m_dwRefCount (data n) = m_dwRefCount n" "m_nBufSize (data n) = m_nBufSize n" "m_Buffer (data n) = m_Buffer n"
  "m_nDataLen (data n) = m_nDataLen n" "data (n\<lparr>m_pPrev := p\<rparr>) = data n" "data (n\<lparr>m_pNext := q\<rparr>) = data n"
  "sized SIZE (data n) = sized SIZE n" "used_buffer SIZE (data n) = used_buffer SIZE n"
  "free_buffer SIZE (data n) = free_buffer SIZE n"
  by (simp_all add: data_def sized_def used_buffer_def free_buffer_def)

lemma pool_ok_new: "pool_ok SIZE CBufferManager [] []" "pool_ok SIZE (SetEnablePool False CBufferManager) [] []"
  by (simp_all add: pool_ok_def linked_def data_of_def CBufferManager_def SetEnablePool_def)

lemma modify_Some: "nodes M a = Some n \<Longrightarrow> modify a f M = Some (M\<lparr>nodes := (nodes M)(a \<mapsto> f n)\<rparr>)"
  by (simp add: modify_def)

lemma dll_first: "dll m (Some x) as \<Longrightarrow> \<exists>n xs. as = x # xs \<and> m x = Some n"
  by (cases as) (auto simp: dll_def split: option.splits)

text \<open>A buffer that hangs in neither list.\<close>

definition loose :: "nat \<Rightarrow> buffer_manager \<Rightarrow> addr \<Rightarrow> addr list \<Rightarrow> addr list \<Rightarrow> bool" where
  "loose SIZE M a used free \<longleftrightarrow> linked M used free \<and> distinct (a # used @ free) \<and> (\<forall>x\<in>set (a # used @ free). x < fresh M)
     \<and> (\<forall>x\<in>set used. \<exists>n. data_of M x = Some n \<and> used_buffer SIZE n)
     \<and> (\<forall>x\<in>set free. \<exists>n. data_of M x = Some n \<and> free_buffer SIZE n)
     \<and> (\<not> m_EnablePool M \<longrightarrow> free = []) \<and> nodes M a \<noteq> None
     \<and> (\<forall>x. x \<notin> set (a # used @ free) \<longrightarrow> data_of M x = None)"

lemma take_free_ok:
  assumes "pool_ok SIZE M used free"
  shows "\<exists>a M1 free' n. take_free SIZE junk M = Some (a, M1) \<and> loose SIZE M1 a used free'
    \<and> (free = a # free' \<or> free = [] \<and> free' = [] \<and> a = fresh M) \<and> nodes M1 a = Some n \<and> free_buffer SIZE n
    \<and> m_pPrev n = None \<and> m_pNext n = None
    \<and> (\<forall>b. b \<noteq> a \<longrightarrow> data_of M1 b = data_of M b) \<and> m_dwBufferCount M1 = m_dwBufferCount M"
proof -
  have l: "dll (nodes M) (m_pUsedList M) used" "dll (nodes M) (m_pFreeList M) free" "distinct (used @ free)"
    "\<forall>a\<in>set (used @ free). a < fresh M"
    using assms by (auto simp: pool_ok_def linked_def)
  show ?thesis
  proof (cases free)
    case Nil
    let ?M = "M\<lparr>nodes := (nodes M)(fresh M \<mapsto> CDataBuffer SIZE junk), fresh := fresh M + 1\<rparr>"
    have f: "m_pFreeList M = None" using l(2) Nil by simp
    have "fresh M \<notin> set used" using l(4) by auto
    with assms Nil have "loose SIZE ?M (fresh M) used []"
      by (auto simp: loose_def pool_ok_def linked_def data_of_def)
    moreover have "free_buffer SIZE (CDataBuffer SIZE junk)"
      by (simp add: free_buffer_def sized_def CDataBuffer_def)
    ultimately show ?thesis using Nil f
      by (intro exI [of _ "fresh M"] exI [of _ ?M] exI [of _ "[]"] exI [of _ "CDataBuffer SIZE junk"])
        (simp add: take_free_def data_of_def CDataBuffer_def)
  next
    case (Cons a free')
    let ?m = "nodes M"
    obtain n where n: "m_pFreeList M = Some a" "?m a = Some n"
      "dll (case m_pNext n of None \<Rightarrow> ?m | Some x \<Rightarrow> ?m(x \<mapsto> (the (?m x))\<lparr>m_pPrev := None\<rparr>)) (m_pNext n) free'"
      using dll_pop [of ?m _ a free'] l(2,3) Cons by auto
    let ?m1 = "case m_pNext n of None \<Rightarrow> ?m | Some x \<Rightarrow> ?m(x \<mapsto> (the (?m x))\<lparr>m_pPrev := None\<rparr>)"
    let ?m2 = "?m1(a \<mapsto> n\<lparr>m_pNext := None, m_pPrev := None\<rparr>)"
    let ?M = "M\<lparr>m_pFreeList := m_pNext n, nodes := ?m2\<rparr>"
    have nx: "x \<in> set free' \<and> ?m x \<noteq> None \<and> x \<noteq> a \<and> x \<notin> set used" if "m_pNext n = Some x" for x
    proof -
      from n(3) that dll_first [of _ x free'] have "x \<in> set free'" by fastforce
      with l(2,3) Cons show ?thesis by (auto dest: dll_mem)
    qed
    have t: "take_free SIZE junk M = Some (a, ?M)"
      using n(1,2) nx by (cases "m_pNext n") (auto simp: take_free_def modify_def split: option.splits)
    have d: "data_of ?M b = data_of M b" for b
      using n(2) nx by (auto simp: data_of_def split: option.split)
    have u: "dll ?m2 (m_pUsedList M) used" using l(1,3) nx Cons by (auto split: option.split)
    have f: "dll ?m2 (m_pNext n) free'" using n(3) l(3) Cons by simp
    have fb: "free_buffer SIZE n" using assms Cons n(2) by (auto simp: pool_ok_def data_of_def)
    have "loose SIZE ?M a used free'"
      unfolding loose_def linked_def d using assms Cons u f by (auto simp: pool_ok_def)
    with t d fb Cons show ?thesis
      by (intro exI [of _ a] exI [of _ ?M] exI [of _ free'] exI [of _ "n\<lparr>m_pNext := None, m_pPrev := None\<rparr>"])
        (simp add: free_buffer_def sized_def)
  qed
qed


lemma dll_ptr: "dll m p as \<Longrightarrow> p = None \<and> as = [] \<or> (\<exists>x xs n. p = Some x \<and> as = x # xs \<and> m x = Some n)"
  by (cases as) (auto simp: dll_def split: option.splits)

lemma push_used_ok:
  assumes "loose SIZE M a used free" "nodes M a = Some n" "m_pPrev n = None" "m_pNext n = None"
  shows "\<exists>M1. push_used a M = Some M1 \<and> linked M1 (a # used) free \<and> (\<forall>b. data_of M1 b = data_of M b)
    \<and> fresh M1 = fresh M \<and> m_EnablePool M1 = m_EnablePool M \<and> m_dwBufferCount M1 = m_dwBufferCount M"
proof -
  let ?m = "nodes M" and ?p = "m_pUsedList M"
  have l: "dll ?m ?p used" "dll ?m (m_pFreeList M) free" "distinct (a # used @ free)"
    using assms(1) by (auto simp: loose_def linked_def)
  let ?m1 = "(case ?p of None \<Rightarrow> ?m | Some x \<Rightarrow> ?m(x \<mapsto> (the (?m x))\<lparr>m_pPrev := Some a\<rparr>))(a \<mapsto> n\<lparr>m_pNext := ?p, m_pPrev := None\<rparr>)"
  let ?M = "M\<lparr>nodes := ?m1, m_pUsedList := Some a\<rparr>"
  have u: "dll ?m1 (Some a) (a # used)" using dll_push [OF l(1)] l(3) by auto
  have px: "x \<in> set used \<and> ?m x \<noteq> None \<and> x \<noteq> a \<and> x \<notin> set free" if "?p = Some x" for x
    using dll_ptr [OF l(1)] l(3) that by auto
  have f: "dll ?m1 (m_pFreeList M) free" using l(2,3) px by (auto split: option.split)
  have d: "data_of ?M b = data_of M b" for b
    using assms(2) px by (auto simp: data_of_def split: option.split)
  have "push_used a M = Some ?M"
  proof (cases ?p)
    case None
    have "n\<lparr>m_pNext := None, m_pPrev := None\<rparr> = n" using assms(3,4) by simp
    then have "?m1 = ?m" using assms(2) None by (simp add: fun_upd_idem)
    then show ?thesis using None by (simp add: push_used_def)
  next
    case (Some u)
    with px obtain nu where "?m u = Some nu" "u \<noteq> a" by auto
    with Some assms(2,3) show ?thesis by (simp add: push_used_def modify_def fun_upd_twist)
  qed
  with u f d show ?thesis by (intro exI [of _ ?M]) (simp add: linked_def)
qed

text \<open>Allocation: the buffer comes from the free list or is new, and goes to the front of the used ones.\<close>

lemma alloc_ok:
  assumes "pool_ok SIZE M used free"
  shows "\<exists>a M' free'. AllocDataBuff SIZE junk M = Some (a, M') \<and> pool_ok SIZE M' (a # used) free'
    \<and> (free = a # free' \<or> free = [] \<and> free' = [] \<and> a = fresh M)
    \<and> (\<exists>n. nodes M' a = Some n \<and> sized SIZE n \<and> m_dwRefCount n = 1 \<and> m_nDataLen n = 0)
    \<and> (\<forall>b. b \<noteq> a \<longrightarrow> data_of M' b = data_of M b)"
proof -
  obtain a M1 free' n where t: "take_free SIZE junk M = Some (a, M1)" "loose SIZE M1 a used free'"
    "free = a # free' \<or> free = [] \<and> free' = [] \<and> a = fresh M" "nodes M1 a = Some n" "free_buffer SIZE n"
    "m_pPrev n = None" "m_pNext n = None"
    "\<forall>b. b \<noteq> a \<longrightarrow> data_of M1 b = data_of M b" "m_dwBufferCount M1 = m_dwBufferCount M"
    using take_free_ok [OF assms, of junk] by blast
  let ?n = "n\<lparr>m_dwRefCount := 1\<rparr>"
  let ?M2 = "M1\<lparr>nodes := (nodes M1)(a \<mapsto> ?n)\<rparr>"
  have d2: "data_of ?M2 b = (if b = a then Some (data ?n) else data_of M1 b)" for b by (simp add: data_of_def)
  have "loose SIZE ?M2 a used free'"
    using t(2,4) unfolding loose_def linked_def d2 by (auto simp: dll_data)
  from push_used_ok [OF this, of ?n] t(6,7) obtain M3 where
    p: "push_used a ?M2 = Some M3" "linked M3 (a # used) free'" "\<forall>b. data_of M3 b = data_of ?M2 b"
      "fresh M3 = fresh M1" "m_EnablePool M3 = m_EnablePool M1" "m_dwBufferCount M3 = m_dwBufferCount M1"
    by auto
  let ?M = "M3\<lparr>m_dwBufferCount := m_dwBufferCount M3 + 1\<rparr>"
  have r: "AllocDataBuff SIZE junk M = Some (a, ?M)"
    using t(1,4,5) p(1) by (simp add: AllocDataBuff_def modify_def free_buffer_def)
  have d: "data_of ?M b = (if b = a then Some (data ?n) else data_of M1 b)" for b
    using p(3) d2 by (simp add: data_of_def)
  have nb: "used_buffer SIZE (data ?n)" using t(5) by (simp add: used_buffer_def free_buffer_def sized_def word_sless_alt)
  have "linked ?M (a # used) free'" using p(2) by (simp add: linked_def)
  then have "pool_ok SIZE ?M (a # used) free'"
    unfolding pool_ok_def d using t(2,9) p(4-6) assms nb
    by (auto simp: loose_def pool_ok_def)
  moreover have "\<exists>n. nodes ?M a = Some n \<and> sized SIZE n \<and> m_dwRefCount n = 1 \<and> m_nDataLen n = 0"
  proof -
    from d [of a] obtain k where k: "nodes M3 a = Some k" "data k = data ?n" by (auto simp: data_of_def)
    have "sized SIZE k \<and> m_dwRefCount k = 1 \<and> m_nDataLen k = 0"
      using arg_cong [OF k(2), of "sized SIZE"] arg_cong [OF k(2), of m_dwRefCount] arg_cong [OF k(2), of m_nDataLen] t(5)
      by (simp add: free_buffer_def sized_def)
    with k(1) show ?thesis by simp
  qed
  moreover have "\<forall>b. b \<noteq> a \<longrightarrow> data_of ?M b = data_of M b" using d t(8) by simp
  ultimately show ?thesis using r t(3) by blast
qed

lemma addref_ok:
  assumes "pool_ok SIZE M used free" "a \<in> set used" "nodes M a = Some n" "sint (m_dwRefCount n) < 2 ^ 31 - 1"
  shows "\<exists>M'. AddRef a M = Some M' \<and> pool_ok SIZE M' used free
    \<and> nodes M' = (nodes M)(a \<mapsto> n\<lparr>m_dwRefCount := m_dwRefCount n + 1\<rparr>)"
proof -
  let ?n = "n\<lparr>m_dwRefCount := m_dwRefCount n + 1\<rparr>"
  let ?M = "M\<lparr>nodes := (nodes M)(a \<mapsto> ?n)\<rparr>"
  have d: "data_of ?M b = (if b = a then Some (data ?n) else data_of M b)" for b by (simp add: data_of_def)
  have n: "used_buffer SIZE n" using assms(1-3) by (auto simp: pool_ok_def data_of_def)
  then have s: "0 < sint (m_dwRefCount n)" by (simp add: used_buffer_def word_sless_alt)
  then have "sint (m_dwRefCount n + 1) = sint (m_dwRefCount n) + 1"
    using assms(4) by (simp add: sint_word_ariths signed_take_bit_int_eq_self)
  with s n have "used_buffer SIZE (data ?n)" by (simp add: used_buffer_def sized_def word_sless_alt)
  moreover have "linked ?M used free" using assms(1,3) by (auto simp: pool_ok_def linked_def dll_data)
  moreover have "a \<notin> set free" using assms(1,2) by (auto simp: pool_ok_def)
  ultimately have "pool_ok SIZE ?M used free"
    using assms(1,2) unfolding pool_ok_def d by auto
  moreover have "AddRef a M = Some ?M" using assms(3) by (cases n) (simp add: AddRef_def modify_def)
  ultimately show ?thesis by simp
qed


text \<open>Taking a buffer off the used list.\<close>

lemma unlink_used_ok:
  assumes l: "linked M used free" "distinct (used @ free)" "a \<in> set used"
  shows "\<exists>M1. unlink_used a M = Some M1 \<and> linked M1 (remove1 a used) free \<and> (\<forall>b. data_of M1 b = data_of M b)
    \<and> fresh M1 = fresh M \<and> m_EnablePool M1 = m_EnablePool M \<and> m_dwBufferCount M1 = m_dwBufferCount M
    \<and> m_pFreeList M1 = m_pFreeList M"
proof -
  let ?m = "nodes M"
  have d: "dll ?m (m_pUsedList M) used" "dll ?m (m_pFreeList M) free" using l(1) by (auto simp: linked_def)
  obtain xs ys where u: "used = xs @ a # ys" using l(3) by (auto simp: in_set_conv_decomp)
  have nxs: "a \<notin> set xs" using u l(2) by auto
  then have r: "remove1 a used = xs @ ys" using u by (simp add: remove1_append)
  show ?thesis
  proof (cases xs rule: rev_cases)
    case Nil
    obtain n where n: "m_pUsedList M = Some a" "?m a = Some n"
      "dll (case m_pNext n of None \<Rightarrow> ?m | Some x \<Rightarrow> ?m(x \<mapsto> (the (?m x))\<lparr>m_pPrev := None\<rparr>)) (m_pNext n) ys"
      using dll_pop [of ?m _ a ys] d(1) l(2) u Nil by auto
    let ?m1 = "case m_pNext n of None \<Rightarrow> ?m | Some x \<Rightarrow> ?m(x \<mapsto> (the (?m x))\<lparr>m_pPrev := None\<rparr>)"
    let ?M = "M\<lparr>m_pUsedList := m_pNext n, nodes := ?m1\<rparr>"
    have nx: "?m x \<noteq> None \<and> x \<notin> set free" if "m_pNext n = Some x" for x
    proof -
      from n(3) that dll_first [of _ x ys] have "x \<in> set ys" by fastforce
      with d(1) l(2) u Nil show ?thesis by (auto dest: dll_mem)
    qed
    have "unlink_used a M = Some ?M"
      using n(1,2) nx by (cases "m_pNext n") (auto simp: unlink_used_def modify_def split: option.splits)
    moreover have "dll ?m1 (m_pFreeList M) free" using d(2) nx by (auto split: option.split)
    moreover have "data_of ?M b = data_of M b" for b using nx by (auto simp: data_of_def split: option.split)
    ultimately show ?thesis using n(3) r Nil by (intro exI [of _ ?M]) (simp add: linked_def)
  next
    case (snoc ws b)
    have u': "used = ws @ b # a # ys" using u snoc by simp
    let ?w = "\<lambda>nb n. let m1 = ?m(b \<mapsto> nb\<lparr>m_pNext := m_pNext n\<rparr>) in
          case m_pNext n of None \<Rightarrow> m1 | Some x \<Rightarrow> m1(x \<mapsto> (the (m1 x))\<lparr>m_pPrev := Some b\<rparr>)"
    obtain nb n where n: "?m b = Some nb" "?m a = Some n" "m_pPrev n = Some b" "dll (?w nb n) (m_pUsedList M) (ws @ b # ys)"
      using dll_unlink [of ?m "m_pUsedList M" ws b a ys] d(1) l(2) u' by auto
    let ?M = "M\<lparr>nodes := ?w nb n\<rparr>"
    have na: "m_pUsedList M \<noteq> Some a" using dll_ptr [OF d(1)] u' l(2) by (cases ws) auto
    have nx: "?m x \<noteq> None \<and> x \<notin> set free \<and> x \<noteq> b" if "m_pNext n = Some x" for x
    proof -
      obtain l where "dseg ?m (m_pNext n) (Some a) ys None l"
        using d(1) n(2) u' by (auto simp: dll_def dseg_append split: option.splits)
      with that have "x \<in> set ys" by (cases ys) (auto split: option.splits)
      with d(1) l(2) u' show ?thesis by (auto dest: dll_mem)
    qed
    have "unlink_used a M = Some ?M"
    proof (cases "m_pNext n")
      case None
      with n na show ?thesis by (simp add: unlink_used_def modify_def)
    next
      case (Some x)
      with nx obtain k where "?m x = Some k" "x \<noteq> b" by auto
      with Some n na show ?thesis by (simp add: unlink_used_def modify_def Let_def)
    qed
    moreover have "b \<notin> set free" using l(2) u' by auto
    then have "dll (?w nb n) (m_pFreeList M) free" using d(2) nx by (auto simp: Let_def split: option.split)
    moreover have "data_of ?M c = data_of M c" for c
      using nx n(1) by (auto simp: data_of_def Let_def split: option.split)
    ultimately show ?thesis using n(4) r snoc by (intro exI [of _ ?M]) (simp add: linked_def)
  qed
qed

lemma push_free_ok:
  assumes l: "linked M used free" "distinct (used @ free)" "a \<notin> set (used @ free)" "nodes M a = Some n"
  shows "\<exists>M1. push_free a M = Some M1 \<and> linked M1 used (a # free) \<and> (\<forall>b. data_of M1 b = data_of M b)
    \<and> fresh M1 = fresh M \<and> m_EnablePool M1 = m_EnablePool M \<and> m_dwBufferCount M1 = m_dwBufferCount M"
proof -
  let ?m = "nodes M" and ?p = "m_pFreeList M"
  have d: "dll ?m (m_pUsedList M) used" "dll ?m ?p free" using l(1) by (auto simp: linked_def)
  let ?m1 = "(case ?p of None \<Rightarrow> ?m | Some x \<Rightarrow> ?m(x \<mapsto> (the (?m x))\<lparr>m_pPrev := Some a\<rparr>))(a \<mapsto> n\<lparr>m_pNext := ?p, m_pPrev := None\<rparr>)"
  let ?M = "M\<lparr>nodes := ?m1, m_pFreeList := Some a\<rparr>"
  have f: "dll ?m1 (Some a) (a # free)" using dll_push [OF d(2)] l(2,3) by auto
  have px: "x \<in> set free \<and> ?m x \<noteq> None \<and> x \<noteq> a \<and> x \<notin> set used" if "?p = Some x" for x
    using dll_ptr [OF d(2)] l(2,3) that by auto
  have u: "dll ?m1 (m_pUsedList M) used" using d(1) l(3) px by (auto split: option.split)
  have dd: "data_of ?M b = data_of M b" for b
    using l(4) px by (auto simp: data_of_def split: option.split)
  have "push_free a M = Some ?M"
  proof (cases ?p)
    case None
    with l(4) show ?thesis by (simp add: push_free_def modify_def)
  next
    case (Some x)
    with px obtain k where "?m x = Some k" "x \<noteq> a" by auto
    with Some l(4) show ?thesis by (simp add: push_free_def modify_def fun_upd_twist)
  qed
  with u f dd show ?thesis by (intro exI [of _ ?M]) (simp add: linked_def)
qed


text \<open>Release: the count goes down; the last one moves the buffer to the free list, or deletes it.\<close>

lemma sint_pred: "0 <s (r :: 32 word) \<Longrightarrow> sint (r - 1) = sint r - 1"
  using sint_range_size [of r]
  by (simp add: word_sless_alt sint_word_ariths signed_take_bit_int_eq_self word_size)

lemma release_ok:
  assumes p: "pool_ok SIZE M used free" "a \<in> set used" "nodes M a = Some n"
  shows "\<exists>M'. ReleaseDataBuff a M = Some M' \<and> (\<forall>b. b \<noteq> a \<longrightarrow> data_of M' b = data_of M b)
    \<and> (if m_dwRefCount n = 1
        then pool_ok SIZE M' (remove1 a used) (if m_EnablePool M then a # free else free)
        else pool_ok SIZE M' used free \<and> data_of M' a = Some (data (n\<lparr>m_dwRefCount := m_dwRefCount n - 1\<rparr>)))"
proof -
  have ub: "used_buffer SIZE n" using p by (auto simp: pool_ok_def data_of_def)
  then have pos: "0 <s m_dwRefCount n" by (simp add: used_buffer_def)
  note pred = sint_pred [OF pos]
  have pos': "0 < sint (m_dwRefCount n)" using pos by (simp add: word_sless_alt)
  have last: "m_dwRefCount n - 1 \<le>s 0 \<longleftrightarrow> m_dwRefCount n = 1"
  proof -
    have "m_dwRefCount n - 1 \<le>s 0 \<longleftrightarrow> sint (m_dwRefCount n) = 1" using pred pos' by (auto simp: word_sle_eq)
    also have "\<dots> \<longleftrightarrow> m_dwRefCount n = 1" using signed_word_eqI [of "m_dwRefCount n" 1] by auto
    finally show ?thesis .
  qed
  have l: "linked M used free" "distinct (used @ free)" "\<forall>x\<in>set (used @ free). x < fresh M" "a \<notin> set free"
    using p(1,2) by (auto simp: pool_ok_def)
  have c: "release_check a M" using p(3) pos by (simp add: release_check_def)
  show ?thesis
  proof (cases "m_dwRefCount n = 1")
    case False
    let ?n = "n\<lparr>m_dwRefCount := m_dwRefCount n - 1\<rparr>"
    let ?M = "M\<lparr>nodes := (nodes M)(a \<mapsto> ?n)\<rparr>"
    have r: "ReleaseDataBuff a M = Some ?M"
      using p(3) c False last by (cases n) (simp add: ReleaseDataBuff_def release_locked_def modify_def)
    have d: "data_of ?M b = (if b = a then Some (data ?n) else data_of M b)" for b by (simp add: data_of_def)
    have "used_buffer SIZE ?n"
      using ub False last by (simp add: used_buffer_def sized_def word_sless_alt word_sle_eq)
    moreover have "linked ?M used free" using l(1) p(3) by (auto simp: linked_def dll_data)
    ultimately have "pool_ok SIZE ?M used free" using p(1,2) l(4) unfolding pool_ok_def d by auto
    with r d False show ?thesis by auto
  next
    case True
    let ?n = "n\<lparr>m_dwRefCount := 0, m_nDataLen := 0\<rparr>"
    let ?M = "M\<lparr>nodes := (nodes M)(a \<mapsto> ?n)\<rparr>"
    have d: "data_of ?M b = (if b = a then Some (data ?n) else data_of M b)" for b by (simp add: data_of_def)
    have lm: "linked ?M used free" using l(1) p(3) by (auto simp: linked_def dll_data)
    obtain M1 where u: "unlink_used a ?M = Some M1" "linked M1 (remove1 a used) free" "\<forall>b. data_of M1 b = data_of ?M b"
      "fresh M1 = fresh M" "m_EnablePool M1 = m_EnablePool M" "m_dwBufferCount M1 = m_dwBufferCount M"
      using unlink_used_ok [OF lm l(2) p(2)] by auto
    have a1: "a \<notin> set (remove1 a used @ free)" using l(2,4) by auto
    have dist: "distinct (remove1 a used @ free)" using l(2) by (auto dest: notin_set_remove1)
    obtain k where k: "nodes M1 a = Some k" "data k = data ?n"
    proof -
      have "data_of M1 a = Some (data ?n)" using u(3) d [of a] by simp
      with that show ?thesis by (auto simp: data_of_def)
    qed
    let ?fin = "\<lambda>M4. ReleaseDataBuff a M = Some (M4\<lparr>m_dwBufferCount := m_dwBufferCount M4 - 1\<rparr>)"
    have r: "?fin M4" if "(if m_EnablePool M1 then push_free a M1 else Some (M1\<lparr>nodes := (nodes M1)(a := None)\<rparr>)) = Some M4" for M4
      using p(3) c True u(1) that
      by (cases n) (simp add: ReleaseDataBuff_def release_locked_def modify_def)
    have cnt: "of_nat (length (remove1 a used)) = (m_dwBufferCount M - 1 :: u32)"
    proof -
      have "length used = Suc (length (remove1 a used))" using length_pos_if_in_set [OF p(2)] p(2) by (simp add: length_remove1)
      moreover have "m_dwBufferCount M = of_nat (length used)" using p(1) by (simp add: pool_ok_def)
      ultimately show ?thesis by simp
    qed
    have us: "\<forall>x\<in>set (remove1 a used). \<exists>n. data_of M x = Some n \<and> used_buffer SIZE n" "\<forall>x\<in>set (remove1 a used). x < fresh M \<and> x \<noteq> a"
      "\<forall>x. x \<notin> set (remove1 a used @ free) \<and> x \<noteq> a \<longrightarrow> data_of M x = None"
      using p(1) l(3) a1 set_remove1_subset [of a used] in_set_remove1 [of _ a used] by (auto simp: pool_ok_def)
    show ?thesis
    proof (cases "m_EnablePool M")
      case pool: True
      obtain M4 where f: "push_free a M1 = Some M4" "linked M4 (remove1 a used) (a # free)" "\<forall>b. data_of M4 b = data_of M1 b"
        "fresh M4 = fresh M" "m_EnablePool M4 = m_EnablePool M" "m_dwBufferCount M4 = m_dwBufferCount M"
        using push_free_ok [OF u(2) dist a1 k(1)] u(4-6) by auto
      let ?R = "M4\<lparr>m_dwBufferCount := m_dwBufferCount M4 - 1\<rparr>"
      have dr: "data_of ?R b = (if b = a then Some (data ?n) else data_of M b)" for b
        using f(3) u(3) d by (simp add: data_of_def)
      have fb: "free_buffer SIZE (data ?n)" using ub by (simp add: free_buffer_def used_buffer_def sized_def)
      have lr: "linked ?R (remove1 a used) (a # free)" using f(2) by (simp add: linked_def)
      have fr: "\<forall>x\<in>set free. x \<noteq> a \<and> x < fresh M \<and> (\<exists>n. data_of M x = Some n \<and> free_buffer SIZE n)"
        using p(1) l(3,4) by (auto simp: pool_ok_def)
      have "pool_ok SIZE ?R (remove1 a used) (a # free)"
        unfolding pool_ok_def dr using lr dist a1 us f(4-6) fb cnt fr pool p(2) l(3) by auto
      with r [of M4] f(1) u(5) pool True dr show ?thesis by auto
    next
      case nopool: False
      have fe: "free = []" using p(1) nopool by (simp add: pool_ok_def)
      let ?M4 = "M1\<lparr>nodes := (nodes M1)(a := None)\<rparr>"
      let ?R = "?M4\<lparr>m_dwBufferCount := m_dwBufferCount ?M4 - 1\<rparr>"
      have dr: "data_of ?R b = (if b = a then None else data_of M b)" for b
        using u(3) d by (simp add: data_of_def)
      have lr: "linked ?R (remove1 a used) []" using u(2) a1 fe by (simp add: linked_def)
      have "pool_ok SIZE ?R (remove1 a used) []"
        unfolding pool_ok_def dr using lr dist us u(4-6) cnt fe by auto
      with r [of ?M4] u(5) nopool True dr fe show ?thesis by auto
    qed
  qed
qed


section \<open>Clients\<close>

text \<open>
  The states a manager reaches under clients that release only references they hold: \<open>hs\<close> are the
  references handed out by allocations and \<open>AddRef\<close> and not given back yet.
\<close>

inductive pool_reach :: "nat \<Rightarrow> buffer_manager \<Rightarrow> addr list \<Rightarrow> bool" for SIZE where
  reach_start: "pool_reach SIZE (SetEnablePool b CBufferManager) []"
| reach_alloc: "pool_reach SIZE M hs \<Longrightarrow> AllocDataBuff SIZE junk M = Some (a, M') \<Longrightarrow> pool_reach SIZE M' (a # hs)"
| reach_addref: "pool_reach SIZE M hs \<Longrightarrow> a \<in> set hs \<Longrightarrow> count_list hs a < 2 ^ 31 - 1 \<Longrightarrow> AddRef a M = Some M'
    \<Longrightarrow> pool_reach SIZE M' (a # hs)"
| reach_release: "pool_reach SIZE M hs \<Longrightarrow> a \<in> set hs \<Longrightarrow> ReleaseDataBuff a M = Some M' \<Longrightarrow> pool_reach SIZE M' (remove1 a hs)"

definition counted :: "buffer_manager \<Rightarrow> addr list \<Rightarrow> addr \<Rightarrow> bool" where
  "counted M hs a \<longleftrightarrow> (\<exists>n. data_of M a = Some n \<and> sint (m_dwRefCount n) = int (count_list hs a))"

lemma count_remove1: "count_list (remove1 a hs) b = (if b = a then count_list hs b - 1 else count_list hs b)"
  by (induction hs) auto

lemma count_list_pos: "a \<in> set hs \<longleftrightarrow> 0 < count_list hs a"
  using count_list_0_iff [of hs a] by auto

lemma set_remove1_count:
  "a \<in> set hs \<Longrightarrow> set (remove1 a hs) = (if count_list hs a = 1 then set hs - {a} else set hs)"
proof (rule set_eqI)
  fix x assume "a \<in> set hs"
  then show "x \<in> set (remove1 a hs) \<longleftrightarrow> x \<in> (if count_list hs a = 1 then set hs - {a} else set hs)"
    by (cases "x = a") (simp_all add: count_list_pos count_remove1)
qed

lemma counted_node:
  assumes "counted M hs a"
  obtains n where "nodes M a = Some n" "sint (m_dwRefCount n) = int (count_list hs a)"
  using assms by (auto simp: counted_def data_of_def)

lemma reach_ok:
  "pool_reach SIZE M hs \<Longrightarrow> \<exists>used free. pool_ok SIZE M used free \<and> set used = set hs \<and> (\<forall>a\<in>set hs. counted M hs a)"
proof (induction rule: pool_reach.induct)
  case (reach_start b)
  have "pool_ok SIZE (SetEnablePool b CBufferManager) [] []"
    using pool_ok_new by (cases b) (simp_all add: SetEnablePool_def CBufferManager_def)
  then show ?case by auto
next
  case (reach_alloc M hs junk a M')
  then obtain used free where ok: "pool_ok SIZE M used free" "set used = set hs" "\<forall>a\<in>set hs. counted M hs a" by blast
  from alloc_ok [OF ok(1), of junk] reach_alloc(2) obtain free' n where
    a: "pool_ok SIZE M' (a # used) free'" "nodes M' a = Some n" "m_dwRefCount n = 1" "\<forall>b. b \<noteq> a \<longrightarrow> data_of M' b = data_of M b"
    by auto
  have na: "a \<notin> set hs" using a(1) ok(2) by (auto simp: pool_ok_def)
  have "counted M' (a # hs) b" if "b \<in> set (a # hs)" for b
  proof (cases "b = a")
    case True
    have "count_list hs a = 0" using na by (simp add: count_list_0_iff)
    with True a(2,3) show ?thesis by (simp add: counted_def data_of_def)
  next
    case False
    with that ok(3) have "counted M hs b" by simp
    with False a(4) show ?thesis by (simp add: counted_def)
  qed
  with a(1) ok(2) show ?case by (intro exI [of _ "a # used"] exI [of _ free']) auto
next
  case (reach_addref M hs a M')
  then obtain used free where ok: "pool_ok SIZE M used free" "set used = set hs" "\<forall>a\<in>set hs. counted M hs a" by blast
  obtain n where n: "nodes M a = Some n" "sint (m_dwRefCount n) = int (count_list hs a)"
    using ok(3) reach_addref(2) by (blast elim: counted_node)
  then have lt: "sint (m_dwRefCount n) < 2 ^ 31 - 1" using reach_addref(3) by simp
  from addref_ok [OF ok(1) _ n(1) lt] reach_addref(2,4) ok(2) have
    m: "pool_ok SIZE M' used free" "nodes M' = (nodes M)(a \<mapsto> n\<lparr>m_dwRefCount := m_dwRefCount n + 1\<rparr>)" by auto
  have "sint (m_dwRefCount n + 1) = sint (m_dwRefCount n) + 1"
    using lt n(2) by (simp add: sint_word_ariths signed_take_bit_int_eq_self)
  then have "counted M' (a # hs) b" if "b \<in> set (a # hs)" for b
    using that m(2) n ok(3) reach_addref(2) by (auto simp: counted_def data_of_def)
  with m(1) ok(2) reach_addref(2) show ?case by (intro exI [of _ used] exI [of _ free]) auto
next
  case (reach_release M hs a M')
  then obtain used free where ok: "pool_ok SIZE M used free" "set used = set hs" "\<forall>a\<in>set hs. counted M hs a" by blast
  obtain n where n: "nodes M a = Some n" "sint (m_dwRefCount n) = int (count_list hs a)"
    using ok(3) reach_release(2) by (blast elim: counted_node)
  note rel = release_ok [OF ok(1) _ n(1)]
  have au: "a \<in> set used" using reach_release(2) ok(2) by simp
  have oth: "counted M' (remove1 a hs) b" if "b \<in> set hs" "b \<noteq> a" for b
    using rel [OF au] that ok(3) reach_release(3) by (auto simp: counted_def count_remove1)
  show ?case
  proof (cases "m_dwRefCount n = 1")
    case True
    then have one: "count_list hs a = 1" using n(2) by simp
    have d: "distinct used" using ok(1) by (simp add: pool_ok_def)
    have "set (remove1 a hs) = set hs - {a}" using one reach_release(2) by (simp add: set_remove1_count)
    moreover have "set (remove1 a used) = set used - {a}" using d by simp
    moreover have "pool_ok SIZE M' (remove1 a used) (if m_EnablePool M then a # free else free)"
      using rel [OF au] True reach_release(3) by simp
    ultimately show ?thesis using ok(2) oth by blast
  next
    case False
    have gt: "1 < count_list hs a"
    proof -
      have "count_list hs a \<noteq> 1" using False n(2) signed_word_eqI [of "m_dwRefCount n" 1] by auto
      then show ?thesis using reach_release(2) by (simp add: count_list_pos)
    qed
    then have s: "set (remove1 a hs) = set hs" using reach_release(2) by (simp add: set_remove1_count)
    have "0 <s m_dwRefCount n" using n(2) gt by (simp add: word_sless_alt)
    then have "counted M' (remove1 a hs) a"
      using rel [OF au] False n(2) gt reach_release(3) by (auto simp: counted_def count_remove1 sint_pred)
    with oth s rel [OF au] False reach_release(3) ok(2) show ?thesis
      by (intro exI [of _ used] exI [of _ free]) auto
  qed
qed

text \<open>
  C5: after any sequence of allocations, \<open>AddRef\<close> and \<open>Release\<close> by clients that release only what they
  hold, the next allocation succeeds and gives a buffer nobody holds, of the size of the pool, empty and
  with one reference; it touches no held buffer; and every held buffer can be released.
\<close>

theorem pool_safe:
  assumes "pool_reach SIZE M hs"
  shows "\<exists>a M' n. AllocDataBuff SIZE junk M = Some (a, M') \<and> a \<notin> set hs \<and> nodes M' a = Some n \<and> sized SIZE n
      \<and> m_dwRefCount n = 1 \<and> m_nDataLen n = 0 \<and> (\<forall>b\<in>set hs. data_of M' b = data_of M b \<and> ReleaseDataBuff b M \<noteq> None)"
proof -
  obtain used free where ok: "pool_ok SIZE M used free" "set used = set hs" "\<forall>a\<in>set hs. counted M hs a"
    using reach_ok [OF assms] by blast
  obtain a M' free' n where a: "AllocDataBuff SIZE junk M = Some (a, M')" "pool_ok SIZE M' (a # used) free'"
    "nodes M' a = Some n" "sized SIZE n" "m_dwRefCount n = 1" "m_nDataLen n = 0" "\<forall>b. b \<noteq> a \<longrightarrow> data_of M' b = data_of M b"
    using alloc_ok [OF ok(1), of junk] by blast
  have na: "a \<notin> set hs" using a(2) ok(2) by (auto simp: pool_ok_def)
  have "data_of M' b = data_of M b \<and> ReleaseDataBuff b M \<noteq> None" if b: "b \<in> set hs" for b
  proof -
    obtain k where k: "nodes M b = Some k" using ok(3) b by (blast elim: counted_node)
    with release_ok [OF ok(1) _ k] b ok(2) a(7) na show ?thesis by auto
  qed
  with a na show ?thesis by blast
qed

theorem pool_safe_witness:
  "\<exists>a M' n. AllocDataBuff 64 (\<lambda>_. NUL) (SetEnablePool True CBufferManager) = Some (a, M') \<and> a \<notin> set []
      \<and> nodes M' a = Some n \<and> sized 64 n \<and> m_dwRefCount n = 1 \<and> m_nDataLen n = 0"
  using pool_safe [OF reach_start [of 64 True], of "\<lambda>_. NUL"] by blast


text \<open>
  the count is tested in front of the lock: of two threads that both release a buffer with one
  reference left, both can pass the test, and the second one then fails in the middle of its release.
\<close>

theorem release_race:
  assumes "pool_ok SIZE M used free" "a \<in> set used" "nodes M a = Some n" "m_dwRefCount n = 1" "m_EnablePool M"
  shows "release_check a M \<and> (\<exists>M1. release_locked a M = Some M1 \<and> release_locked a M1 = None)"
proof -
  obtain M1 where r: "ReleaseDataBuff a M = Some M1" "pool_ok SIZE M1 (remove1 a used) (a # free)"
    using release_ok [OF assms(1-3)] assms(4,5) by auto
  then have c: "release_check a M" "release_locked a M = Some M1"
    by (simp_all add: ReleaseDataBuff_def split: if_splits)
  have l: "dll (nodes M1) (m_pUsedList M1) (remove1 a used)" "dll (nodes M1) (m_pFreeList M1) (a # free)"
    "a \<notin> set (remove1 a used)" using r(2) by (auto simp: pool_ok_def linked_def)
  then obtain k where k: "nodes M1 a = Some k" "m_pPrev k = None" by (auto simp: dll_def split: option.splits)
  have z: "m_dwRefCount k = 0" using r(2) k(1) by (auto simp: pool_ok_def data_of_def free_buffer_def)
  have "m_pUsedList M1 \<noteq> Some a" using dll_ptr [OF l(1)] l(3) by auto
  with k z have "release_locked a M1 = None"
    by (simp add: release_locked_def modify_def unlink_used_def word_sle_eq)
  with c show ?thesis by blast
qed

theorem release_race_witness:
  "\<exists>M a. release_check a M \<and> (\<exists>M1. release_locked a M = Some M1 \<and> release_locked a M1 = None)"
proof -
  obtain a M' free' n where a: "pool_ok 64 M' [a] free'" "nodes M' a = Some n" "m_dwRefCount n = 1" "m_EnablePool M'"
  proof -
    from alloc_ok [OF pool_ok_new(1), of 64 "\<lambda>_. NUL"] obtain a M' free' n where
      "AllocDataBuff 64 (\<lambda>_. NUL) CBufferManager = Some (a, M')" "pool_ok 64 M' [a] free'" "nodes M' a = Some n" "m_dwRefCount n = 1"
      by blast
    moreover from this(1) have "m_EnablePool M'"
      by (auto simp: AllocDataBuff_def take_free_def push_used_def modify_def CBufferManager_def split: option.splits if_splits)
    ultimately show ?thesis using that by blast
  qed
  from release_race [OF a(1) _ a(2-4)] show ?thesis by auto
qed

section \<open>The allocator\<close>

text \<open>One manager for every size; the last one does not pool.\<close>

type_synonym allocator = "nat \<Rightarrow> buffer_manager"

type_synonym handle = "nat \<times> addr"

definition ANY_SIZE :: nat where "ANY_SIZE = 10 * 1024 * 1014"

definition CBufferAllocator :: allocator where
  "CBufferAllocator = (\<lambda>_. CBufferManager)(ANY_SIZE := SetEnablePool False CBufferManager)"

definition pool_for :: "int \<Rightarrow> nat" where
  "pool_for nSize =
     (if nSize < 64 then 64 else if nSize < 128 then 128 else if nSize < 256 then 256
      else if nSize < 512 then 512 else if nSize < 1024 then 1024 else if nSize < 2048 then 2048
      else if nSize < 4096 then 4096 else if nSize < 8192 then 8192 else if nSize < 16384 then 16384
      else if nSize < 32768 then 32768 else if nSize < 65536 then 65536 else ANY_SIZE)"

definition Allocator_AllocDataBuff :: "(nat \<Rightarrow> char) \<Rightarrow> int \<Rightarrow> allocator \<Rightarrow> (handle \<times> allocator) option" where
  "Allocator_AllocDataBuff junk nSize A = (let s = pool_for nSize in do {
     (a, M) \<leftarrow> AllocDataBuff s junk (A s);
     Some ((s, a), A(s := M)) })"

definition Allocator_Release :: "handle \<Rightarrow> allocator \<Rightarrow> allocator option" where
  "Allocator_Release h A = do { M \<leftarrow> ReleaseDataBuff (snd h) (A (fst h)); Some (A(fst h := M)) }"

text \<open>The buffer behind a pointer, and a change of it: \<open>memcpy\<close> to \<open>GetBuffer () + i\<close>, \<open>SetTotalLenth\<close>.\<close>

definition buffer_at :: "allocator \<Rightarrow> handle \<Rightarrow> data_buffer option" where
  "buffer_at A h = data_of (A (fst h)) (snd h)"

definition write_at :: "handle \<Rightarrow> nat \<Rightarrow> char list \<Rightarrow> nat \<Rightarrow> allocator \<Rightarrow> allocator option" where
  "write_at h i src n A = do {
     b \<leftarrow> nodes (A (fst h)) (snd h);
     m \<leftarrow> memcpy (m_Buffer b) i src n;
     M \<leftarrow> modify (snd h) (m_Buffer_update (\<lambda>_. m)) (A (fst h));
     Some (A(fst h := M)) }"

definition set_total :: "handle \<Rightarrow> u32 \<Rightarrow> allocator \<Rightarrow> allocator option" where
  "set_total h n A = do { M \<leftarrow> modify (snd h) (SetTotalLenth n) (A (fst h)); Some (A(fst h := M)) }"

definition allocator_ok :: "allocator \<Rightarrow> bool" where
  "allocator_ok A \<longleftrightarrow> (\<exists>U F. \<forall>s. pool_ok s (A s) (U s) (F s))"

text \<open>The buffer is used, and by its own pool.\<close>

definition live :: "allocator \<Rightarrow> handle \<Rightarrow> bool" where
  "live A h \<longleftrightarrow> (\<exists>b. buffer_at A h = Some b \<and> 0 <s m_dwRefCount b)"

lemma live_used: "pool_ok s (A s) used free \<Longrightarrow> live A (s, a) \<longleftrightarrow> a \<in> set used"
proof -
  assume p: "pool_ok s (A s) used free"
  consider "a \<in> set used" | "a \<in> set free" "a \<notin> set used" | "a \<notin> set (used @ free)" by auto
  then show ?thesis
    using p by cases (auto simp: pool_ok_def live_def buffer_at_def used_buffer_def free_buffer_def)
qed

lemma pool_for_size: "n < 65536 \<Longrightarrow> n < int (pool_for n)" "n < 10383360 \<Longrightarrow> n < int (pool_for n)"
  by (auto simp: pool_for_def ANY_SIZE_def)


text \<open>
  What the network code relies on: an allocation below the limit succeeds and gives a buffer that nobody
  holds and that is large enough, and writing to a held buffer changes no other one.
\<close>

locale buffer_source =
  fixes alloc :: "int \<Rightarrow> 'a \<Rightarrow> ('h \<times> 'a) option"
    and buf :: "'a \<Rightarrow> 'h \<Rightarrow> data_buffer option"
    and held :: "'a \<Rightarrow> 'h \<Rightarrow> bool"
    and copy :: "'h \<Rightarrow> nat \<Rightarrow> char list \<Rightarrow> nat \<Rightarrow> 'a \<Rightarrow> 'a option"
    and total :: "'h \<Rightarrow> u32 \<Rightarrow> 'a \<Rightarrow> 'a option"
    and ok :: "'a \<Rightarrow> bool"
    and limit :: int
  assumes alloc_law: "ok A \<Longrightarrow> sz < limit \<Longrightarrow> \<exists>h A' b. alloc sz A = Some (h, A') \<and> ok A' \<and> \<not> held A h \<and> held A' h
      \<and> buf A' h = Some b \<and> sz \<le> int (length (m_Buffer b)) \<and> m_nDataLen b = 0
      \<and> (\<forall>h'. h' \<noteq> h \<longrightarrow> buf A' h' = buf A h' \<and> held A' h' = held A h')"
    and copy_law: "ok A \<Longrightarrow> held A h \<Longrightarrow> buf A h = Some b \<Longrightarrow> memcpy (m_Buffer b) i src n = Some m
      \<Longrightarrow> \<exists>A'. copy h i src n A = Some A' \<and> ok A' \<and> buf A' h = Some (b\<lparr>m_Buffer := m\<rparr>)
        \<and> (\<forall>h'. held A' h' = held A h' \<and> (h' \<noteq> h \<longrightarrow> buf A' h' = buf A h'))"
    and total_law: "ok A \<Longrightarrow> held A h \<Longrightarrow> buf A h = Some b
      \<Longrightarrow> \<exists>A'. total h len A = Some A' \<and> ok A' \<and> buf A' h = Some (b\<lparr>m_nDataLen := len\<rparr>)
        \<and> (\<forall>h'. held A' h' = held A h' \<and> (h' \<noteq> h \<longrightarrow> buf A' h' = buf A h'))"
begin

text \<open>The first \<open>k\<close> bytes at \<open>src\<close> behind the \<open>t\<close> bytes a buffer has.\<close>

lemma append_bytes:
  assumes "ok A" "held A h" "buf A h = Some b" "t + k \<le> length (m_Buffer b)" "k \<le> length src"
  shows "\<exists>A' b'. do { A1 \<leftarrow> copy h t src k A; total h n A1 } = Some A' \<and> ok A' \<and> buf A' h = Some b'
    \<and> take (t + k) (m_Buffer b') = take t (m_Buffer b) @ take k src \<and> length (m_Buffer b') = length (m_Buffer b)
    \<and> m_nDataLen b' = n \<and> (\<forall>h'. held A' h' = held A h' \<and> (h' \<noteq> h \<longrightarrow> buf A' h' = buf A h'))"
proof -
  let ?m = "take t (m_Buffer b) @ take k src @ drop (t + k) (m_Buffer b)"
  have "memcpy (m_Buffer b) t src k = Some ?m" using assms(4,5) by (simp add: memcpy_def)
  from copy_law [OF assms(1-3) this] obtain A1 where
    A1: "copy h t src k A = Some A1" "ok A1" "buf A1 h = Some (b\<lparr>m_Buffer := ?m\<rparr>)"
      "\<forall>h'. held A1 h' = held A h' \<and> (h' \<noteq> h \<longrightarrow> buf A1 h' = buf A h')" by blast
  from total_law [OF A1(2) _ A1(3), of n] A1(4) assms(2) obtain A2 where
    A2: "total h n A1 = Some A2" "ok A2" "buf A2 h = Some (b\<lparr>m_Buffer := ?m, m_nDataLen := n\<rparr>)"
      "\<forall>h'. held A2 h' = held A1 h' \<and> (h' \<noteq> h \<longrightarrow> buf A2 h' = buf A1 h')" by auto
  have "take (t + k) ?m = take t (m_Buffer b) @ take k src" "length ?m = length (m_Buffer b)"
    using assms(4,5) by (auto simp: min_def)
  with A1 A2 show ?thesis by auto
qed

text \<open>A new buffer for \<open>n\<close> bytes with the first \<open>k\<close> bytes at \<open>src\<close> in it.\<close>

lemma store_bytes:
  assumes "ok A" "int n < limit" "k \<le> n" "k \<le> length src"
  shows "\<exists>h A' b. do { (h, A1) \<leftarrow> alloc (int n) A; A2 \<leftarrow> copy h 0 src k A1; A3 \<leftarrow> total h (of_nat k) A2; Some (h, A3) }
      = Some (h, A') \<and> ok A' \<and> \<not> held A h \<and> held A' h \<and> buf A' h = Some b \<and> take k (m_Buffer b) = take k src
    \<and> n \<le> length (m_Buffer b) \<and> m_nDataLen b = of_nat k
    \<and> (\<forall>h'. h' \<noteq> h \<longrightarrow> buf A' h' = buf A h' \<and> held A' h' = held A h')"
proof -
  obtain h A1 b where a: "alloc (int n) A = Some (h, A1)" "ok A1" "\<not> held A h" "held A1 h" "buf A1 h = Some b"
    "int n \<le> int (length (m_Buffer b))" "\<forall>h'. h' \<noteq> h \<longrightarrow> buf A1 h' = buf A h' \<and> held A1 h' = held A h'"
    using alloc_law [OF assms(1,2)] by blast
  from append_bytes [OF a(2,4,5), of 0 k src "of_nat k"] a(6) assms(3,4) obtain A' b' where
    b: "do { A1 \<leftarrow> copy h 0 src k A1; total h (of_nat k) A1 } = Some A'" "ok A'" "buf A' h = Some b'"
      "take k (m_Buffer b') = take k src" "length (m_Buffer b') = length (m_Buffer b)" "m_nDataLen b' = of_nat k"
      "\<forall>h'. held A' h' = held A1 h' \<and> (h' \<noteq> h \<longrightarrow> buf A' h' = buf A1 h')" by auto
  from b(1) have "do { A2 \<leftarrow> copy h 0 src k A1; A3 \<leftarrow> total h (of_nat k) A2; Some (h, A3) } = Some (h, A')"
    by (auto split: Option.bind_splits)
  with a b(2-7) show ?thesis by auto
qed

end

lemma allocator_alloc:
  assumes "allocator_ok A" "n < 10383360"
  shows "\<exists>h A' b. Allocator_AllocDataBuff junk n A = Some (h, A') \<and> allocator_ok A' \<and> \<not> live A h \<and> live A' h
      \<and> buffer_at A' h = Some b \<and> n \<le> int (length (m_Buffer b)) \<and> m_nDataLen b = 0
      \<and> (\<forall>h'. h' \<noteq> h \<longrightarrow> buffer_at A' h' = buffer_at A h' \<and> live A' h' = live A h')"
proof -
  obtain U F where ok: "\<And>s. pool_ok s (A s) (U s) (F s)" using assms(1) by (auto simp: allocator_ok_def)
  let ?s = "pool_for n"
  obtain a M free' k where a: "AllocDataBuff ?s junk (A ?s) = Some (a, M)" "pool_ok ?s M (a # U ?s) free'"
    "nodes M a = Some k" "sized ?s k" "m_dwRefCount k = 1" "m_nDataLen k = 0" "\<forall>b. b \<noteq> a \<longrightarrow> data_of M b = data_of (A ?s) b"
    using alloc_ok [OF ok, of ?s junk] by blast
  let ?A = "A(?s := M)"
  have "allocator_ok ?A"
    unfolding allocator_ok_def
    by (rule exI [of _ "U(?s := a # U ?s)"], rule exI [of _ "F(?s := free')"]) (use ok a(2) in auto)
  moreover have "a \<notin> set (U ?s)" using a(2) by (simp add: pool_ok_def)
  then have "\<not> live A (?s, a)" using live_used [of ?s A, OF ok] by simp
  moreover have "live ?A (?s, a)" using live_used [of ?s ?A] a(2) by simp
  moreover have b: "buffer_at ?A h' = buffer_at A h'" if "h' \<noteq> (?s, a)" for h'
    using that a(7) by (cases h') (auto simp: buffer_at_def)
  moreover have "live ?A h' = live A h'" if "h' \<noteq> (?s, a)" for h' using b [OF that] by (simp add: live_def)
  moreover have "buffer_at ?A (?s, a) = Some (data k)" using a(3) by (simp add: buffer_at_def data_of_def)
  moreover have "n \<le> int (length (m_Buffer (data k)))" using a(4) pool_for_size(2) [OF assms(2)] by (simp add: sized_def)
  ultimately show ?thesis using a(1,6)
    by (intro exI [of _ "(?s, a)"] exI [of _ ?A] exI [of _ "data k"]) (auto simp: Allocator_AllocDataBuff_def Let_def)
qed

text \<open>Changes of the bytes and the length of a used buffer.\<close>

lemma allocator_change:
  assumes "allocator_ok A" "live A h" "nodes (A (fst h)) (snd h) = Some n"
    and f: "m_pPrev (f n) = m_pPrev n" "m_pNext (f n) = m_pNext n" "m_dwRefCount (f n) = m_dwRefCount n"
      "m_nBufSize (f n) = m_nBufSize n" "length (m_Buffer (f n)) = length (m_Buffer n)"
  shows "\<exists>M. modify (snd h) f (A (fst h)) = Some M \<and> allocator_ok (A(fst h := M))
    \<and> buffer_at (A(fst h := M)) h = Some (data (f n))
    \<and> (\<forall>h'. live (A(fst h := M)) h' = live A h' \<and> (h' \<noteq> h \<longrightarrow> buffer_at (A(fst h := M)) h' = buffer_at A h'))"
proof -
  obtain U F where ok: "\<And>s. pool_ok s (A s) (U s) (F s)" using assms(1) by (auto simp: allocator_ok_def)
  obtain s a where h: "h = (s, a)" by (cases h)
  let ?M = "A s\<lparr>nodes := (nodes (A s))(a \<mapsto> f n)\<rparr>"
  have m: "modify (snd h) f (A (fst h)) = Some ?M" using assms(3) h by (simp add: modify_def)
  have a: "a \<in> set (U s)" using assms(2) live_used [of s A, OF ok] h by simp
  have d: "data_of ?M b = (if b = a then Some (data (f n)) else data_of (A s) b)" for b by (simp add: data_of_def)
  have "used_buffer s n" using ok [of s] a assms(3) h by (auto simp: pool_ok_def data_of_def)
  then have ub: "used_buffer s (data (f n))" using f by (simp add: used_buffer_def sized_def)
  have "linked ?M (U s) (F s)" using ok [of s] assms(3) h f by (auto simp: pool_ok_def linked_def dll_data)
  then have p: "pool_ok s ?M (U s) (F s)"
    using ok [of s] a ub unfolding pool_ok_def d by auto
  have b: "buffer_at (A(s := ?M)) h' = (if h' = h then Some (data (f n)) else buffer_at A h')" for h'
    using h d by (cases h') (simp add: buffer_at_def)
  have "live (A(s := ?M)) h' = live A h'" for h'
    using b [of h'] f(3) assms(3) h by (auto simp: live_def buffer_at_def data_of_def)
  moreover have "allocator_ok (A(s := ?M))"
    unfolding allocator_ok_def by (rule exI [of _ U], rule exI [of _ F]) (use ok p in auto)
  ultimately show ?thesis using m b h by auto
qed

interpretation allocator: buffer_source "Allocator_AllocDataBuff junk" buffer_at live write_at set_total allocator_ok 10383360
  for junk
proof
  show "\<exists>h A' b. Allocator_AllocDataBuff junk n A = Some (h, A') \<and> allocator_ok A' \<and> \<not> live A h \<and> live A' h
      \<and> buffer_at A' h = Some b \<and> n \<le> int (length (m_Buffer b)) \<and> m_nDataLen b = 0
      \<and> (\<forall>h'. h' \<noteq> h \<longrightarrow> buffer_at A' h' = buffer_at A h' \<and> live A' h' = live A h')"
    if "allocator_ok A" "n < 10383360" for A n
    using allocator_alloc [OF that] .
next
  fix A h b i src n m
  assume A: "allocator_ok A" "live A h" "buffer_at A h = Some b" and c: "memcpy (m_Buffer b) i src n = Some m"
  obtain k where k: "nodes (A (fst h)) (snd h) = Some k" "data k = b" using A(3) by (auto simp: buffer_at_def data_of_def)
  have "length m = length (m_Buffer k)" using c k(2) by (auto simp: memcpy_def split: if_splits)
  from allocator_change [OF A(1,2) k(1), of "m_Buffer_update (\<lambda>_. m)"] this k c
  show "\<exists>A'. write_at h i src n A = Some A' \<and> allocator_ok A' \<and> buffer_at A' h = Some (b\<lparr>m_Buffer := m\<rparr>)
        \<and> (\<forall>h'. live A' h' = live A h' \<and> (h' \<noteq> h \<longrightarrow> buffer_at A' h' = buffer_at A h'))"
    by (auto simp: write_at_def data_def)
next
  fix A h b n
  assume A: "allocator_ok A" "live A h" "buffer_at A h = Some b"
  obtain k where k: "nodes (A (fst h)) (snd h) = Some k" "data k = b" using A(3) by (auto simp: buffer_at_def data_of_def)
  from allocator_change [OF A(1,2) k(1), of "SetTotalLenth n"] k
  show "\<exists>A'. set_total h n A = Some A' \<and> allocator_ok A' \<and> buffer_at A' h = Some (b\<lparr>m_nDataLen := n\<rparr>)
        \<and> (\<forall>h'. live A' h' = live A h' \<and> (h' \<noteq> h \<longrightarrow> buffer_at A' h' = buffer_at A h'))"
    by (auto simp: set_total_def SetTotalLenth_def data_def)
qed


lemma live_sized: "allocator_ok A \<Longrightarrow> live A h \<Longrightarrow> buffer_at A h = Some b \<Longrightarrow> sized (fst h) b"
proof -
  assume A: "allocator_ok A" "live A h" "buffer_at A h = Some b"
  then obtain U F where "\<And>s. pool_ok s (A s) (U s) (F s)" by (auto simp: allocator_ok_def)
  then have p: "pool_ok (fst h) (A (fst h)) (U (fst h)) (F (fst h))" .
  with A(2) have "snd h \<in> set (U (fst h))" using live_used [of "fst h" A "U (fst h)" "F (fst h)" "snd h", OF p] by simp
  with p A(3) show "sized (fst h) b" by (auto simp: pool_ok_def buffer_at_def used_buffer_def)
qed

lemma allocator_ok_new: "allocator_ok CBufferAllocator"
  unfolding allocator_ok_def CBufferAllocator_def using pool_ok_new
  by (intro exI [of _ "\<lambda>_. []"]) (simp add: SetEnablePool_def)

text \<open>
  the pool for buffers of up to 10 MB is declared with 10 * 1024 * 1014 bytes: an allocation of 10 MB
  succeeds and gives a buffer that is shorter than asked for.
\<close>

theorem any_pool_too_small:
  "\<exists>h A b. Allocator_AllocDataBuff junk 10485760 CBufferAllocator = Some (h, A) \<and> buffer_at A h = Some b
    \<and> length (m_Buffer b) < 10485760"
proof -
  obtain U F where ok: "\<And>s. pool_ok s (CBufferAllocator s) (U s) (F s)" using allocator_ok_new by (auto simp: allocator_ok_def)
  have s: "pool_for 10485760 = ANY_SIZE" by (simp add: pool_for_def)
  obtain a M n where a: "AllocDataBuff ANY_SIZE junk (CBufferAllocator ANY_SIZE) = Some (a, M)" "nodes M a = Some n" "sized ANY_SIZE n"
    using alloc_ok [OF ok, of ANY_SIZE junk] by blast
  have "length (m_Buffer (data n)) < 10485760" using a(3) by (simp add: sized_def ANY_SIZE_def)
  with a s show ?thesis
    by (intro exI [of _ "(ANY_SIZE, a)"] exI [of _ "CBufferAllocator(ANY_SIZE := M)"] exI [of _ "data n"])
      (simp add: Allocator_AllocDataBuff_def buffer_at_def data_of_def)
qed

section \<open>The destructor\<close>

lemma delete_list_dseg:
  "dseg m p pv as None l \<Longrightarrow> distinct as \<Longrightarrow> delete_list p m = Some (\<lambda>a. if a \<in> set as then None else m a)"
proof (induction as arbitrary: m p pv)
  case Nil
  then show ?case by (simp add: delete_list.simps)
next
  case (Cons a as)
  from Cons.prems obtain n where n: "p = Some a" "m a = Some n" "dseg m (m_pNext n) (Some a) as None l"
    by (auto split: option.splits)
  have "dseg (m(a := None)) (m_pNext n) (Some a) as None l" using n(3) Cons.prems(2) by simp
  from Cons.IH [OF this] Cons.prems(2)
  have "delete_list (m_pNext n) (m(a := None)) = Some (\<lambda>x. if x \<in> set as then None else (m(a := None)) x)"
    by (simp del: fun_upd_apply)
  with n Cons.prems(2) show ?case by (subst delete_list.simps) (auto simp: fun_eq_iff)
qed

text \<open>
  C39: \<open>ReleaseAll\<close> ends without following a dangling pointer and deletes every buffer of the manager.
\<close>

theorem release_all_frees:
  assumes "pool_ok SIZE M used free"
  shows "\<exists>M'. ReleaseAll M = Some M' \<and> nodes M' = (\<lambda>_. None)"
proof -
  have l: "dll (nodes M) (m_pUsedList M) used" "dll (nodes M) (m_pFreeList M) free" "distinct (used @ free)"
    "\<And>a. a \<notin> set (used @ free) \<Longrightarrow> nodes M a = None"
    using assms by (auto simp: pool_ok_def linked_def data_of_def)
  let ?m1 = "\<lambda>a. if a \<in> set free then None else nodes M a"
  have 1: "delete_list (m_pFreeList M) (nodes M) = Some ?m1"
    using l(2,3) delete_list_dseg by (auto simp: dll_def)
  have "dll ?m1 (m_pUsedList M) used"
  proof -
    have "a \<in> set used \<Longrightarrow> ?m1 a = nodes M a" for a using l(3) by auto
    with l(1) show ?thesis using dseg_cong [of used ?m1 "nodes M"] by (auto simp: dll_def)
  qed
  then have "delete_list (m_pUsedList M) ?m1 = Some (\<lambda>a. if a \<in> set used then None else ?m1 a)"
    using l(3) delete_list_dseg by (auto simp: dll_def)
  with 1 l(4) show ?thesis by (auto simp: ReleaseAll_def fun_eq_iff)
qed

theorem release_all_frees_witness:
  "\<exists>M'. ReleaseAll CBufferManager = Some M' \<and> nodes M' = (\<lambda>_. None)"
  by (rule release_all_frees [OF pool_ok_new(1)])

end
