(* ===== verification/WsFrame.thy ===== *)
theory WsFrame
  imports Prelude
begin

text \<open>
  The websocket framing of \<open>src/ServerEngine/baseinet/CHttpParser.h\<close>: \<open>recv_ws_header\<close>, which finds the
  size of the frame at the start of the receive buffer, and \<open>parser_ws_pack\<close>, which unmasks its data;
  and the client frames of RFC 6455 they are meant for.
\<close>

section \<open>The code\<close>

text \<open>A byte of the packet as an \<open>int\<close>; a load outside the memory is undefined.\<close>

definition load :: "char list \<Rightarrow> nat \<Rightarrow> u32 option" where
  "load m i = map_option (\<lambda>c. of_nat (ord c)) (peek m i)"

text \<open>The 16-bit and 32-bit values assembled from successive bytes.\<close>

definition load16 :: "char list \<Rightarrow> nat \<Rightarrow> u32 option" where
  "load16 m i = do { a \<leftarrow> load m i; b \<leftarrow> load m (i + 1); Some (a OR push_bit 8 b) }"

definition load32 :: "char list \<Rightarrow> nat \<Rightarrow> u32 option" where
  "load32 m i = do {
     a \<leftarrow> load m i; b \<leftarrow> load m (i + 1); c \<leftarrow> load m (i + 2); d \<leftarrow> load m (i + 3);
     Some (a OR push_bit 8 b OR push_bit 16 c OR push_bit 24 d) }"

text \<open>
  The result, \<open>*pkg_size\<close> and \<open>*out_header_size\<close>; the last two keep their values when it returns -1.
\<close>

definition recv_ws_header ::
  "char list \<Rightarrow> nat \<Rightarrow> u32 \<Rightarrow> u32 \<Rightarrow> (int \<times> u32 \<times> u32) option" where
  "recv_ws_header pkg_data pkg_len pkg_size header_size =
     (let fail = Some (- 1, pkg_size, header_size);
          done = (\<lambda>len h. Some (0, len + h, h))
      in if pkg_len < 2 then fail
      else do {
        b \<leftarrow> load pkg_data 1;
        let len = b AND 0x7f;
        if len \<le> 125 then (if pkg_len < 2 + 4 then fail else done len 6)
        else if len = 126 then
          (if pkg_len < 4 + 4 then fail else do { l \<leftarrow> load16 pkg_data 2; done l 8 })
        else
          (if pkg_len < 14 then fail
           else do {
             low \<leftarrow> load32 pkg_data 2;
             hight \<leftarrow> load32 pkg_data 6;
             if hight \<noteq> 0 then fail else done low 14 }) })"

definition xor_char :: "char \<Rightarrow> char \<Rightarrow> char" where
  "xor_char a b = char_of_byte (byte_of a XOR byte_of b)"

text \<open>The loop from index \<open>i\<close>.\<close>

function ws_pack_loop :: "char list \<Rightarrow> nat \<Rightarrow> char list \<Rightarrow> nat \<Rightarrow> char list option" where
  "ws_pack_loop body body_len mask4 i =
     (if i < body_len then
        (case (do { b \<leftarrow> peek body i; k \<leftarrow> peek mask4 (i mod 4); poke body i (xor_char b k) }) of
           None \<Rightarrow> None
         | Some body' \<Rightarrow> ws_pack_loop body' body_len mask4 (i + 1))
      else Some body)"
  by pat_completeness auto
termination
  by (relation "measure (\<lambda>(body, n, mask4, i). n - i)") auto

declare ws_pack_loop.simps [simp del]

definition parser_ws_pack :: "char list \<Rightarrow> nat \<Rightarrow> char list \<Rightarrow> char list option" where
  "parser_ws_pack body body_len mask4 = ws_pack_loop body body_len mask4 0"

section \<open>Unmasking\<close>

definition masked :: "char list \<Rightarrow> char list \<Rightarrow> char list" where
  "masked mask4 s = map (\<lambda>i. xor_char (s ! i) (mask4 ! (i mod 4))) [0..<length s]"

lemma length_masked [simp]: "length (masked mask4 s) = length s"
  by (simp add: masked_def)

lemma nth_masked [simp]: "i < length s \<Longrightarrow> masked mask4 s ! i = xor_char (s ! i) (mask4 ! (i mod 4))"
  by (simp add: masked_def)

lemma xor_char_twice [simp]: "xor_char (xor_char a b) b = a"
  by (simp add: xor_char_def xor.assoc)

lemma masked_twice [simp]: "masked mask4 (masked mask4 s) = s"
  by (rule nth_equalityI) simp_all

lemma ws_pack_loop_masks:
  "length mask4 = 4 \<Longrightarrow> n \<le> length body \<Longrightarrow> i \<le> n \<Longrightarrow>
     ws_pack_loop body n mask4 i = Some (take i body @ drop i (masked mask4 (take n body)) @ drop n body)"
proof (induction "n - i" arbitrary: i body)
  case 0
  then show ?case by (simp add: ws_pack_loop.simps)
next
  case (Suc k)
  then have i: "i < n" by simp
  let ?b = "body[i := xor_char (body ! i) (mask4 ! (i mod 4))]"
  have "ws_pack_loop body n mask4 i = ws_pack_loop ?b n mask4 (i + 1)"
    using i Suc.prems by (simp add: ws_pack_loop.simps [of body])
  also have "\<dots> = Some (take (i + 1) ?b @ drop (i + 1) (masked mask4 (take n ?b)) @ drop n ?b)"
    using Suc.hyps(2) i Suc.prems by (intro Suc.hyps(1)) simp_all
  also have "take (i + 1) ?b @ drop (i + 1) (masked mask4 (take n ?b)) @ drop n ?b
      = take i body @ drop i (masked mask4 (take n body)) @ drop n body"
  proof -
    have "drop (i + 1) (masked mask4 (take n ?b)) = drop (i + 1) (masked mask4 (take n body))"
      using i Suc.prems(2) by (intro nth_equalityI) (simp_all add: min_absorb2)
    moreover have "drop i (masked mask4 (take n body))
        = xor_char (body ! i) (mask4 ! (i mod 4)) # drop (i + 1) (masked mask4 (take n body))"
      using i Suc.prems(2) by (subst Cons_nth_drop_Suc [symmetric]) simp_all
    ultimately show ?thesis using i Suc.prems(2) by (simp add: take_Suc_conv_app_nth)
  qed
  finally show ?case .
qed

lemma parser_ws_pack_masks:
  "length mask4 = 4 \<Longrightarrow> n \<le> length body \<Longrightarrow>
     parser_ws_pack body n mask4 = Some (masked mask4 (take n body) @ drop n body)"
  using ws_pack_loop_masks [of mask4 n body 0] by (simp add: parser_ws_pack_def)

section \<open>Frames\<close>

text \<open>The length field of a client frame after RFC 6455: the mask bit, and the length in network byte order.\<close>

definition net_bytes :: "nat \<Rightarrow> nat \<Rightarrow> char list" where
  "net_bytes k n = map (\<lambda>i. char_of (n div 256 ^ (k - 1 - i) mod 256)) [0..<k]"

definition length_field :: "nat \<Rightarrow> char list" where
  "length_field n =
     (if n < 126 then [char_of (128 + n)]
      else if n < 65536 then CHR 0xFE # net_bytes 2 n
      else CHR 0xFF # net_bytes 8 n)"

definition client_frame :: "char \<Rightarrow> char list \<Rightarrow> char list \<Rightarrow> char list" where
  "client_frame opcode mask4 payload = opcode # length_field (length payload) @ mask4 @ masked mask4 payload"

definition header_length :: "nat \<Rightarrow> nat" where
  "header_length n = 1 + length (length_field n) + 4"


lemma length_net_bytes [simp]: "length (net_bytes k n) = k"
  by (simp add: net_bytes_def)

lemma nth_net_bytes [simp]: "i < k \<Longrightarrow> net_bytes k n ! i = char_of (n div 256 ^ (k - 1 - i) mod 256)"
  by (simp add: net_bytes_def)

lemma length_client_frame [simp]:
  "length mask4 = 4 \<Longrightarrow> length (client_frame opcode mask4 payload) = header_length (length payload) + length payload"
  by (simp add: client_frame_def header_length_def)

lemma load_in [simp]: "i < length m \<Longrightarrow> load m i = Some (of_nat (ord (m ! i)))"
  by (simp add: load_def)

lemma load_out [simp]: "length m \<le> i \<Longrightarrow> load m i = None"
  by (simp add: load_def)

text \<open>The masked length byte of the three kinds of frames.\<close>

lemma and_7f: "(of_nat n :: u32) AND 0x7f = of_nat (n mod 128)"
proof -
  have "(0x7f :: u32) = mask 7" by (simp add: mask_eq_exp_minus_1)
  then have "(of_nat n :: u32) AND 0x7f = take_bit 7 (of_nat n)" by (simp add: take_bit_eq_mask)
  also have "\<dots> = of_nat (n mod 128)" by (simp add: take_bit_of_nat take_bit_nat_def)
  finally show ?thesis .
qed

lemma load_range: "load m i = Some b \<Longrightarrow> \<exists>k < 256. b = of_nat k"
  by (force simp: load_def)

lemma push_bit_8: "push_bit 8 (of_nat b :: u32) = of_nat (256 * b)"
  by (simp add: push_bit_eq_mult)

lemma or_shift_8: "a < 256 \<Longrightarrow> (of_nat a :: u32) OR push_bit 8 (of_nat b) = of_nat (a + 256 * b)"
proof -
  assume a: "a < 256"
  have "(of_nat a :: u32) AND push_bit 8 (of_nat b) = 0"
  proof (rule bit_eqI)
    fix k
    have "\<not> bit a k" if "8 \<le> k"
    proof -
      have "a < 2 ^ k" using a that power_increasing [of 8 k "2::nat"] by simp
      then show ?thesis by (simp add: bit_iff_odd)
    qed
    then show "bit ((of_nat a :: u32) AND push_bit 8 (of_nat b)) k = bit (0 :: u32) k"
      by (auto simp: bit_simps)
  qed
  then have "(of_nat a :: u32) OR push_bit 8 (of_nat b) = of_nat a + push_bit 8 (of_nat b)"
    by (rule disjunctive_add_eq_or [symmetric])
  then show ?thesis by (simp add: push_bit_8)
qed

lemma load16_in:
  "i + 1 < length m \<Longrightarrow> load16 m i = Some (of_nat (ord (m ! i) + 256 * ord (m ! (i + 1))))"
  by (simp add: load16_def or_shift_8 del: of_nat_add of_nat_mult)


text \<open>A 32-bit value is zero only when its four bytes are.\<close>

lemma or_eq_zero: "(a :: u32) OR b = 0 \<longleftrightarrow> a = 0 \<and> b = 0"
  by (auto simp: bit_eq_iff bit_simps)

lemma of_nat_u32_zero: "n < 2 ^ 32 \<Longrightarrow> (of_nat n :: u32) = 0 \<longleftrightarrow> n = 0"
  by (auto simp: word_of_nat_eq_0_iff dest: dvd_imp_le)

lemma push_byte_zero: "b < 256 \<Longrightarrow> j \<le> 24 \<Longrightarrow> push_bit j (of_nat b :: u32) = 0 \<longleftrightarrow> b = 0"
proof -
  assume b: "b < 256" and j: "j \<le> 24"
  have "b * 2 ^ j < 256 * 2 ^ j" using b by simp
  also have "256 * 2 ^ j \<le> 256 * (2 :: nat) ^ 24"
    using power_increasing [OF j, of "2 :: nat"] by simp
  finally have "b * 2 ^ j < 2 ^ 32" by simp
  moreover have "push_bit j (of_nat b :: u32) = of_nat (b * 2 ^ j)" by (simp add: push_bit_eq_mult)
  ultimately show ?thesis by (simp add: of_nat_u32_zero del: of_nat_mult)
qed

lemma of_nat_ord_zero: "(of_nat (ord c) :: u32) = 0 \<longleftrightarrow> ord c = 0"
  using ord_less_256 [of c] less_trans [of "ord c" 256 "2 ^ 32"] by (intro of_nat_u32_zero) simp

lemma load32_zero:
  assumes "i + 3 < length m"
  shows "\<exists>v. load32 m i = Some v \<and> (v = 0 \<longleftrightarrow> (\<forall>k < 4. ord (m ! (i + k)) = 0))"
proof -
  have "(\<forall>k < 4. ord (m ! (i + k)) = 0) \<longleftrightarrow>
      ord (m ! i) = 0 \<and> ord (m ! (i + 1)) = 0 \<and> ord (m ! (i + 2)) = 0 \<and> ord (m ! (i + 3)) = 0"
    by (auto simp: less_Suc_eq numeral_eq_Suc)
  with assms show ?thesis
    by (simp add: load32_def or_eq_zero push_byte_zero of_nat_ord_zero)
qed

section \<open>The size of a frame\<close>

lemma small_len: "n < 126 \<Longrightarrow> (128 + of_nat n :: u32) AND 0x7f = of_nat n"
  using and_7f [of "128 + n"] by simp

lemma of_nat_le_125: "n < 126 \<Longrightarrow> (of_nat n :: u32) \<le> 125"
  by (simp add: word_le_nat_alt unat_of_nat take_bit_nat_eq_self)

lemma recv_ws_header_small:
  "length mask4 = 4 \<Longrightarrow> length payload < 126 \<Longrightarrow> 6 \<le> pkg_len \<Longrightarrow>
     recv_ws_header (client_frame opcode mask4 payload @ rest) pkg_len s h
       = Some (0, of_nat (6 + length payload), 6)"
  by (simp add: recv_ws_header_def Let_def client_frame_def length_field_def small_len of_nat_le_125)

lemma net_bytes_2: "net_bytes 2 n = [char_of (n div 256 mod 256), char_of (n mod 256)]"
  by (simp add: net_bytes_def upt_rec)

lemma medium_len: "load (a # CHR 0xFE # m) 1 = Some 254" "(254 :: u32) AND 0x7f = 126" "\<not> (126 :: u32) \<le> 125"
  by simp_all

lemma recv_ws_header_medium:
  "length mask4 = 4 \<Longrightarrow> 126 \<le> length payload \<Longrightarrow> length payload < 65536 \<Longrightarrow> 8 \<le> pkg_len \<Longrightarrow>
     recv_ws_header (client_frame opcode mask4 payload @ rest) pkg_len s h
       = Some (0, of_nat (8 + (length payload div 256 + 256 * (length payload mod 256))), 8)"
  by (simp add: recv_ws_header_def Let_def client_frame_def length_field_def load16_in medium_len net_bytes_2)

text \<open>Only a length with two equal bytes survives the byte order.\<close>

lemma swapped_length_eq:
  assumes "n < 65536"
  shows "n div 256 + 256 * (n mod 256) = n \<longleftrightarrow> n div 256 = n mod (256 :: nat)"
proof -
  have "n = 256 * (n div 256) + n mod 256" by simp
  then show ?thesis by arith
qed

lemma net_bytes_low_word:
  assumes "0 < n" "n < 2 ^ 32"
  shows "\<exists>k < 4. ord (net_bytes 8 n ! (4 + k)) \<noteq> 0"
proof (rule ccontr)
  assume "\<not> ?thesis"
  then have z: "\<And>k. k < 4 \<Longrightarrow> n div 256 ^ (3 - k) mod 256 = 0" by auto
  from z [of 0] z [of 1] z [of 2] z [of 3] have "n div 256 ^ 3 mod 256 = 0" "n div 256 ^ 2 mod 256 = 0"
    "n div 256 mod 256 = 0" "n mod 256 = 0" by simp_all
  with assms show False by simp
qed

lemma recv_ws_header_large:
  assumes "length mask4 = 4" "65536 \<le> length payload" "length payload < 2 ^ 32" "14 \<le> pkg_len"
  shows "recv_ws_header (client_frame opcode mask4 payload @ rest) pkg_len s h = Some (- 1, s, h)"
proof -
  let ?m = "client_frame opcode mask4 payload @ rest"
  have m: "?m = opcode # CHR 0xFF # net_bytes 8 (length payload) @ mask4 @ masked mask4 payload @ rest"
    using assms(2) by (simp add: client_frame_def length_field_def)
  have len: "14 \<le> length ?m" using assms(1) by (simp add: m)
  have pos: "0 < length payload" using assms(2) by linarith
  obtain low where low: "load32 ?m 2 = Some low" using load32_zero [of 2 ?m] len by auto
  obtain k where k: "k < 4" "ord (net_bytes 8 (length payload) ! (4 + k)) \<noteq> 0"
    using net_bytes_low_word [OF pos assms(3)] by blast
  have "?m ! (6 + k) = net_bytes 8 (length payload) ! (4 + k)"
    using k(1) by (simp add: m nth_append)
  then obtain hi where hi: "load32 ?m 6 = Some hi" "hi \<noteq> 0"
    using load32_zero [of 6 ?m] len k by auto
  have "load ?m 1 = Some 255" by (simp add: m)
  then show ?thesis using assms(4) low hi and_7f [of 255] by (simp add: recv_ws_header_def)
qed

lemma recv_ws_header_incomplete:
  assumes "pkg_len \<le> length m" "recv_ws_header m pkg_len s h = Some (r, s', h')" "r \<noteq> 0"
  shows "s' = s \<and> h' = h"
  using assms(2,3) by (auto simp: recv_ws_header_def Let_def bind_eq_Some_conv split: if_splits)

lemma recv_ws_header_total:
  assumes "pkg_len \<le> length m"
  shows "\<exists>r s' h'. recv_ws_header m pkg_len s h = Some (r, s', h')"
proof (cases "pkg_len < 14")
  case True
  with assms show ?thesis by (auto simp: recv_ws_header_def Let_def load16_in)
next
  case False
  with assms obtain a b where "load32 m 2 = Some a" "load32 m 6 = Some b"
    using load32_zero [of 2 m] load32_zero [of 6 m] by auto
  with False assms show ?thesis by (auto simp: recv_ws_header_def Let_def load16_in)
qed


text \<open>The masked frame of the examples in RFC 6455, section 5.7.\<close>

definition rfc_frame :: "char list" where
  "rfc_frame = [CHR 0x81, CHR 0x85, CHR 0x37, CHR 0xFA, CHR 0x21, CHR 0x3D, CHR 0x7F, CHR 0x9F, CHR 0x4D, CHR 0x51, CHR 0x58]"

lemma eq_char_of: "c = char_of (n :: nat) \<longleftrightarrow> take_bit 8 n = ord c"
  by (metis char_of_eq_iff)

lemma rfc_frame_eq: "rfc_frame = client_frame CHR 0x81 [CHR 0x37, CHR 0xFA, CHR 0x21, CHR 0x3D] ''Hello''"
  by (simp add: rfc_frame_def client_frame_def length_field_def masked_def upt_rec xor_char_def
      byte_of_def char_of_byte_def eq_char_of)

text \<open>
  C23: A client frame of RFC 6455 with fewer than 126 bytes of payload at the start of the receive
  buffer is recognised with its full size and its header of 6 bytes, and \<open>parser_ws_pack\<close>, called on
  what follows the header with the mask in its last four bytes, restores the payload.
\<close>

theorem small_frame_roundtrip:
  assumes "length mask4 = 4" "length payload < 126"
    and "frame = client_frame opcode mask4 payload"
  shows "recv_ws_header (frame @ rest) (length (frame @ rest)) 0 0 = Some (0, of_nat (length frame), 6)
    \<and> parser_ws_pack (drop 6 frame) (length frame - 6) (take 4 (drop 2 frame)) = Some payload"
proof -
  have f: "frame = opcode # char_of (128 + length payload) # mask4 @ masked mask4 payload"
    using assms(2,3) by (simp add: client_frame_def length_field_def)
  have "recv_ws_header (frame @ rest) (length (frame @ rest)) 0 0 = Some (0, of_nat (length frame), 6)"
    unfolding assms(3)
    by (subst recv_ws_header_small) (use assms in \<open>simp_all add: header_length_def length_field_def\<close>)
  moreover have "parser_ws_pack (drop 6 frame) (length frame - 6) (take 4 (drop 2 frame)) = Some payload"
    using assms(1) by (simp add: f parser_ws_pack_masks)
  ultimately show ?thesis ..
qed

theorem small_frame_roundtrip_witness:
  "recv_ws_header (rfc_frame @ ''xy'') (length (rfc_frame @ ''xy'')) 0 0 = Some (0, of_nat (length rfc_frame), 6)
    \<and> parser_ws_pack (drop 6 rfc_frame) (length rfc_frame - 6) (take 4 (drop 2 rfc_frame)) = Some ''Hello''"
  by (rule small_frame_roundtrip [OF _ _ rfc_frame_eq]) simp_all

text \<open>
  A frame with a payload of 126 to 65535 bytes carries its length in network byte order, but the
  code reads it in the opposite order: the size it reports is right only when both bytes are equal.
\<close>

theorem medium_frame_size:
  assumes "length mask4 = 4" "126 \<le> length payload" "length payload < 65536"
    and "frame = client_frame opcode mask4 payload"
  shows "\<exists>size. recv_ws_header (frame @ rest) (length (frame @ rest)) 0 0 = Some (0, size, 8)
    \<and> unat size = 8 + length payload div 256 + 256 * (length payload mod 256)
    \<and> (unat size = length frame \<longleftrightarrow> length payload div 256 = length payload mod 256)"
proof -
  let ?n = "8 + (length payload div 256 + 256 * (length payload mod 256))"
  have len: "length frame = 8 + length payload"
    using assms by (simp add: header_length_def length_field_def)
  have "recv_ws_header (frame @ rest) (length (frame @ rest)) 0 0 = Some (0, of_nat ?n, 8)"
    unfolding assms(4)
    by (subst recv_ws_header_medium) (use assms in \<open>simp_all add: header_length_def length_field_def\<close>)
  moreover have "?n < 2 ^ 32" using assms(3) by simp
  then have "unat (of_nat ?n :: u32) = ?n" by (simp add: unat_of_nat take_bit_nat_eq_self del: of_nat_add)
  ultimately show ?thesis using swapped_length_eq [OF assms(3)] len by auto
qed

theorem medium_frame_size_witness:
  "\<exists>size. recv_ws_header (client_frame CHR 0x82 ''abcd'' (replicate 200 CHR ''x'')) 208 0 0 = Some (0, size, 8)
    \<and> unat size = 51208"
  using medium_frame_size [of "''abcd''" "replicate 200 CHR ''x''" _ "CHR 0x82" "[]", OF _ _ _ refl]
  by (auto simp: client_frame_def length_field_def simp del: masked_def)

text \<open>
  A frame with 64 KiB of payload or more, below 4 GiB, is always refused, and a refusal leaves the
  size and the header size of the caller as they were.
\<close>

theorem large_frame_refused:
  assumes "length mask4 = 4" "65536 \<le> length payload" "length payload < 2 ^ 32"
  shows "recv_ws_header (client_frame opcode mask4 payload @ rest)
      (length (client_frame opcode mask4 payload @ rest)) pkg_size header_size = Some (- 1, pkg_size, header_size)"
  by (rule recv_ws_header_large) (use assms in \<open>simp_all add: header_length_def length_field_def\<close>)

theorem large_frame_refused_witness:
  "recv_ws_header (client_frame CHR 0x82 ''abcd'' (replicate 65536 CHR ''x'')) 65550 0 0 = Some (- 1, 0, 0)"
  using large_frame_refused [of "''abcd''" "replicate 65536 CHR ''x''" "CHR 0x82" "[]" 0 0]
  by (simp add: header_length_def length_field_def)

end
