(* ===== verification/NetSession.thy ===== *)
theory NetSession
  imports DataBuffer WsFrame
begin

text \<open>
  A session of \<open>src/ServerEngine/baseinet/CNetSession .cpp\<close> behind its handshake: \<open>ExtractBuffer\<close>, which
  cuts the bytes of the receive buffer into packets, with the packet that spans several receives, \<open>Close\<close>
  and \<open>DoReceive\<close>.  The session works on the allocator of \<open>DataBuffer\<close>; what it asks of
  its socket and of its data handler is recorded.  \<open>None\<close> is an access outside a buffer or a failed
  assertion.  \<open>deframe\<close> says on plain byte strings what \<open>ExtractBuffer\<close> does, and \<open>ExtractBuffer\<close> is
  proved to do that within its buffers.
\<close>

declare split_paired_All [simp del] split_paired_Ex [simp del]

section \<open>The state\<close>

definition RECV_BUF_SIZE :: nat where "RECV_BUF_SIZE = 8192"

definition MAX_PKG_SIZE :: u32 where "MAX_PKG_SIZE = push_bit 16 1 - 1"

text \<open>
  \<open>m_pBufPos\<close> is an index of \<open>m_pRecvBuf\<close>; \<open>m_pDataHandler\<close> says whether the pointer is set.
\<close>

record net_session =
  m_dwSessionID :: u32
  m_pCurRecvBuffer :: "handle option"
  m_pCurBufferSize :: u32
  m_pRecvBuf :: "char list"
  m_pBufPos :: nat
  m_dwDataLen :: u32
  m_pDataHandler :: bool
  m_IsHandler :: bool
  lockfree_queue :: "handle list"
  key_migic :: "char list"
  accept_buffer :: "char list"

definition CNetSession :: "(nat \<Rightarrow> char) \<Rightarrow> net_session" where
  "CNetSession junk = \<lparr>m_dwSessionID = - 1, m_pCurRecvBuffer = None, m_pCurBufferSize = 0,
     m_pRecvBuf = replicate RECV_BUF_SIZE NUL, m_pBufPos = 0, m_dwDataLen = 0, m_pDataHandler = False,
     m_IsHandler = False, lockfree_queue = [], key_migic = replicate 256 NUL, accept_buffer = map junk [0..<256]\<rparr>"

datatype handler_call =
    OnDataHandle handle u32 u32
  | OnCloseConnect u32

text \<open>The allocator, the calls to the data handler so far, the socket, and the bytes written to it.\<close>

record net_env =
  pool :: allocator
  calls :: "handler_call list"
  socket_open :: bool
  written :: "char list list"

definition SetDataHandler :: "bool \<Rightarrow> net_session \<Rightarrow> net_session option" where
  "SetDataHandler handler s = (if handler then Some (s\<lparr>m_pDataHandler := True\<rparr>) else None)"

definition GetTotalLenth :: "net_env \<Rightarrow> handle \<Rightarrow> u32 option" where
  "GetTotalLenth e h = map_option m_nDataLen (buffer_at (pool e) h)"

definition Close :: "net_session \<Rightarrow> net_env \<Rightarrow> net_session \<times> net_env" where
  "Close s e =
     (let e1 = e\<lparr>socket_open := False\<rparr>;
          e2 = (if m_pDataHandler s then e1\<lparr>calls := calls e1 @ [OnCloseConnect (m_dwSessionID s)]\<rparr> else e1)
      in (s\<lparr>m_IsHandler := False\<rparr>, e2))"

text \<open>The call \<open>m_pDataHandler->OnDataHandle\<close>.\<close>

definition dispatch :: "handle \<Rightarrow> u32 \<Rightarrow> net_session \<Rightarrow> net_env \<Rightarrow> net_env option" where
  "dispatch h header_size s e =
     (if m_pDataHandler s then Some (e\<lparr>calls := calls e @ [OnDataHandle h header_size (m_dwSessionID s)]\<rparr>) else None)"

text \<open>\<open>memcpy (p->GetBuffer () + i, m_pBufPos, n)\<close> and \<open>p->SetTotalLenth (t)\<close>.\<close>

definition fill :: "handle \<Rightarrow> u32 \<Rightarrow> u32 \<Rightarrow> u32 \<Rightarrow> net_session \<Rightarrow> net_env \<Rightarrow> net_env option" where
  "fill h i n t s e = do {
     A \<leftarrow> do { A1 \<leftarrow> write_at h (unat i) (drop (m_pBufPos s) (m_pRecvBuf s)) (unat n) (pool e); set_total h t A1 };
     Some (e\<lparr>pool := A\<rparr>) }"

section \<open>\<open>ExtractBuffer\<close>\<close>

text \<open>The packet under way; the first component of the result says that the loop is left.\<close>

definition continue_packet :: "handle \<Rightarrow> u32 \<Rightarrow> net_session \<Rightarrow> net_env \<Rightarrow> (bool \<times> net_session \<times> net_env) option" where
  "continue_packet h header_size s e = do {
     t \<leftarrow> GetTotalLenth e h;
     if t + m_dwDataLen s < m_pCurBufferSize s then do {
       e1 \<leftarrow> fill h t (m_dwDataLen s) (t + m_dwDataLen s) s e;
       Some (True, s\<lparr>m_pBufPos := 0, m_dwDataLen := 0\<rparr>, e1) }
     else do {
       let n = m_pCurBufferSize s - t;
       e1 \<leftarrow> fill h t n (m_pCurBufferSize s) s e;
       e2 \<leftarrow> dispatch h header_size s e1;
       Some (False, s\<lparr>m_dwDataLen := m_dwDataLen s - n, m_pBufPos := m_pBufPos s + unat n, m_pCurRecvBuffer := None\<rparr>, e2) } }"

text \<open>A new buffer for \<open>sz\<close> bytes with the first \<open>n\<close> bytes at \<open>m_pBufPos\<close> in it.\<close>

definition new_packet :: "(nat \<Rightarrow> char) \<Rightarrow> u32 \<Rightarrow> u32 \<Rightarrow> net_session \<Rightarrow> net_env \<Rightarrow> (handle \<times> net_env) option" where
  "new_packet junk sz n s e = do {
     (h, A) \<leftarrow> Allocator_AllocDataBuff junk (int (unat sz)) (pool e);
     e' \<leftarrow> fill h 0 n n s (e\<lparr>pool := A\<rparr>);
     Some (h, e') }"

definition next_packet :: "(nat \<Rightarrow> char) \<Rightarrow> u32 \<Rightarrow> u32 \<Rightarrow> net_session \<Rightarrow> net_env \<Rightarrow> (bool \<times> net_session \<times> net_env) option" where
  "next_packet junk dwPacketSize header_size s e =
     (if MAX_PKG_SIZE \<le> dwPacketSize then Some (True, Close s e)
      else if m_dwDataLen s < dwPacketSize \<and> dwPacketSize < of_nat RECV_BUF_SIZE then Some (True, s, e)
      else if dwPacketSize \<le> m_dwDataLen s then do {
        (h, e1) \<leftarrow> new_packet junk dwPacketSize dwPacketSize s e;
        e2 \<leftarrow> dispatch h header_size s e1;
        Some (True, s\<lparr>m_dwDataLen := m_dwDataLen s - dwPacketSize, m_pBufPos := m_pBufPos s + unat dwPacketSize\<rparr>, e2) }
      else do {
        (h, e1) \<leftarrow> new_packet junk dwPacketSize (m_dwDataLen s) s e;
        Some (False, s\<lparr>m_dwDataLen := 0, m_pBufPos := 0, m_pCurRecvBuffer := Some h, m_pCurBufferSize := dwPacketSize\<rparr>, e1) })"

definition extract_step :: "(nat \<Rightarrow> char) \<Rightarrow> net_session \<Rightarrow> net_env \<Rightarrow> (bool \<times> net_session \<times> net_env) option" where
  "extract_step junk s e = do {
     (r, pkg_size, header_size) \<leftarrow> recv_ws_header (drop (m_pBufPos s) (m_pRecvBuf s)) (unat (m_dwDataLen s)) 0 0;
     (stop, s1, e1) \<leftarrow> (case m_pCurRecvBuffer s of
         None \<Rightarrow> Some (False, s, e)
       | Some h \<Rightarrow> continue_packet h header_size s e);
     if stop then Some (True, s1, e1) else next_packet junk pkg_size header_size s1 e1 }"

partial_function (option) extract_loop :: "(nat \<Rightarrow> char) \<Rightarrow> net_session \<Rightarrow> net_env \<Rightarrow> (net_session \<times> net_env) option" where
  "extract_loop junk s e =
     Option.bind (extract_step junk s e) (\<lambda>(stop, s1, e1). if stop then Some (s1, e1) else extract_loop junk s1 e1)"

definition ExtractBuffer :: "(nat \<Rightarrow> char) \<Rightarrow> net_session \<Rightarrow> net_env \<Rightarrow> (net_session \<times> net_env) option" where
  "ExtractBuffer junk s e =
     (if m_dwDataLen s = 0 then Some (s, e)
      else do {
        (s1, e1) \<leftarrow> extract_loop junk s e;
        m \<leftarrow> (if 0 < m_dwDataLen s1
             then memcpy (m_pRecvBuf s1) 0 (drop (m_pBufPos s1) (m_pRecvBuf s1)) (unat (m_dwDataLen s1))
             else Some (m_pRecvBuf s1));
        Some (s1\<lparr>m_pRecvBuf := m, m_pBufPos := 0\<rparr>, e1) })"

section \<open>The specification on byte strings\<close>

datatype frame_event = Packet "char list" u32 | Disconnect

definition header_of :: "char list \<Rightarrow> u32 \<times> u32" where
  "header_of d = (case recv_ws_header d (length d) 0 0 of None \<Rightarrow> (0, 0) | Some (r, sz, header) \<Rightarrow> (sz, header))"

text \<open>
  The packet under way has size \<open>n\<close> and the bytes \<open>got\<close>.  The result: the events, the packet under way
  and the bytes left.
\<close>

type_synonym pending = "(nat \<times> char list) option"

definition next_frame :: "u32 \<Rightarrow> u32 \<Rightarrow> char list \<Rightarrow> frame_event list \<times> pending \<times> char list" where
  "next_frame sz header d =
     (if MAX_PKG_SIZE \<le> sz then ([Disconnect], None, d)
      else if unat sz \<le> length d then ([Packet (take (unat sz) d) header], None, drop (unat sz) d)
      else if unat sz < RECV_BUF_SIZE then ([], None, d)
      else ([], Some (unat sz, d), []))"

definition deframe :: "pending \<Rightarrow> char list \<Rightarrow> frame_event list \<times> pending \<times> char list" where
  "deframe p d =
     (if d = [] then ([], p, d)
      else let (sz, header) = header_of d in
        case p of
          None \<Rightarrow> next_frame sz header d
        | Some (n, got) \<Rightarrow>
            if length got + length d < n then ([], Some (n, got @ d), [])
            else let (ev, p', d') = next_frame sz header (drop (n - length got) d)
              in (Packet (got @ take (n - length got) d) header # ev, p', d'))"

section \<open>The invariant\<close>

text \<open>The session with the packet under way and the bytes it has not extracted yet.\<close>

definition unread :: "net_session \<Rightarrow> char list" where
  "unread s = take (unat (m_dwDataLen s)) (drop (m_pBufPos s) (m_pRecvBuf s))"

definition contents :: "allocator \<Rightarrow> handle \<Rightarrow> char list" where
  "contents A h = (case buffer_at A h of None \<Rightarrow> [] | Some b \<Rightarrow> take (unat (m_nDataLen b)) (m_Buffer b))"

definition pending_of :: "net_session \<Rightarrow> net_env \<Rightarrow> pending" where
  "pending_of s e = map_option (\<lambda>h. (unat (m_pCurBufferSize s), contents (pool e) h)) (m_pCurRecvBuffer s)"

definition pending_ok :: "net_session \<Rightarrow> net_env \<Rightarrow> handle \<Rightarrow> bool" where
  "pending_ok s e h \<longleftrightarrow> live (pool e) h \<and> m_pCurBufferSize s < MAX_PKG_SIZE
     \<and> (\<exists>b. buffer_at (pool e) h = Some b \<and> m_nDataLen b < m_pCurBufferSize s \<and> unat (m_pCurBufferSize s) \<le> length (m_Buffer b))"

definition at_work :: "net_session \<Rightarrow> net_env \<Rightarrow> bool" where
  "at_work s e \<longleftrightarrow> allocator_ok (pool e) \<and> m_pDataHandler s \<and> length (m_pRecvBuf s) = RECV_BUF_SIZE
     \<and> m_pBufPos s + unat (m_dwDataLen s) \<le> RECV_BUF_SIZE \<and> (\<forall>h. m_pCurRecvBuffer s = Some h \<longrightarrow> pending_ok s e h)"

definition session_ok :: "net_session \<Rightarrow> net_env \<Rightarrow> bool" where
  "session_ok s e \<longleftrightarrow> at_work s e \<and> m_pBufPos s = 0"

primrec event_of :: "allocator \<Rightarrow> handler_call \<Rightarrow> frame_event" where
  "event_of A (OnDataHandle h header i) = Packet (contents A h) header"
| "event_of A (OnCloseConnect i) = Disconnect"

lemma length_unread [simp]: "at_work s e \<Longrightarrow> length (unread s) = unat (m_dwDataLen s)"
  by (auto simp: at_work_def unread_def)

text \<open>\<open>recv_ws_header\<close> looks at the bytes it is given only.\<close>

lemma load_take: "i < n \<Longrightarrow> load (take n m) i = load m i"
  by (simp add: load_def peek_def)

lemma load16_take: "8 \<le> n \<Longrightarrow> load16 (take n m) 2 = load16 m 2"
  by (simp add: load16_def load_take)

lemma load32_take: "14 \<le> n \<Longrightarrow> i \<le> 6 \<Longrightarrow> load32 (take n m) i = load32 m i"
  by (simp add: load32_def load_take)

lemma recv_ws_header_take: "recv_ws_header (take n m) n s h = recv_ws_header m n s h"
proof -
  consider "n < 2" | "2 \<le> n" "n < 8" | "8 \<le> n" "n < 14" | "14 \<le> n" by linarith
  then show ?thesis
    by cases (simp_all add: recv_ws_header_def Let_def load_take load16_take load32_take cong: if_cong)
qed

lemma header_of_eq:
  assumes "at_work s e"
  shows "\<exists>r. recv_ws_header (drop (m_pBufPos s) (m_pRecvBuf s)) (unat (m_dwDataLen s)) 0 0 = Some (r, header_of (unread s))"
proof -
  let ?d = "unread s"
  obtain r p h where "recv_ws_header ?d (length ?d) 0 0 = Some (r, p, h)"
    using recv_ws_header_total [of "length ?d" ?d 0 0] by auto
  moreover have "recv_ws_header ?d (length ?d) 0 0 = recv_ws_header (drop (m_pBufPos s) (m_pRecvBuf s)) (unat (m_dwDataLen s)) 0 0"
    unfolding length_unread [OF assms] by (simp add: unread_def recv_ws_header_take)
  ultimately show ?thesis by (auto simp: header_of_def)
qed

section \<open>Storing into the buffers of the pool\<close>

text \<open>The buffers held before are held still, and all but \<open>x\<close> are unchanged.\<close>

definition keeps :: "handle option \<Rightarrow> net_env \<Rightarrow> net_env \<Rightarrow> bool" where
  "keeps x e e' \<longleftrightarrow> (\<forall>h. live (pool e) h \<longrightarrow> live (pool e') h \<and> (x \<noteq> Some h \<longrightarrow> buffer_at (pool e') h = buffer_at (pool e) h))"

lemma keeps_refl [simp]: "keeps x e e"
  by (simp add: keeps_def)

lemma keeps_trans: "keeps x e e1 \<Longrightarrow> keeps None e1 e2 \<Longrightarrow> keeps x e e2"
  by (auto simp: keeps_def)

lemma keeps_pool [simp]: "keeps x e (e'\<lparr>calls := c\<rparr>) = keeps x e e'" "keeps x e (e'\<lparr>socket_open := c'\<rparr>) = keeps x e e'"
  by (simp_all add: keeps_def)

lemma fill_ok:
  assumes "allocator_ok (pool e)" "live (pool e) h" "buffer_at (pool e) h = Some b"
    and "unat i + unat n \<le> length (m_Buffer b)" "m_pBufPos s + unat n \<le> length (m_pRecvBuf s)"
  shows "\<exists>A b'. fill h i n t s e = Some (e\<lparr>pool := A\<rparr>) \<and> allocator_ok A \<and> live A h \<and> buffer_at A h = Some b'
    \<and> take (unat i + unat n) (m_Buffer b') = take (unat i) (m_Buffer b) @ take (unat n) (drop (m_pBufPos s) (m_pRecvBuf s))
    \<and> length (m_Buffer b') = length (m_Buffer b) \<and> m_nDataLen b' = t \<and> keeps (Some h) e (e\<lparr>pool := A\<rparr>)"
proof -
  have "unat n \<le> length (drop (m_pBufPos s) (m_pRecvBuf s))" using assms(5) by simp
  from allocator.append_bytes [OF assms(1-4) this, of t] obtain A b' where
    w: "do { A1 \<leftarrow> write_at h (unat i) (drop (m_pBufPos s) (m_pRecvBuf s)) (unat n) (pool e); set_total h t A1 } = Some A"
    and A: "allocator_ok A" "buffer_at A h = Some b'"
      "take (unat i + unat n) (m_Buffer b') = take (unat i) (m_Buffer b) @ take (unat n) (drop (m_pBufPos s) (m_pRecvBuf s))"
      "length (m_Buffer b') = length (m_Buffer b)" "m_nDataLen b' = t"
      "\<forall>h'. live A h' = live (pool e) h' \<and> (h' \<noteq> h \<longrightarrow> buffer_at A h' = buffer_at (pool e) h')"
    by blast
  have "fill h i n t s e = Some (e\<lparr>pool := A\<rparr>)" unfolding fill_def w by simp
  moreover have "live A h" "keeps (Some h) e (e\<lparr>pool := A\<rparr>)" using A(6) assms(2) by (auto simp: keeps_def)
  ultimately show ?thesis using A by blast
qed

lemma new_packet_ok:
  assumes "allocator_ok (pool e)" "sz < MAX_PKG_SIZE" "n \<le> sz" "m_pBufPos s + unat n \<le> length (m_pRecvBuf s)"
  shows "\<exists>h A b. new_packet junk sz n s e = Some (h, e\<lparr>pool := A\<rparr>) \<and> allocator_ok A \<and> \<not> live (pool e) h \<and> live A h
    \<and> buffer_at A h = Some b \<and> take (unat n) (m_Buffer b) = take (unat n) (drop (m_pBufPos s) (m_pRecvBuf s))
    \<and> unat sz \<le> length (m_Buffer b) \<and> m_nDataLen b = n \<and> keeps None e (e\<lparr>pool := A\<rparr>)"
proof -
  have "unat sz < 65535" using assms(2) by (simp add: MAX_PKG_SIZE_def word_less_nat_alt)
  then have "int (unat sz) < 10383360" by linarith
  moreover have "unat n \<le> unat sz" using assms(3) by (simp add: word_le_nat_alt)
  moreover have "unat n \<le> length (drop (m_pBufPos s) (m_pRecvBuf s))" using assms(4) by simp
  ultimately obtain h A b where A: "do { (h, A1) \<leftarrow> Allocator_AllocDataBuff junk (int (unat sz)) (pool e);
      A2 \<leftarrow> write_at h 0 (drop (m_pBufPos s) (m_pRecvBuf s)) (unat n) A1; A3 \<leftarrow> set_total h (of_nat (unat n)) A2; Some (h, A3) } = Some (h, A)"
    "allocator_ok A" "\<not> live (pool e) h" "live A h" "buffer_at A h = Some b"
    "take (unat n) (m_Buffer b) = take (unat n) (drop (m_pBufPos s) (m_pRecvBuf s))"
    "unat sz \<le> length (m_Buffer b)" "m_nDataLen b = of_nat (unat n)"
    "\<forall>h'. h' \<noteq> h \<longrightarrow> buffer_at A h' = buffer_at (pool e) h' \<and> live A h' = live (pool e) h'"
    using allocator.store_bytes [OF assms(1), where junk = junk] by blast
  from A(1) have "new_packet junk sz n s e = Some (h, e\<lparr>pool := A\<rparr>)"
    by (auto simp: new_packet_def fill_def split: Option.bind_splits prod.splits)
  moreover have "keeps None e (e\<lparr>pool := A\<rparr>)" using A(3,9) by (auto simp: keeps_def)
  ultimately show ?thesis using A by auto
qed


section \<open>The two halves of an iteration\<close>

lemma at_work_data: "at_work s e \<Longrightarrow> unat (m_dwDataLen s) \<le> 8192"
  by (simp add: at_work_def RECV_BUF_SIZE_def)

lemma unat_add_small: "unat a + unat b < 2 ^ 32 \<Longrightarrow> unat (a + b :: u32) = unat a + unat b"
  by (simp add: unat_add_lem [THEN iffD1])

lemma pending_okE:
  assumes "at_work s e" "m_pCurRecvBuffer s = Some h"
  obtains b where "live (pool e) h" "m_pCurBufferSize s < MAX_PKG_SIZE" "buffer_at (pool e) h = Some b"
    "m_nDataLen b < m_pCurBufferSize s" "unat (m_pCurBufferSize s) \<le> length (m_Buffer b)"
    "pending_of s e = Some (unat (m_pCurBufferSize s), take (unat (m_nDataLen b)) (m_Buffer b))"
    "length (take (unat (m_nDataLen b)) (m_Buffer b)) = unat (m_nDataLen b)"
    "unat (m_nDataLen b) < unat (m_pCurBufferSize s)" "unat (m_pCurBufferSize s) < 65535"
proof -
  have "pending_ok s e h" using assms by (simp add: at_work_def)
  then obtain b where b: "live (pool e) h" "m_pCurBufferSize s < MAX_PKG_SIZE" "buffer_at (pool e) h = Some b"
    "m_nDataLen b < m_pCurBufferSize s" "unat (m_pCurBufferSize s) \<le> length (m_Buffer b)"
    by (auto simp: pending_ok_def)
  then have "unat (m_nDataLen b) < unat (m_pCurBufferSize s)" "unat (m_pCurBufferSize s) < 65535"
    by (simp_all add: word_less_nat_alt MAX_PKG_SIZE_def)
  with b assms(2) that show thesis by (simp add: pending_of_def contents_def)
qed

text \<open>The bytes received do not complete the packet.\<close>

lemma continue_more:
  assumes w: "at_work s e" and h: "m_pCurRecvBuffer s = Some h" "pending_of s e = Some (n, got)"
    and less: "length got + length (unread s) < n"
  shows "\<exists>s' e'. continue_packet h header s e = Some (True, s', e') \<and> at_work s' e' \<and> unread s' = []
    \<and> pending_of s' e' = Some (n, got @ unread s) \<and> calls e' = calls e \<and> keeps (Some h) e e' \<and> m_pCurRecvBuffer s' = Some h"
proof -
  obtain b where b: "live (pool e) h" "m_pCurBufferSize s < MAX_PKG_SIZE" "buffer_at (pool e) h = Some b"
    "unat (m_pCurBufferSize s) \<le> length (m_Buffer b)" "n = unat (m_pCurBufferSize s)"
    "got = take (unat (m_nDataLen b)) (m_Buffer b)" "length got = unat (m_nDataLen b)"
    "unat (m_nDataLen b) < n" "n < 65535"
    using pending_okE [OF w h(1)] h(2) by (metis option.inject prod.inject)
  let ?t = "m_nDataLen b" and ?d = "m_dwDataLen s"
  have d: "length (unread s) = unat ?d" using w by simp
  have sum: "unat (?t + ?d) = unat ?t + unat ?d" using less b(5,7,9) d by (intro unat_add_small) simp
  have lt: "?t + ?d < m_pCurBufferSize s" using less b(5,7) d sum by (simp add: word_less_nat_alt)
  have "m_pBufPos s + unat ?d \<le> length (m_pRecvBuf s)" "allocator_ok (pool e)" using w by (simp_all add: at_work_def)
  moreover have "unat ?t + unat ?d \<le> length (m_Buffer b)" using less b(4,5,7) d by simp
  ultimately obtain A b' where f: "fill h ?t ?d (?t + ?d) s e = Some (e\<lparr>pool := A\<rparr>)" "allocator_ok A" "live A h"
    "buffer_at A h = Some b'" "take (unat ?t + unat ?d) (m_Buffer b') = got @ unread s"
    "length (m_Buffer b') = length (m_Buffer b)" "m_nDataLen b' = ?t + ?d" "keeps (Some h) e (e\<lparr>pool := A\<rparr>)"
    using fill_ok [of e h b ?t ?d s "?t + ?d"] b(1,3,6) by (auto simp: unread_def)
  have "continue_packet h header s e = Some (True, s\<lparr>m_pBufPos := 0, m_dwDataLen := 0\<rparr>, e\<lparr>pool := A\<rparr>)"
    using b(3) lt f(1) by (simp add: continue_packet_def GetTotalLenth_def)
  moreover have "at_work (s\<lparr>m_pBufPos := 0, m_dwDataLen := 0\<rparr>) (e\<lparr>pool := A\<rparr>)"
    using w h(1) f b(2,4) lt by (simp add: at_work_def pending_ok_def)
  ultimately show ?thesis
    using f(4,5,7,8) sum h(1) b(5) by (simp add: pending_of_def contents_def unread_def)
qed

text \<open>They complete it.\<close>

lemma continue_last:
  assumes w: "at_work s e" and h: "m_pCurRecvBuffer s = Some h" "pending_of s e = Some (n, got)"
    and ge: "\<not> length got + length (unread s) < n"
  shows "\<exists>s' e'. continue_packet h header s e = Some (False, s', e') \<and> at_work s' e' \<and> m_pCurRecvBuffer s' = None
    \<and> unread s' = drop (n - length got) (unread s) \<and> calls e' = calls e @ [OnDataHandle h header (m_dwSessionID s)]
    \<and> live (pool e') h \<and> contents (pool e') h = got @ take (n - length got) (unread s) \<and> keeps (Some h) e e'
    \<and> m_dwSessionID s' = m_dwSessionID s"
proof -
  obtain b where b: "live (pool e) h" "m_pCurBufferSize s < MAX_PKG_SIZE" "buffer_at (pool e) h = Some b"
    "unat (m_pCurBufferSize s) \<le> length (m_Buffer b)" "n = unat (m_pCurBufferSize s)"
    "got = take (unat (m_nDataLen b)) (m_Buffer b)" "length got = unat (m_nDataLen b)"
    "unat (m_nDataLen b) < n" "n < 65535"
    using pending_okE [OF w h(1)] h(2) by (metis option.inject prod.inject)
  let ?t = "m_nDataLen b" and ?d = "m_dwDataLen s" and ?k = "m_pCurBufferSize s - m_nDataLen b"
  have d: "length (unread s) = unat ?d" using w by simp
  have sum: "unat (?t + ?d) = unat ?t + unat ?d"
    using b(8,9) at_work_data [OF w] by (intro unat_add_small) simp
  have lt: "\<not> ?t + ?d < m_pCurBufferSize s" using ge b(5,7) d sum by (simp add: word_less_nat_alt)
  have k: "unat ?k = n - length got" using b(5,7,8) by (simp add: unat_sub word_le_nat_alt)
  have kd: "unat ?k \<le> unat ?d" using ge b(7) d k by simp
  have pos: "m_pBufPos s + unat ?d \<le> length (m_pRecvBuf s)" "allocator_ok (pool e)" using w by (simp_all add: at_work_def)
  moreover have "unat ?t + unat ?k \<le> length (m_Buffer b)" using b(4,5,7,8) k by simp
  moreover have "m_pBufPos s + unat ?k \<le> length (m_pRecvBuf s)" using pos kd by simp
  moreover have u: "take (unat ?k) (drop (m_pBufPos s) (m_pRecvBuf s)) = take (unat ?k) (unread s)"
    using kd by (simp add: unread_def min_absorb1)
  ultimately obtain A b' where f: "fill h ?t ?k (m_pCurBufferSize s) s e = Some (e\<lparr>pool := A\<rparr>)" "allocator_ok A" "live A h"
    "buffer_at A h = Some b'" "take (unat ?t + unat ?k) (m_Buffer b') = got @ take (unat ?k) (unread s)"
    "length (m_Buffer b') = length (m_Buffer b)" "m_nDataLen b' = m_pCurBufferSize s" "keeps (Some h) e (e\<lparr>pool := A\<rparr>)"
    using fill_ok [of e h b ?t ?k s "m_pCurBufferSize s"] b(1,3,6) by auto
  let ?s = "s\<lparr>m_dwDataLen := ?d - ?k, m_pBufPos := m_pBufPos s + unat ?k, m_pCurRecvBuffer := None\<rparr>"
  let ?e = "e\<lparr>pool := A, calls := calls e @ [OnDataHandle h header (m_dwSessionID s)]\<rparr>"
  have sub: "unat (?d - ?k) = unat ?d - unat ?k" using kd by (simp add: unat_sub word_le_nat_alt)
  have "continue_packet h header s e = Some (False, ?s, ?e)"
    using b(3) lt f(1) w by (simp add: continue_packet_def GetTotalLenth_def dispatch_def at_work_def Let_def)
  moreover have "at_work ?s ?e" using w f(2) pos kd sub by (simp add: at_work_def)
  moreover have "unread ?s = drop (n - length got) (unread s)"
    using sub k by (simp add: unread_def drop_take add.commute)
  moreover have "contents A h = got @ take (n - length got) (unread s)"
    using f(4,5,7) k b(5,7,8) by (simp add: contents_def)
  ultimately show ?thesis using f(3,8) by simp
qed


text \<open>What an iteration does from \<open>s\<close>, \<open>e\<close> on, in terms of the specification.\<close>

definition all_live :: "net_env \<Rightarrow> handler_call list \<Rightarrow> bool" where
  "all_live e cs \<longleftrightarrow> (\<forall>h header i. OnDataHandle h header i \<in> set cs \<longrightarrow> live (pool e) h)"

lemma all_live_simps [simp]:
  "all_live e []" "all_live e (OnDataHandle h header i # cs) \<longleftrightarrow> live (pool e) h \<and> all_live e cs"
  "all_live e (OnCloseConnect i # cs) \<longleftrightarrow> all_live e cs"
  unfolding all_live_def list.set insert_iff handler_call.inject by blast+

definition performs :: "net_session \<times> net_env \<Rightarrow> frame_event list \<times> pending \<times> char list \<Rightarrow> net_session \<times> net_env \<Rightarrow> bool" where
  "performs se spec se' \<longleftrightarrow> (\<exists>cs. at_work (fst se') (snd se') \<and> calls (snd se') = calls (snd se) @ cs
     \<and> all_live (snd se') cs \<and> spec = (map (event_of (pool (snd se'))) cs, pending_of (fst se') (snd se'), unread (fst se')))"

lemma next_packet_ok:
  assumes w: "at_work s e" and none: "m_pCurRecvBuffer s = None"
  shows "\<exists>stop s' e'. next_packet junk sz header s e = Some (stop, s', e') \<and> keeps None e e'
    \<and> performs (s, e) (next_frame sz header (unread s)) (s', e')
    \<and> (\<not> stop \<longrightarrow> unread s' = [] \<and> m_pCurRecvBuffer s' \<noteq> None)"
proof -
  let ?d = "m_dwDataLen s"
  have d: "length (unread s) = unat ?d" "unat ?d \<le> 8192" using w at_work_data [OF w] by simp_all
  have pos: "m_pBufPos s + unat ?d \<le> length (m_pRecvBuf s)" "allocator_ok (pool e)" "m_pDataHandler s"
    using w by (simp_all add: at_work_def)
  have rbs: "(of_nat RECV_BUF_SIZE :: u32) = 8192" "unat (8192 :: u32) = 8192" by (simp_all add: RECV_BUF_SIZE_def)
  consider "MAX_PKG_SIZE \<le> sz" | "sz < MAX_PKG_SIZE" "?d < sz" "sz < 8192" | "sz < MAX_PKG_SIZE" "sz \<le> ?d"
    | "sz < MAX_PKG_SIZE" "?d < sz" "8192 \<le> sz"
    by (meson not_le)
  then show ?thesis
  proof cases
    case 1
    have "performs (s, e) (next_frame sz header (unread s)) (Close s e)"
      using 1 w none
      by (auto simp: performs_def next_frame_def Close_def Let_def at_work_def pending_of_def unread_def)
    then show ?thesis using 1 by (cases "Close s e") (auto simp: next_packet_def Close_def Let_def)
  next
    case 2
    then have "\<not> unat sz \<le> length (unread s)" "unat sz < RECV_BUF_SIZE"
      using d rbs by (simp_all add: word_less_nat_alt RECV_BUF_SIZE_def)
    then have "performs (s, e) (next_frame sz header (unread s)) (s, e)"
      using 2 w none by (simp add: performs_def next_frame_def pending_of_def not_le [symmetric])
    moreover have "next_packet junk sz header s e = Some (True, s, e)"
      using 2 rbs by (simp add: next_packet_def not_le [symmetric])
    ultimately show ?thesis by auto
  next
    case 3
    then have le: "unat sz \<le> unat ?d" by (simp add: word_le_nat_alt)
    then have "m_pBufPos s + unat sz \<le> length (m_pRecvBuf s)" using pos(1) by simp
    from new_packet_ok [OF pos(2) 3(1) order.refl this, of junk] obtain h A b where
      n: "new_packet junk sz sz s e = Some (h, e\<lparr>pool := A\<rparr>)" "allocator_ok A" "live A h" "buffer_at A h = Some b"
        "take (unat sz) (m_Buffer b) = take (unat sz) (drop (m_pBufPos s) (m_pRecvBuf s))" "m_nDataLen b = sz"
        "keeps None e (e\<lparr>pool := A\<rparr>)" by blast
    let ?s = "s\<lparr>m_dwDataLen := ?d - sz, m_pBufPos := m_pBufPos s + unat sz\<rparr>"
    let ?e = "e\<lparr>pool := A, calls := calls e @ [OnDataHandle h header (m_dwSessionID s)]\<rparr>"
    have sub: "unat (?d - sz) = unat ?d - unat sz" using 3 by (simp add: unat_sub)
    have u: "take (unat sz) (unread s) = contents A h" "drop (unat sz) (unread s) = unread ?s"
      using n(4-6) le sub by (simp_all add: contents_def unread_def min_absorb1 drop_take add.commute)
    have "at_work ?s ?e" using w n(2) pos(1) le sub none by (simp add: at_work_def)
    then have "performs (s, e) (next_frame sz header (unread s)) (?s, ?e)"
      using 3(1) le d(1) none u n(3) by (simp add: performs_def next_frame_def pending_of_def not_le [symmetric])
    moreover have "next_packet junk sz header s e = Some (True, ?s, ?e)"
      using 3 n(1) pos(3) by (simp add: next_packet_def dispatch_def not_le [symmetric])
    ultimately show ?thesis using n(7) by auto
  next
    case 4
    then have lt: "unat ?d < unat sz" "8192 \<le> unat sz" using rbs by (simp_all add: word_less_nat_alt word_le_nat_alt)
    from new_packet_ok [OF pos(2) 4(1) order.strict_implies_order [OF 4(2)] pos(1), of junk] obtain h A b where
      n: "new_packet junk sz ?d s e = Some (h, e\<lparr>pool := A\<rparr>)" "allocator_ok A" "live A h" "buffer_at A h = Some b"
        "take (unat ?d) (m_Buffer b) = take (unat ?d) (drop (m_pBufPos s) (m_pRecvBuf s))"
        "unat sz \<le> length (m_Buffer b)" "m_nDataLen b = ?d"
        "keeps None e (e\<lparr>pool := A\<rparr>)" by blast
    let ?s = "s\<lparr>m_dwDataLen := 0, m_pBufPos := 0, m_pCurRecvBuffer := Some h, m_pCurBufferSize := sz\<rparr>"
    let ?e = "e\<lparr>pool := A\<rparr>"
    have "at_work ?s ?e" using w n 4 by (simp add: at_work_def pending_ok_def)
    moreover have "pending_of ?s ?e = Some (unat sz, unread s)"
      using n(4,5,7) by (simp add: pending_of_def contents_def unread_def)
    ultimately have "performs (s, e) (next_frame sz header (unread s)) (?s, ?e)"
      using 4(1) lt d(1) by (simp add: performs_def next_frame_def RECV_BUF_SIZE_def not_le [symmetric] unread_def)
    moreover have "next_packet junk sz header s e = Some (False, ?s, ?e)"
      using 4 n(1) rbs by (simp add: next_packet_def not_le [symmetric])
    ultimately show ?thesis using n(8) by (auto simp: unread_def)
  qed
qed


text \<open>Later stores leave the packets handed out alone.\<close>

lemma events_stable:
  assumes "all_live e cs" "\<And>h. live (pool e) h \<Longrightarrow> live (pool e') h \<and> contents (pool e') h = contents (pool e) h"
  shows "map (event_of (pool e')) cs = map (event_of (pool e)) cs \<and> all_live e' cs"
  using assms
proof (induction cs)
  case (Cons c cs)
  then have "event_of (pool e') c = event_of (pool e) c" by (cases c) (simp_all add: all_live_def)
  with Cons show ?case by (auto simp: all_live_def)
qed (simp add: all_live_def)

lemma keeps_contents: "keeps None e e' \<Longrightarrow> live (pool e) h \<Longrightarrow> live (pool e') h \<and> contents (pool e') h = contents (pool e) h"
  by (simp add: keeps_def contents_def)

lemma extract_step_ok:
  assumes w: "at_work s e" and ne: "m_dwDataLen s \<noteq> 0"
  shows "\<exists>stop s' e'. extract_step junk s e = Some (stop, s', e')
    \<and> performs (s, e) (deframe (pending_of s e) (unread s)) (s', e')
    \<and> (\<not> stop \<longrightarrow> unread s' = [] \<and> m_pCurRecvBuffer s' \<noteq> None)"
proof -
  have d: "unread s \<noteq> []" using length_unread [OF w] ne by (auto simp: unat_eq_0)
  obtain r where hd: "recv_ws_header (drop (m_pBufPos s) (m_pRecvBuf s)) (unat (m_dwDataLen s)) 0 0 = Some (r, header_of (unread s))"
    using header_of_eq [OF w] by auto
  obtain sz header where h: "header_of (unread s) = (sz, header)" by (cases "header_of (unread s)")
  show ?thesis
  proof (cases "m_pCurRecvBuffer s")
    case None
    from next_packet_ok [OF w None, of junk sz header] show ?thesis
      using hd h d None by (auto simp: extract_step_def deframe_def pending_of_def)
  next
    case (Some b)
    obtain n got where p: "pending_of s e = Some (n, got)" using Some by (auto simp: pending_of_def)
    show ?thesis
    proof (cases "length got + length (unread s) < n")
      case True
      from continue_more [OF w Some p True, of header] obtain s' e' where
        c: "continue_packet b header s e = Some (True, s', e')" "at_work s' e'" "unread s' = []"
          "pending_of s' e' = Some (n, got @ unread s)" "calls e' = calls e" by blast
      then have "performs (s, e) (deframe (pending_of s e) (unread s)) (s', e')"
        using d h p True by (simp add: performs_def deframe_def)
      moreover have "extract_step junk s e = Some (True, s', e')" using hd h Some c(1) by (simp add: extract_step_def)
      ultimately show ?thesis by blast
    next
      case False
      from continue_last [OF w Some p False, of header] obtain s1 e1 where
        c: "continue_packet b header s e = Some (False, s1, e1)" "at_work s1 e1" "m_pCurRecvBuffer s1 = None"
          "unread s1 = drop (n - length got) (unread s)" "calls e1 = calls e @ [OnDataHandle b header (m_dwSessionID s)]"
          "live (pool e1) b" "contents (pool e1) b = got @ take (n - length got) (unread s)" by blast
      from next_packet_ok [OF c(2,3), of junk sz header] obtain stop s' e' where
        q: "next_packet junk sz header s1 e1 = Some (stop, s', e')" "keeps None e1 e'"
          "performs (s1, e1) (next_frame sz header (unread s1)) (s', e')"
          "\<not> stop \<longrightarrow> unread s' = [] \<and> m_pCurRecvBuffer s' \<noteq> None" by blast
      have "performs (s, e) (deframe (pending_of s e) (unread s)) (s', e')"
        using q(3) c(4-7) keeps_contents [OF q(2) c(6)] d h p False
        by (auto simp: performs_def deframe_def)
      then show ?thesis using hd h Some c(1) q(1,4) by (auto simp: extract_step_def)
    qed
  qed
qed

text \<open>A second iteration finds no bytes and leaves the packet under way as it is.\<close>

lemma extract_step_again:
  assumes w: "at_work s e" and "unread s = []" "m_pCurRecvBuffer s \<noteq> None"
    and "performs se spec (s, e)"
  shows "\<exists>s' e'. extract_step junk s e = Some (True, s', e') \<and> performs se spec (s', e')"
proof -
  obtain h where h: "m_pCurRecvBuffer s = Some h" using assms(3) by auto
  obtain n got where p: "pending_of s e = Some (n, got)" using h by (auto simp: pending_of_def)
  have "length got + length (unread s) < n"
    using pending_okE [OF w h] p assms(2) by (metis add_0_right list.size(3) option.inject prod.inject)
  from continue_more [OF w h p this, of "snd (header_of (unread s))"] obtain s' e' where
    c: "continue_packet h (snd (header_of (unread s))) s e = Some (True, s', e')" "at_work s' e'"
      "unread s' = []" "pending_of s' e' = pending_of s e" "calls e' = calls e" "keeps (Some h) e e'" "m_pCurRecvBuffer s' = Some h"
    using assms(2) p by auto
  have "live (pool e') k \<and> contents (pool e') k = contents (pool e) k" if "live (pool e) k" for k
  proof (cases "k = h")
    case True
    then have "contents (pool e') k = contents (pool e) k" using c(4,7) h by (simp add: pending_of_def)
    with that c(6) show ?thesis by (simp add: keeps_def)
  next
    case False
    with that c(6) show ?thesis by (simp add: keeps_def contents_def)
  qed
  then have "performs se spec (s', e')"
    using assms(2,4) c(2-5) events_stable [of e _ e'] by (fastforce simp: performs_def)
  moreover have "extract_step junk s e = Some (True, s', e')"
    using header_of_eq [OF w] h c(1) by (auto simp: extract_step_def split: prod.splits)
  ultimately show ?thesis by blast
qed

lemma extract_loop_ok:
  assumes w: "at_work s e" and ne: "m_dwDataLen s \<noteq> 0"
  shows "\<exists>s' e'. extract_loop junk s e = Some (s', e') \<and> performs (s, e) (deframe (pending_of s e) (unread s)) (s', e')"
proof -
  from extract_step_ok [OF w ne, of junk] obtain stop s1 e1 where
    1: "extract_step junk s e = Some (stop, s1, e1)" "performs (s, e) (deframe (pending_of s e) (unread s)) (s1, e1)"
      "\<not> stop \<longrightarrow> unread s1 = [] \<and> m_pCurRecvBuffer s1 \<noteq> None" by blast
  show ?thesis
  proof (cases stop)
    case True
    with 1 show ?thesis by (subst extract_loop.simps) simp
  next
    case False
    have "at_work s1 e1" using 1(2) by (auto simp: performs_def)
    from extract_step_again [OF this _ _ 1(2), of junk] 1(3) False obtain s2 e2 where
      "extract_step junk s1 e1 = Some (True, s2, e2)" "performs (s, e) (deframe (pending_of s e) (unread s)) (s2, e2)" by blast
    then show ?thesis using 1(1) False
      by (subst extract_loop.simps, subst extract_loop.simps) simp
  qed
qed


section \<open>\<open>ExtractBuffer\<close> against its specification\<close>

text \<open>What a call reported and left, on byte strings.\<close>

definition extracted :: "net_session \<times> net_env \<Rightarrow> net_session \<times> net_env \<Rightarrow> frame_event list \<times> pending \<times> char list" where
  "extracted se se' = (map (event_of (pool (snd se'))) (drop (length (calls (snd se))) (calls (snd se'))),
     pending_of (fst se') (snd se'), unread (fst se'))"

lemma performs_extracted: "performs se spec se' \<Longrightarrow> extracted se se' = spec"
  by (auto simp: performs_def extracted_def)

lemma extract_ok:
  assumes ok: "session_ok s e"
  shows "\<exists>s' e'. ExtractBuffer junk s e = Some (s', e') \<and> session_ok s' e'
    \<and> performs (s, e) (deframe (pending_of s e) (unread s)) (s', e')"
proof (cases "m_dwDataLen s = 0")
  case True
  then have "performs (s, e) (deframe (pending_of s e) (unread s)) (s, e)"
    using ok by (simp add: performs_def deframe_def unread_def session_ok_def)
  with ok True show ?thesis by (auto simp: ExtractBuffer_def)
next
  case False
  have w: "at_work s e" using ok by (simp add: session_ok_def)
  from extract_loop_ok [OF w False, of junk] obtain s1 e1 where
    1: "extract_loop junk s e = Some (s1, e1)" "performs (s, e) (deframe (pending_of s e) (unread s)) (s1, e1)" by blast
  then have w1: "at_work s1 e1" by (auto simp: performs_def)
  let ?p = "m_pBufPos s1" and ?d = "unat (m_dwDataLen s1)" and ?b = "m_pRecvBuf s1"
  let ?m = "if 0 < m_dwDataLen s1 then unread s1 @ drop ?d ?b else ?b"
  have len: "length ?b = RECV_BUF_SIZE" "?p + ?d \<le> length ?b" using w1 by (simp_all add: at_work_def)
  have m: "(if 0 < m_dwDataLen s1 then memcpy ?b 0 (drop ?p ?b) ?d else Some ?b) = Some ?m"
  proof -
    have "?d \<le> length ?b - ?p" "?d \<le> length ?b" using len(2) by linarith+
    then show ?thesis by (simp add: memcpy_def unread_def)
  qed
  let ?s = "s1\<lparr>m_pRecvBuf := ?m, m_pBufPos := 0\<rparr>"
  have lm: "length ?m = RECV_BUF_SIZE" using len w1 by auto
  have "take ?d ?m = unread s1"
    using w1 len by (cases "m_dwDataLen s1 = 0") (simp_all add: word_gt_0 unread_def)
  then have u: "unread ?s = unread s1" by (simp add: unread_def)
  have "session_ok ?s e1" using w1 lm by (simp add: session_ok_def at_work_def pending_ok_def)
  moreover have "performs (s, e) (deframe (pending_of s e) (unread s)) (?s, e1)"
    using 1(2) u calculation by (auto simp: performs_def session_ok_def pending_of_def)
  moreover have "ExtractBuffer junk s e = Some (?s, e1)"
    unfolding ExtractBuffer_def using False 1(1) m by simp
  ultimately show ?thesis by blast
qed

text \<open>
  C3: In every state of a session between receives, \<open>ExtractBuffer\<close> returns without leaving a buffer,
  keeps the invariant, and reports and leaves exactly what \<open>deframe\<close> says.
\<close>

theorem extract_refines:
  assumes "session_ok s e"
  shows "\<exists>s' e'. ExtractBuffer junk s e = Some (s', e') \<and> session_ok s' e'
    \<and> extracted (s, e) (s', e') = deframe (pending_of s e) (unread s)"
  using extract_ok [OF assms, of junk] performs_extracted by blast

primrec event_bytes :: "frame_event \<Rightarrow> char list" where
  "event_bytes (Packet d header) = d"
| "event_bytes Disconnect = []"

definition pending_bytes :: "pending \<Rightarrow> char list" where
  "pending_bytes p = (case p of None \<Rightarrow> [] | Some (n, got) \<Rightarrow> got)"

definition all_bytes :: "frame_event list \<times> pending \<times> char list \<Rightarrow> char list" where
  "all_bytes r = (case r of (ev, p, d) \<Rightarrow> concat (map event_bytes ev) @ pending_bytes p @ d)"

lemma next_frame_bytes: "all_bytes (next_frame sz header d) = d"
  by (simp add: next_frame_def all_bytes_def pending_bytes_def)

lemma deframe_bytes: "all_bytes (deframe p d) = pending_bytes p @ d"
proof (cases "d = []")
  case True
  then show ?thesis by (simp add: deframe_def all_bytes_def)
next
  case False
  show ?thesis
  proof (cases p)
    case None
    with False show ?thesis by (simp add: deframe_def next_frame_bytes pending_bytes_def split: prod.splits)
  next
    case (Some b)
    obtain n got where b: "b = (n, got)" by (cases b)
    obtain sz header where h: "header_of d = (sz, header)" by (cases "header_of d")
    obtain ev p' d' where n: "next_frame sz header (drop (n - length got) d) = (ev, p', d')"
      by (cases "next_frame sz header (drop (n - length got) d)")
    have "concat (map event_bytes ev) @ pending_bytes p' @ d' = drop (n - length got) d"
      using next_frame_bytes [of sz header "drop (n - length got) d"] n by (simp add: all_bytes_def)
    then show ?thesis
      using False Some b h n by (simp add: deframe_def pending_bytes_def all_bytes_def)
  qed
qed

text \<open>
  C29: No byte is lost, doubled or reordered: the packets reported, the packet under way and the bytes left
  are together the packet under way before and the bytes received.
\<close>

theorem extract_conserves_bytes:
  assumes "session_ok s e"
  shows "\<exists>s' e'. ExtractBuffer junk s e = Some (s', e')
    \<and> all_bytes (extracted (s, e) (s', e')) = pending_bytes (pending_of s e) @ unread s"
  using extract_ok [OF assms, of junk] performs_extracted deframe_bytes by fastforce


section \<open>Receiving\<close>

text \<open>
  The socket puts the bytes it reads behind those in the buffer: \<open>DoReceive\<close> gives it
  \<open>m_pRecvBuf + m_dwDataLen\<close> and the room that is left.  \<open>HandleRecvEvent\<close> begins by counting them.
\<close>

definition DoReceive :: "char list \<Rightarrow> net_session \<Rightarrow> net_session option" where
  "DoReceive bytes s =
     (if length bytes \<le> unat (of_nat RECV_BUF_SIZE - m_dwDataLen s)
      then do {
        m \<leftarrow> memcpy (m_pRecvBuf s) (unat (m_dwDataLen s)) bytes (length bytes);
        Some (s\<lparr>m_pRecvBuf := m\<rparr>) }
      else None)"

definition count_received :: "nat \<Rightarrow> net_session \<Rightarrow> net_session" where
  "count_received n s = s\<lparr>m_dwDataLen := m_dwDataLen s + of_nat n\<rparr>"

lemma receive_ok:
  assumes ok: "session_ok s e" and fits: "length bytes \<le> RECV_BUF_SIZE - unat (m_dwDataLen s)"
  shows "\<exists>s1. DoReceive bytes s = Some s1 \<and> session_ok (count_received (length bytes) s1) e
    \<and> unread (count_received (length bytes) s1) = unread s @ bytes
    \<and> pending_of (count_received (length bytes) s1) e = pending_of s e
    \<and> (m_dwDataLen (count_received (length bytes) s1) = 0 \<longleftrightarrow> m_dwDataLen s = 0 \<and> bytes = [])
    \<and> s1 = s\<lparr>m_pRecvBuf := m_pRecvBuf s1\<rparr>"
proof -
  let ?d = "unat (m_dwDataLen s)" and ?b = "m_pRecvBuf s" and ?n = "length bytes"
  have len: "length ?b = 8192" "?d \<le> 8192" "m_pBufPos s = 0" using ok by (simp_all add: session_ok_def at_work_def RECV_BUF_SIZE_def)
  then have dn: "?d + ?n \<le> 8192" using fits by (simp add: RECV_BUF_SIZE_def)
  have "m_dwDataLen s \<le> 8192" using len(2) by (simp add: word_le_nat_alt)
  then have room: "unat (of_nat RECV_BUF_SIZE - m_dwDataLen s) = 8192 - ?d" by (simp add: RECV_BUF_SIZE_def unat_sub)
  have un: "unat (of_nat ?n :: u32) = ?n" using dn by (simp add: unat_of_nat take_bit_nat_eq_self)
  have sum: "unat (m_dwDataLen s + of_nat ?n) = ?d + ?n" using dn un by (subst unat_add_small) simp_all
  let ?m = "take ?d ?b @ bytes @ drop (?d + ?n) ?b"
  let ?s = "s\<lparr>m_pRecvBuf := ?m\<rparr>"
  have "DoReceive bytes s = Some ?s"
    using dn len room by (simp add: DoReceive_def memcpy_def)
  moreover have "session_ok (count_received ?n ?s) e"
    using ok dn sum len by (simp add: session_ok_def at_work_def count_received_def pending_ok_def RECV_BUF_SIZE_def)
  moreover have "unread (count_received ?n ?s) = unread s @ bytes"
    using len dn sum by (simp add: unread_def count_received_def)
  moreover have "m_dwDataLen s + of_nat ?n = 0 \<longleftrightarrow> m_dwDataLen s = 0 \<and> bytes = []"
    using sum by (metis add_is_0 length_0_conv unat_eq_0)
  ultimately show ?thesis by (auto simp: count_received_def pending_of_def)
qed

section \<open>Frames and the packets they give\<close>

lemma header_of_small:
  "length mask4 = 4 \<Longrightarrow> length payload < 126 \<Longrightarrow>
     header_of (client_frame opcode mask4 payload @ rest) = (of_nat (6 + length payload), 6)"
  by (simp add: header_of_def recv_ws_header_small header_length_def length_field_def)

lemma deframe_small:
  assumes "length mask4 = 4" "length payload < 126" "frame = client_frame opcode mask4 payload"
  shows "deframe None (frame @ rest) = ([Packet frame 6], None, rest)"
proof -
  have l: "length frame = 6 + length payload" using assms by (simp add: header_length_def length_field_def)
  have u: "unat (of_nat (6 + length payload) :: u32) = 6 + length payload"
    using assms(2) by (simp add: unat_of_nat take_bit_nat_eq_self del: of_nat_add)
  have "\<not> MAX_PKG_SIZE \<le> of_nat (6 + length payload)"
    unfolding word_le_nat_alt u using assms(2) by (simp add: MAX_PKG_SIZE_def)
  moreover have "frame @ rest \<noteq> []" using l by auto
  ultimately show ?thesis
    using header_of_small [OF assms(1,2), of opcode rest] u l assms(3)
    by (simp add: deframe_def next_frame_def del: of_nat_add)
qed

text \<open>
  When no packet is under way and the bytes received begin with a client frame of fewer than 126 bytes
  of payload, \<open>ExtractBuffer\<close> reports this frame, whole and with its header of 6 bytes, and nothing
  else: whatever follows it, further frames too, stays in the buffer until the next receive.
\<close>

theorem small_frame_dispatched:
  assumes "session_ok s e" "m_pCurRecvBuffer s = None"
    and "length mask4 = 4" "length payload < 126" "unread s = client_frame opcode mask4 payload @ rest"
  shows "\<exists>s' e'. ExtractBuffer junk s e = Some (s', e') \<and> session_ok s' e'
    \<and> extracted (s, e) (s', e') = ([Packet (client_frame opcode mask4 payload) 6], None, rest)"
proof -
  have "pending_of s e = None" using assms(2) by (simp add: pending_of_def)
  with extract_ok [OF assms(1), of junk] assms(5) deframe_small [OF assms(3,4) refl] performs_extracted
  show ?thesis by metis
qed

text \<open>A new session with a handler and the first bytes received.\<close>

definition fresh_session :: "char list \<Rightarrow> net_session" where
  "fresh_session d = (CNetSession (\<lambda>_. NUL))\<lparr>m_dwSessionID := 1, m_pDataHandler := True,
     m_pRecvBuf := d @ replicate (RECV_BUF_SIZE - length d) NUL, m_dwDataLen := of_nat (length d)\<rparr>"

definition fresh_env :: net_env where
  "fresh_env = \<lparr>pool = CBufferAllocator, calls = [], socket_open = True, written = []\<rparr>"

lemma fresh_session_ok:
  assumes "length d \<le> 8192"
  shows "session_ok (fresh_session d) fresh_env" "m_pCurRecvBuffer (fresh_session d) = None" "unread (fresh_session d) = d"
proof -
  have u: "unat (of_nat (length d) :: u32) = length d" using assms by (simp add: unat_of_nat take_bit_nat_eq_self)
  show "session_ok (fresh_session d) fresh_env"
    using assms u by (simp add: session_ok_def at_work_def fresh_session_def fresh_env_def CNetSession_def allocator_ok_new RECV_BUF_SIZE_def)
  show "unread (fresh_session d) = d" using u by (simp add: unread_def fresh_session_def CNetSession_def)
qed (simp add: fresh_session_def CNetSession_def)

theorem small_frame_dispatched_witness:
  "\<exists>s' e'. ExtractBuffer (\<lambda>_. NUL) (fresh_session (rfc_frame @ rfc_frame)) fresh_env = Some (s', e') \<and> session_ok s' e'
    \<and> extracted (fresh_session (rfc_frame @ rfc_frame), fresh_env) (s', e') = ([Packet rfc_frame 6], None, rfc_frame)"
  unfolding rfc_frame_eq
  by (rule small_frame_dispatched [OF fresh_session_ok(1,2)]) (simp_all add: fresh_session_ok header_length_def length_field_def)

theorem extract_refines_witness:
  "\<exists>s' e'. ExtractBuffer (\<lambda>_. NUL) (fresh_session rfc_frame) fresh_env = Some (s', e') \<and> session_ok s' e'
    \<and> extracted (fresh_session rfc_frame, fresh_env) (s', e')
      = deframe (pending_of (fresh_session rfc_frame) fresh_env) (unread (fresh_session rfc_frame))"
  by (rule extract_refines [OF fresh_session_ok(1)]) (simp add: rfc_frame_def)

theorem extract_conserves_bytes_witness:
  "\<exists>s' e'. ExtractBuffer (\<lambda>_. NUL) (fresh_session ''xyz'') fresh_env = Some (s', e')
    \<and> all_bytes (extracted (fresh_session ''xyz'', fresh_env) (s', e')) = ''xyz''"
  using extract_conserves_bytes [of "fresh_session ''xyz''" fresh_env "\<lambda>_. NUL"] fresh_session_ok [of "''xyz''"]
  by (simp add: pending_of_def pending_bytes_def)

text \<open>
  A frame whose header has not arrived whole, or whose header is refused, is not waited for: an empty
  packet with header size 0 is handed out, and the bytes stay where they are, so that they are looked at
  again with every further receive.
\<close>

theorem refused_header_dispatches_empty:
  assumes "session_ok s e" "m_pCurRecvBuffer s = None"
    and "recv_ws_header (unread s) (length (unread s)) 0 0 = Some (- 1, 0, 0)" "unread s \<noteq> []"
  shows "\<exists>s' e'. ExtractBuffer junk s e = Some (s', e') \<and> session_ok s' e'
    \<and> extracted (s, e) (s', e') = ([Packet [] 0], None, unread s)"
proof -
  have "pending_of s e = None" using assms(2) by (simp add: pending_of_def)
  moreover have "header_of (unread s) = (0, 0)" using assms(3) by (simp add: header_of_def)
  then have "deframe None (unread s) = ([Packet [] 0], None, unread s)"
    using assms(4) by (simp add: deframe_def next_frame_def MAX_PKG_SIZE_def)
  ultimately show ?thesis using extract_ok [OF assms(1), of junk] performs_extracted by metis
qed

theorem refused_header_dispatches_empty_witness:
  "\<exists>s' e'. ExtractBuffer (\<lambda>_. NUL) (fresh_session [CHR 0x81, CHR 0x85]) fresh_env = Some (s', e') \<and> session_ok s' e'
    \<and> extracted (fresh_session [CHR 0x81, CHR 0x85], fresh_env) (s', e') = ([Packet [] 0], None, unread (fresh_session [CHR 0x81, CHR 0x85]))"
  by (rule refused_header_dispatches_empty [OF fresh_session_ok(1,2)])
    (simp_all add: fresh_session_ok recv_ws_header_def Let_def)

text \<open>
  The header size that goes with a packet received in several pieces is read from the last piece, as
  if that piece began with a header: 6 whenever its second byte is at most 125, mask bit aside, although
  such a packet, being larger than 8191 bytes, has a longer header.
\<close>

theorem reassembled_header_size:
  assumes "session_ok s e" "pending_of s e = Some (n, got)" "n \<le> length got + length (unread s)"
    and "6 \<le> length (unread s)" "ord (unread s ! 1) mod 128 \<le> 125"
  shows "\<exists>s' e' ev. ExtractBuffer junk s e = Some (s', e')
    \<and> fst (extracted (s, e) (s', e')) = Packet (got @ take (n - length got) (unread s)) 6 # ev"
proof -
  let ?d = "unread s"
  have "(of_nat (ord (?d ! 1)) :: u32) AND 0x7f = of_nat (ord (?d ! 1) mod 128)" by (rule and_7f)
  moreover have "(of_nat (ord (?d ! 1) mod 128) :: u32) \<le> 125" using assms(5) by (intro of_nat_le_125) simp
  ultimately have "\<exists>sz. recv_ws_header ?d (length ?d) 0 0 = Some (0, sz, 6)"
    using assms(4) by (simp add: recv_ws_header_def Let_def)
  then obtain sz where "header_of ?d = (sz, 6)" by (auto simp: header_of_def)
  then have "\<exists>ev. fst (deframe (Some (n, got)) ?d) = Packet (got @ take (n - length got) ?d) 6 # ev"
    using assms(3,4) by (auto simp: deframe_def split: prod.splits)
  then show ?thesis using extract_ok [OF assms(1), of junk] performs_extracted assms(2) by metis
qed


text \<open>A frame of 8232 bytes, and its continuation in a second receive.\<close>

definition long_frame_start :: "char list" where
  "long_frame_start = [CHR 0x82, CHR 0xFE, CHR 0x20, CHR 0x20] @ replicate 8188 CHR ''x''"

lemma deframe_long_frame_start: "deframe None long_frame_start = ([], Some (8232, long_frame_start), [])"
proof -
  have len: "length long_frame_start = 8192" by (simp add: long_frame_start_def)
  have "load long_frame_start 1 = Some 254" "load16 long_frame_start 2 = Some 0x2020"
    by (simp_all add: load16_in len) (simp_all add: long_frame_start_def)
  then have "recv_ws_header long_frame_start 8192 0 0 = Some (0, 8232, 8)"
    using medium_len(2,3) by (simp add: recv_ws_header_def Let_def)
  then have "header_of long_frame_start = (8232, 8)" by (simp add: header_of_def len)
  moreover have "long_frame_start \<noteq> []" using len by auto
  ultimately show ?thesis by (simp add: deframe_def next_frame_def len MAX_PKG_SIZE_def RECV_BUF_SIZE_def)
qed

theorem reassembled_header_size_witness:
  "\<exists>s e s' e' ev. ExtractBuffer (\<lambda>_. NUL) s e = Some (s', e') \<and> pending_of s e = Some (8232, long_frame_start)
    \<and> fst (extracted (s, e) (s', e')) = Packet (long_frame_start @ replicate 40 CHR ''A'') 6 # ev"
proof -
  have len: "length long_frame_start = 8192" by (simp add: long_frame_start_def)
  let ?s = "fresh_session long_frame_start"
  have f: "session_ok ?s fresh_env" "unread ?s = long_frame_start" "pending_of ?s fresh_env = None"
    using fresh_session_ok [of long_frame_start] len by (simp_all add: pending_of_def)
  from extract_ok [OF f(1), of "\<lambda>_. NUL"] obtain s1 e1 where
    1: "session_ok s1 e1" "extracted (?s, fresh_env) (s1, e1) = ([], Some (8232, long_frame_start), [])"
    using f(2,3) deframe_long_frame_start performs_extracted by metis
  then have p: "pending_of s1 e1 = Some (8232, long_frame_start)" "unread s1 = []" by (simp_all add: extracted_def)
  have w: "at_work s1 e1" using 1(1) by (simp add: session_ok_def)
  then have "unat (m_dwDataLen s1) = 0" using length_unread [OF w] p(2) by simp
  then obtain s2 where 2: "session_ok s2 e1" "unread s2 = replicate 40 CHR ''A''" "pending_of s2 e1 = Some (8232, long_frame_start)"
    using receive_ok [OF 1(1), of "replicate 40 CHR ''A''"] p by (auto simp: RECV_BUF_SIZE_def)
  from reassembled_header_size [OF 2(1,3), of "\<lambda>_. NUL"] 2(2) len
  have "\<exists>s' e' ev. ExtractBuffer (\<lambda>_. NUL) s2 e1 = Some (s', e')
      \<and> fst (extracted (s2, e1) (s', e')) = Packet (long_frame_start @ replicate 40 CHR ''A'') 6 # ev" by simp
  with 2(3) show ?thesis by blast
qed

end
