(* ===== verification/ServiceQueue.thy ===== *)
theory ServiceQueue
  imports NetSession
begin

text \<open>
  \<open>CServiceBase\<close> of \<open>src/ServerEngine/baseinet/CServiceBase.cpp\<close>: network threads push packets on a queue under
  a lock, \<open>Update\<close> swaps the two queues under the lock and hands the packets to the dispatcher outside it.
  The steps of \<open>Update\<close> and the pushes of other threads interleave.  The handler contract \<open>packet_sink\<close> is
  what the sessions rely on.  \<open>CGameService::DispatchPacket\<close> of \<open>src/Gateway\<close> is the dispatcher.
\<close>

declare split_paired_All [simp del] split_paired_Ex [simp del]

section \<open>The queues\<close>

record NetPacket =
  m_dwMsgID :: u32
  m_dwConnID :: u32
  m_pDataBuffer :: "handle option"

definition mk_NetPacket :: "u32 \<Rightarrow> u32 \<Rightarrow> handle option \<Rightarrow> NetPacket" where
  "mk_NetPacket conn msg b = \<lparr>m_dwMsgID = msg, m_dwConnID = conn, m_pDataBuffer = b\<rparr>"

definition NEW_CONNECTION :: u32 where "NEW_CONNECTION = 1"
definition CLOSE_CONNECTION :: u32 where "CLOSE_CONNECTION = 2"

text \<open>The calls of an \<open>IPacketDispatcher\<close>.\<close>

datatype dispatcher_call =
    DispatchPacket NetPacket
  | Dispatcher_OnCloseConnect u32
  | Dispatcher_OnNewConnect u32

text \<open>
  \<open>m_Iter\<close> is the position of the loop of \<open>Update\<close> while it runs, \<open>dispatched\<close> the calls made to the
  dispatcher, \<open>pushed\<close> every packet ever put on the queue.
\<close>

record service =
  m_pRecvDataQueue :: "NetPacket list"
  m_pDispathQueue :: "NetPacket list"
  m_Iter :: "nat option"
  dispatched :: "dispatcher_call list"
  pushed :: "NetPacket list"

definition CServiceBase :: service where
  "CServiceBase = \<lparr>m_pRecvDataQueue = [], m_pDispathQueue = [], m_Iter = None, dispatched = [], pushed = []\<rparr>"

definition push_back :: "NetPacket \<Rightarrow> service \<Rightarrow> service" where
  "push_back p S = S\<lparr>m_pRecvDataQueue := m_pRecvDataQueue S @ [p], pushed := pushed S @ [p]\<rparr>"

definition CServiceBase_OnCloseConnect :: "u32 \<Rightarrow> service \<Rightarrow> service" where
  "CServiceBase_OnCloseConnect nConnID = push_back (mk_NetPacket nConnID CLOSE_CONNECTION None)"

definition CServiceBase_OnNewConnect :: "u32 \<Rightarrow> service \<Rightarrow> service" where
  "CServiceBase_OnNewConnect nConnID = push_back (mk_NetPacket nConnID NEW_CONNECTION None)"

definition CServiceBase_OnDataHandle :: "handle \<Rightarrow> u32 \<Rightarrow> u32 \<Rightarrow> service \<Rightarrow> service" where
  "CServiceBase_OnDataHandle b header_size nConnID = push_back (mk_NetPacket nConnID 0 (Some b))"

section \<open>\<open>Update\<close>\<close>

text \<open>The swap under the lock, and the test for an empty queue.\<close>

definition update_swap :: "service \<Rightarrow> service" where
  "update_swap S =
     S\<lparr>m_pRecvDataQueue := m_pDispathQueue S, m_pDispathQueue := m_pRecvDataQueue S,
       m_Iter := (if m_pRecvDataQueue S = [] then None else Some 0)\<rparr>"

definition dispatch_item :: "NetPacket \<Rightarrow> dispatcher_call list" where
  "dispatch_item p =
     (if m_dwMsgID p = NEW_CONNECTION then [Dispatcher_OnNewConnect (m_dwConnID p)]
      else if m_dwMsgID p = CLOSE_CONNECTION then []
      else [DispatchPacket p])"

text \<open>One step of the loop: the item at the iterator, or the end of the queue.\<close>

definition update_step :: "service \<Rightarrow> service" where
  "update_step S = (case m_Iter S of
      None \<Rightarrow> S
    | Some i \<Rightarrow>
        if i < length (m_pDispathQueue S)
        then S\<lparr>dispatched := dispatched S @ dispatch_item (m_pDispathQueue S ! i), m_Iter := Some (i + 1)\<rparr>
        else S\<lparr>m_pDispathQueue := [], m_Iter := None\<rparr>)"

text \<open>A call of \<open>Update\<close> that no push interrupts.\<close>

fun update_loop :: "NetPacket list \<Rightarrow> dispatcher_call list" where
  "update_loop [] = []"
| "update_loop (p # ps) = dispatch_item p @ update_loop ps"

definition Update :: "service \<Rightarrow> service" where
  "Update S =
     (let S1 = update_swap S
      in if m_pDispathQueue S1 = [] then S1
         else S1\<lparr>dispatched := dispatched S1 @ update_loop (m_pDispathQueue S1), m_pDispathQueue := [], m_Iter := None\<rparr>)"

section \<open>Interleaved runs\<close>

inductive service_run :: "service \<Rightarrow> bool" where
  run_start: "service_run CServiceBase"
| run_close: "service_run S \<Longrightarrow> service_run (CServiceBase_OnCloseConnect i S)"
| run_new: "service_run S \<Longrightarrow> service_run (CServiceBase_OnNewConnect i S)"
| run_data: "service_run S \<Longrightarrow> service_run (CServiceBase_OnDataHandle b header i S)"
| run_swap: "service_run S \<Longrightarrow> m_Iter S = None \<Longrightarrow> service_run (update_swap S)"
| run_step: "service_run S \<Longrightarrow> m_Iter S \<noteq> None \<Longrightarrow> service_run (update_step S)"

text \<open>The packets of the queue that the loop has passed, and those it has not.\<close>

definition passed :: "service \<Rightarrow> nat" where
  "passed S = (case m_Iter S of None \<Rightarrow> length (m_pDispathQueue S) | Some i \<Rightarrow> i)"

definition service_ok :: "service \<Rightarrow> bool" where
  "service_ok S \<longleftrightarrow> (m_Iter S = None \<longrightarrow> m_pDispathQueue S = []) \<and> passed S \<le> length (m_pDispathQueue S)
     \<and> (\<exists>earlier. pushed S = earlier @ m_pDispathQueue S @ m_pRecvDataQueue S
         \<and> dispatched S = update_loop (earlier @ take (passed S) (m_pDispathQueue S)))"

lemma update_loop_append [simp]: "update_loop (ps @ qs) = update_loop ps @ update_loop qs"
  by (induction ps) simp_all

lemma service_ok_push: "service_ok S \<Longrightarrow> service_ok (push_back p S)"
  by (auto simp: service_ok_def push_back_def passed_def split: option.splits)

lemma service_ok_swap: "service_ok S \<Longrightarrow> m_Iter S = None \<Longrightarrow> service_ok (update_swap S)"
  by (auto simp: service_ok_def update_swap_def passed_def)

lemma service_ok_step: "service_ok S \<Longrightarrow> service_ok (update_step S)"
proof (cases "m_Iter S")
  case (Some i)
  assume ok: "service_ok S"
  then obtain earlier where e: "pushed S = earlier @ m_pDispathQueue S @ m_pRecvDataQueue S"
    "dispatched S = update_loop (earlier @ take i (m_pDispathQueue S))" "i \<le> length (m_pDispathQueue S)"
    using Some by (auto simp: service_ok_def passed_def)
  show ?thesis
  proof (cases "i < length (m_pDispathQueue S)")
    case True
    with Some e show ?thesis
      by (simp add: update_step_def service_ok_def passed_def take_Suc_conv_app_nth)
  next
    case False
    then have "service_ok (S\<lparr>m_pDispathQueue := [], m_Iter := None\<rparr>)"
      using e by (auto simp: service_ok_def passed_def intro!: exI [of _ "earlier @ m_pDispathQueue S"])
    with Some False show ?thesis by (simp add: update_step_def)
  qed
qed (simp add: update_step_def)

lemma service_run_ok: "service_run S \<Longrightarrow> service_ok S"
proof (induction rule: service_run.induct)
  case run_start
  then show ?case by (simp add: service_ok_def CServiceBase_def passed_def)
qed (auto simp: CServiceBase_OnCloseConnect_def CServiceBase_OnNewConnect_def CServiceBase_OnDataHandle_def
    intro: service_ok_push service_ok_swap service_ok_step)



text \<open>Uninterrupted, the steps of the loop are a call of \<open>Update\<close>.\<close>

lemma update_steps_finish:
  "m_Iter S = Some i \<Longrightarrow> i \<le> length (m_pDispathQueue S) \<Longrightarrow>
     (update_step ^^ (length (m_pDispathQueue S) - i + 1)) S
       = S\<lparr>dispatched := dispatched S @ update_loop (drop i (m_pDispathQueue S)), m_pDispathQueue := [], m_Iter := None\<rparr>"
proof (induction "length (m_pDispathQueue S) - i" arbitrary: S i)
  case 0
  then show ?case by (simp add: update_step_def)
next
  case (Suc n)
  let ?q = "m_pDispathQueue S"
  have i: "i < length ?q" using Suc.hyps(2) by simp
  let ?T = "S\<lparr>dispatched := dispatched S @ dispatch_item (?q ! i), m_Iter := Some (i + 1)\<rparr>"
  have t: "update_step S = ?T" using Suc.prems(1) i by (simp add: update_step_def)
  have "(update_step ^^ (length (m_pDispathQueue ?T) - (i + 1) + 1)) ?T
      = ?T\<lparr>dispatched := dispatched ?T @ update_loop (drop (i + 1) (m_pDispathQueue ?T)), m_pDispathQueue := [], m_Iter := None\<rparr>"
    using Suc.hyps(2) i by (intro Suc.hyps(1)) simp_all
  moreover have "length ?q - i + 1 = Suc (length ?q - (i + 1) + 1)" using i by simp
  moreover have "drop i ?q = ?q ! i # drop (i + 1) ?q" using i by (simp add: Cons_nth_drop_Suc)
  ultimately show ?case by (simp add: funpow_swap1 t del: funpow.simps) (simp add: funpow_Suc_right t del: funpow.simps)
qed



text \<open>
  The dispatcher is never told that a connection was closed, although its interface has a call for it
  and the sessions report it to the service.
\<close>

theorem close_never_dispatched:
  assumes "service_run S"
  shows "Dispatcher_OnCloseConnect i \<notin> set (dispatched S)"
proof -
  have "Dispatcher_OnCloseConnect i \<notin> set (update_loop ps)" for ps
    by (induction ps) (auto simp: dispatch_item_def)
  moreover obtain ps where "dispatched S = update_loop ps"
    using service_run_ok [OF assms] unfolding service_ok_def by blast
  ultimately show ?thesis by simp
qed

theorem close_never_dispatched_witness:
  "Dispatcher_OnCloseConnect 7 \<notin> set (dispatched (update_step (update_swap (CServiceBase_OnCloseConnect 7 CServiceBase))))"
proof (rule close_never_dispatched, intro run_step run_swap run_close run_start)
qed (simp_all add: CServiceBase_def CServiceBase_OnCloseConnect_def push_back_def update_swap_def)


section \<open>The handler of the sessions\<close>

text \<open>The packet a call of the data handler puts on the queue.\<close>

primrec packet_of :: "handler_call \<Rightarrow> NetPacket" where
  "packet_of (OnDataHandle b header_size i) = mk_NetPacket i 0 (Some b)"
| "packet_of (OnCloseConnect i) = mk_NetPacket i CLOSE_CONNECTION None"

text \<open>What a session relies on: its calls queue one packet each.\<close>

locale packet_sink =
  fixes on_data :: "handle \<Rightarrow> u32 \<Rightarrow> u32 \<Rightarrow> 's \<Rightarrow> 's"
    and on_close :: "u32 \<Rightarrow> 's \<Rightarrow> 's"
    and queue :: "'s \<Rightarrow> NetPacket list"
  assumes data_law: "queue (on_data b header i S) = queue S @ [mk_NetPacket i 0 (Some b)]"
    and close_law: "queue (on_close j T) = queue T @ [mk_NetPacket j CLOSE_CONNECTION None]"
begin

lemma calls_queued:
  "queue (fold (\<lambda>c. case c of OnDataHandle b header i \<Rightarrow> on_data b header i | OnCloseConnect i \<Rightarrow> on_close i) cs S)
     = queue S @ map packet_of cs"
  by (induction cs arbitrary: S) (auto simp: data_law close_law split: handler_call.split)

end

definition deliver :: "handler_call list \<Rightarrow> service \<Rightarrow> service" where
  "deliver = fold (\<lambda>c. case c of
      OnDataHandle b header i \<Rightarrow> CServiceBase_OnDataHandle b header i
    | OnCloseConnect i \<Rightarrow> CServiceBase_OnCloseConnect i)"

interpretation receive: packet_sink CServiceBase_OnDataHandle CServiceBase_OnCloseConnect m_pRecvDataQueue
  by unfold_locales (simp_all add: CServiceBase_OnDataHandle_def CServiceBase_OnCloseConnect_def push_back_def)

lemma deliver_queue: "m_pRecvDataQueue (deliver cs S) = m_pRecvDataQueue S @ map packet_of cs"
  unfolding deliver_def by (rule receive.calls_queued)

lemma deliver_rest: "m_Iter (deliver cs S) = m_Iter S" "dispatched (deliver cs S) = dispatched S"
  "m_pDispathQueue (deliver cs S) = m_pDispathQueue S"
  unfolding deliver_def
  by (induction cs arbitrary: S)
    (auto simp: CServiceBase_OnDataHandle_def CServiceBase_OnCloseConnect_def push_back_def split: handler_call.split)

lemma deliver_run: "service_run S \<Longrightarrow> service_run (deliver cs S)"
  unfolding deliver_def by (induction cs arbitrary: S) (auto intro: run_data run_close split: handler_call.split)

text \<open>The calls of a session carry its identifier.\<close>

primrec call_id :: "handler_call \<Rightarrow> u32" where
  "call_id (OnDataHandle b header i) = i"
| "call_id (OnCloseConnect i) = i"

definition own_calls :: "net_session \<Rightarrow> net_env \<Rightarrow> net_session \<times> net_env \<Rightarrow> bool" where
  "own_calls s e r \<longleftrightarrow> m_dwSessionID (fst r) = m_dwSessionID s
     \<and> (\<exists>cs. calls (snd r) = calls e @ cs \<and> (\<forall>c\<in>set cs. call_id c = m_dwSessionID s))"

lemma own_calls_refl [simp]: "own_calls s e (s, e)"
  by (simp add: own_calls_def)

lemma own_calls_trans: "own_calls s e (s1, e1) \<Longrightarrow> own_calls s1 e1 r \<Longrightarrow> own_calls s e r"
proof -
  assume "own_calls s e (s1, e1)" "own_calls s1 e1 r"
  then obtain cs ds where "calls e1 = calls e @ cs" "calls (snd r) = calls e1 @ ds" "\<forall>c\<in>set cs. call_id c = m_dwSessionID s"
    "\<forall>c\<in>set ds. call_id c = m_dwSessionID s" "m_dwSessionID (fst r) = m_dwSessionID s" by (auto simp: own_calls_def)
  then show ?thesis unfolding own_calls_def by (intro conjI exI [of _ "cs @ ds"]) auto
qed

lemma fill_calls: "fill h i n t s e = Some e' \<Longrightarrow> calls e' = calls e"
  by (auto simp: fill_def split: Option.bind_splits)

lemma new_packet_calls: "new_packet junk sz n s e = Some (h, e') \<Longrightarrow> calls e' = calls e"
  by (auto simp: new_packet_def dest!: fill_calls split: Option.bind_splits)

lemma continue_own: "continue_packet h header s e = Some (b, s', e') \<Longrightarrow> own_calls s e (s', e')"
  by (auto simp: continue_packet_def own_calls_def dispatch_def Let_def dest!: fill_calls split: Option.bind_splits if_splits)

lemma next_own: "next_packet junk sz header s e = Some (b, s', e') \<Longrightarrow> own_calls s e (s', e')"
  by (auto simp: next_packet_def own_calls_def dispatch_def Close_def Let_def dest!: new_packet_calls split: Option.bind_splits if_splits)

lemma extract_step_own: "extract_step junk s e = Some (b, s', e') \<Longrightarrow> own_calls s e (s', e')"
  by (auto simp: extract_step_def split: Option.bind_splits option.splits if_splits)
    (blast dest: next_own continue_own intro: own_calls_trans)+

lemma extract_loop_own:
  assumes "extract_loop junk s e = Some r"
  shows "own_calls s e r"
  by (rule extract_loop.raw_induct [where P = "\<lambda>junk. own_calls", OF _ assms])
    (fastforce split: Option.bind_splits if_splits dest: extract_step_own intro: own_calls_trans)

lemma extract_own: "ExtractBuffer junk s e = Some (s', e') \<Longrightarrow> own_calls s e (s', e')"
  by (auto simp: ExtractBuffer_def split: Option.bind_splits if_splits dest!: extract_loop_own) (auto simp: own_calls_def)

text \<open>
  C12: A client frame of fewer than 126 bytes of payload at the front of the receive buffer of a session
  reaches the dispatcher with the next \<open>Update\<close>: as one packet, with the identifier of the session, in a
  buffer that holds exactly the frame.
\<close>

theorem small_frame_reaches_dispatcher:
  assumes "session_ok s e" "m_pCurRecvBuffer s = None"
    and "length mask4 = 4" "length payload < 126" "unread s = client_frame opcode mask4 payload @ rest"
    and "service_run S" "m_Iter S = None" "m_pRecvDataQueue S = []"
  shows "\<exists>s' e' h. ExtractBuffer junk s e = Some (s', e') \<and> unread s' = rest
    \<and> dispatched (Update (deliver (drop (length (calls e)) (calls e')) S))
        = dispatched S @ [DispatchPacket (mk_NetPacket (m_dwSessionID s) 0 (Some h))]
    \<and> contents (pool e') h = client_frame opcode mask4 payload"
proof -
  have "pending_of s e = None" using assms(2) by (simp add: pending_of_def)
  with extract_ok [OF assms(1), of junk] assms(5) deframe_small [OF assms(3,4) refl] obtain s' e' where
    x: "ExtractBuffer junk s e = Some (s', e')"
      "performs (s, e) ([Packet (client_frame opcode mask4 payload) 6], None, rest) (s', e')"
    by auto
  from x(2) obtain cs where cs: "calls e' = calls e @ cs" "[Packet (client_frame opcode mask4 payload) 6] = map (event_of (pool e')) cs"
    "unread s' = rest" by (auto simp: performs_def)
  then obtain c where c: "cs = [c]" "event_of (pool e') c = Packet (client_frame opcode mask4 payload) 6" by auto
  then obtain h i where h: "c = OnDataHandle h 6 i" "contents (pool e') h = client_frame opcode mask4 payload" by (cases c) auto
  have "i = m_dwSessionID s" using extract_own [OF x(1)] cs(1) c(1) h(1) by (auto simp: own_calls_def)
  then have q: "m_pRecvDataQueue (deliver cs S) = [mk_NetPacket (m_dwSessionID s) 0 (Some h)]"
    using assms(8) c(1) h(1) by (simp add: deliver_queue)
  have d: "m_pDispathQueue S = []" using service_run_ok [OF assms(6)] assms(7) by (simp add: service_ok_def)
  have "dispatched (Update (deliver cs S)) = dispatched S @ [DispatchPacket (mk_NetPacket (m_dwSessionID s) 0 (Some h))]"
    using q d by (simp add: Update_def update_swap_def Let_def deliver_rest dispatch_item_def mk_NetPacket_def
        NEW_CONNECTION_def CLOSE_CONNECTION_def)
  with x(1) cs h(2) show ?thesis by auto
qed

theorem small_frame_reaches_dispatcher_witness:
  "\<exists>s' e' h. ExtractBuffer (\<lambda>_. NUL) (fresh_session (rfc_frame @ ''rest'')) fresh_env = Some (s', e') \<and> unread s' = ''rest''
    \<and> dispatched (Update (deliver (drop (length (calls fresh_env)) (calls e')) CServiceBase))
        = dispatched CServiceBase @ [DispatchPacket (mk_NetPacket (m_dwSessionID (fresh_session (rfc_frame @ ''rest''))) 0 (Some h))]
    \<and> contents (pool e') h = rfc_frame"
  unfolding rfc_frame_eq
  by (rule small_frame_reaches_dispatcher [OF fresh_session_ok(1,2) _ _ _ run_start])
    (simp_all add: fresh_session_ok header_length_def length_field_def CServiceBase_def)


section \<open>The dispatcher\<close>

text \<open>The arguments \<open>CGameService::DispatchPacket\<close> gives to \<open>ParsePartialFromArray\<close>.\<close>

definition game_arguments :: "allocator \<Rightarrow> NetPacket \<Rightarrow> (char list \<times> u32) option" where
  "game_arguments A p = do {
     h \<leftarrow> m_pDataBuffer p;
     b \<leftarrow> buffer_at A h;
     Some (GetData b, GetBodyLenth b) }"

text \<open>
  For a packet of fewer than 28 bytes, as small frames are, the length given to the parser wraps around
  and is larger than what is behind the pointer.
\<close>

theorem short_packet_length_wraps:
  assumes "buffer_at A h = Some b" "unat (m_nDataLen b) < HEADER_LEN" "length (m_Buffer b) \<le> 10383360"
    and "m_pDataBuffer p = Some h"
  shows "\<exists>d n. game_arguments A p = Some (d, n) \<and> unat n = 2 ^ 32 - HEADER_LEN + unat (m_nDataLen b) \<and> length d < unat n"
proof -
  let ?n = "m_nDataLen b"
  have lt: "?n < 28" using assms(2) by (simp add: HEADER_LEN_def word_less_nat_alt)
  have "unat (?n - 28) = 2 ^ 32 - 28 + unat ?n"
    using assms(2) by (simp add: HEADER_LEN_def unat_sub_if_size word_size)
  then show ?thesis
    using assms by (simp add: game_arguments_def GetBodyLenth_def GetData_def HEADER_LEN_def)
qed


theorem short_packet_length_wraps_witness:
  "\<exists>h A d n. game_arguments A (mk_NetPacket 1 0 (Some h)) = Some (d, n) \<and> unat n = 2 ^ 32 - HEADER_LEN + 0 \<and> length d < unat n"
proof -
  from allocator.alloc_law [OF allocator_ok_new, of 11 "\<lambda>_. NUL"] obtain h A b where
    a: "Allocator_AllocDataBuff (\<lambda>_. NUL) 11 CBufferAllocator = Some (h, A)" "allocator_ok A" "live A h" "buffer_at A h = Some b" "m_nDataLen b = 0"
    by auto
  then have "fst h = 64" by (auto simp: Allocator_AllocDataBuff_def Let_def pool_for_def split: Option.bind_splits)
  then have "length (m_Buffer b) = 64" using live_sized [OF a(2-4)] by (simp add: sized_def)
  with short_packet_length_wraps [OF a(4), of "mk_NetPacket 1 0 (Some h)"] a(5) show ?thesis
    by (fastforce simp: HEADER_LEN_def mk_NetPacket_def)
qed

end
