(* ===== verification/HttpWorld.thy ===== *)
theory HttpWorld
  imports HttpRun
begin

text \<open>
  What the callbacks of \<open>http_parser_execute\<close> do to the state they work on: the locale
  \<open>keeping_settings\<close> is the contract that every callback keeps a predicate on that state, and under it
  \<open>execute_keeps\<close> says that a whole run does.
\<close>

locale keeping_settings =
  fixes S :: "'w http_parser_settings" and P :: "'w \<Rightarrow> bool"
  assumes keeps_notify: "cb \<in> {on_message_begin S, on_headers_complete S, on_message_complete S, on_chunk_header S, on_chunk_complete S}
      \<Longrightarrow> cb = Some f \<Longrightarrow> P v \<Longrightarrow> f q v = (r, q1, v1) \<Longrightarrow> P v1"
    and keeps_data: "the_cb S m = Some g \<Longrightarrow> P u \<Longrightarrow> g k s u = (i, k1, u1) \<Longrightarrow> P u1"

definition ends :: "('w \<Rightarrow> bool) \<Rightarrow> 'w outcome \<Rightarrow> bool" where
  "ends P r = (case r of
      Break y \<Rightarrow> P (world y) | Reexecute y \<Rightarrow> P (world y) | Return y n \<Rightarrow> P (world y)
    | Goto_error y \<Rightarrow> P (world y) | Assert_failed \<Rightarrow> True)"

lemma ends_simps [simp]:
  "ends P (Break y) = P (world y)" "ends P (Reexecute y) = P (world y)" "ends P (Return y n) = P (world y)"
  "ends P (Goto_error y) = P (world y)" "ends P Assert_failed"
  by (simp_all add: ends_def)

text \<open>Everything but the callbacks leaves the outer state alone.\<close>

lemma world_simps [simp]:
  "world (UPDATE_STATE v x) = world x" "world (on_prs f x) = world x" "world (SET_ERRNO e x) = world x"
  "world (MARK m x) = world x" "world (new_message x) = world x" "world (body_advance data x) = world x"
  by (simp_all add: UPDATE_STATE_def on_prs_def SET_ERRNO_def MARK_def new_message_def body_advance_def Let_def)

lemma ends_FAIL [simp]: "ends P (FAIL e x) = P (world x)" "ends P (RETURN v x) = P (world x)"
  by (simp_all add: FAIL_def RETURN_def)

lemma ends_COUNT:
  "P (world x) \<Longrightarrow> (\<And>y. world y = world x \<Longrightarrow> ends P (k y)) \<Longrightarrow> ends P (COUNT_HEADER_SIZE v x k)"
  by (simp add: COUNT_HEADER_SIZE_def Let_def)

lemma ends_STRICT: "P (world x) \<Longrightarrow> ends P (k x) \<Longrightarrow> ends P (STRICT_CHECK c x k)"
  by (simp add: STRICT_CHECK_def)

lemma ends_chunked: "ends P r \<Longrightarrow> ends P (assert_chunked x r)"
  by (simp add: assert_chunked_def)

lemmas ends_intros = ends_COUNT ends_STRICT ends_chunked

lemma ends_url_step: "P (world x) \<Longrightarrow> ends P (url_step x)"
  by (simp add: url_step_def Let_def)

lemma ends_more: "P (world x) \<Longrightarrow> ends P (more_major x)" "P (world x) \<Longrightarrow> ends P (more_minor x)"
  by (simp_all add: more_major_def more_minor_def Let_def)

lemma ends_expect: "P (world x) \<Longrightarrow> ends P (expect c s x)"
  by (auto simp: expect_def intro!: ends_intros)

lemma ends_value_start: "P (world x) \<Longrightarrow> ends P (value_start_content_length x)"
  by (simp add: value_start_content_length_def)

lemma ends_value_end: "P (world x) \<Longrightarrow> ends P (header_value_end data start h x)"
  by (auto simp: header_value_end_def intro!: ends_intros)

lemma ends_s_dead: "P (world x) \<Longrightarrow> ends P (do_s_dead x)"
  by (auto simp: do_s_dead_def Let_def intro!: ends_intros ends_url_step ends_more ends_value_start)

lemma ends_s_res_or_resp_H: "P (world x) \<Longrightarrow> ends P (do_s_res_or_resp_H x)"
  by (auto simp: do_s_res_or_resp_H_def Let_def intro!: ends_intros ends_url_step ends_more ends_value_start)

lemma ends_s_res_first_http_major: "P (world x) \<Longrightarrow> ends P (do_s_res_first_http_major x)"
  by (auto simp: do_s_res_first_http_major_def Let_def intro!: ends_intros ends_url_step ends_more ends_value_start)

lemma ends_s_res_http_major: "P (world x) \<Longrightarrow> ends P (do_s_res_http_major x)"
  by (auto simp: do_s_res_http_major_def Let_def intro!: ends_intros ends_url_step ends_more ends_value_start)

lemma ends_s_res_first_http_minor: "P (world x) \<Longrightarrow> ends P (do_s_res_first_http_minor x)"
  by (auto simp: do_s_res_first_http_minor_def Let_def intro!: ends_intros ends_url_step ends_more ends_value_start)

lemma ends_s_res_http_minor: "P (world x) \<Longrightarrow> ends P (do_s_res_http_minor x)"
  by (auto simp: do_s_res_http_minor_def Let_def intro!: ends_intros ends_url_step ends_more ends_value_start)

lemma ends_s_res_first_status_code: "P (world x) \<Longrightarrow> ends P (do_s_res_first_status_code x)"
  by (auto simp: do_s_res_first_status_code_def Let_def intro!: ends_intros ends_url_step ends_more ends_value_start)

lemma ends_s_res_status_code: "P (world x) \<Longrightarrow> ends P (do_s_res_status_code x)"
  by (auto simp: do_s_res_status_code_def Let_def intro!: ends_intros ends_url_step ends_more ends_value_start)

lemma ends_s_res_status_start: "P (world x) \<Longrightarrow> ends P (do_s_res_status_start x)"
  by (auto simp: do_s_res_status_start_def Let_def intro!: ends_intros ends_url_step ends_more ends_value_start)

lemma ends_s_res_line_almost_done: "P (world x) \<Longrightarrow> ends P (do_s_res_line_almost_done x)"
  by (auto simp: do_s_res_line_almost_done_def Let_def intro!: ends_intros ends_url_step ends_more ends_value_start)

lemma ends_s_req_method: "P (world x) \<Longrightarrow> ends P (do_s_req_method x)"
  by (auto simp: do_s_req_method_def Let_def intro!: ends_intros ends_url_step ends_more ends_value_start split: option.split)

lemma ends_s_req_spaces_before_url: "P (world x) \<Longrightarrow> ends P (do_s_req_spaces_before_url x)"
  by (auto simp: do_s_req_spaces_before_url_def Let_def intro!: ends_intros ends_url_step ends_more ends_value_start)

lemma ends_s_req_schema: "P (world x) \<Longrightarrow> ends P (do_s_req_schema x)"
  by (auto simp: do_s_req_schema_def Let_def intro!: ends_intros ends_url_step ends_more ends_value_start)

lemma ends_s_req_http_start: "P (world x) \<Longrightarrow> ends P (do_s_req_http_start x)"
  by (auto simp: do_s_req_http_start_def Let_def intro!: ends_intros ends_url_step ends_more ends_value_start)

lemma ends_s_req_first_http_major: "P (world x) \<Longrightarrow> ends P (do_s_req_first_http_major x)"
  by (auto simp: do_s_req_first_http_major_def Let_def intro!: ends_intros ends_url_step ends_more ends_value_start)

lemma ends_s_req_http_major: "P (world x) \<Longrightarrow> ends P (do_s_req_http_major x)"
  by (auto simp: do_s_req_http_major_def Let_def intro!: ends_intros ends_url_step ends_more ends_value_start)

lemma ends_s_req_first_http_minor: "P (world x) \<Longrightarrow> ends P (do_s_req_first_http_minor x)"
  by (auto simp: do_s_req_first_http_minor_def Let_def intro!: ends_intros ends_url_step ends_more ends_value_start)

lemma ends_s_req_http_minor: "P (world x) \<Longrightarrow> ends P (do_s_req_http_minor x)"
  by (auto simp: do_s_req_http_minor_def Let_def intro!: ends_intros ends_url_step ends_more ends_value_start)

lemma ends_s_req_line_almost_done: "P (world x) \<Longrightarrow> ends P (do_s_req_line_almost_done x)"
  by (auto simp: do_s_req_line_almost_done_def Let_def intro!: ends_intros ends_url_step ends_more ends_value_start)

lemma ends_s_header_field_start: "P (world x) \<Longrightarrow> ends P (do_s_header_field_start x)"
  by (auto simp: do_s_header_field_start_def Let_def intro!: ends_intros ends_url_step ends_more ends_value_start)

lemma ends_s_header_value_start: "P (world x) \<Longrightarrow> ends P (do_s_header_value_start x)"
  by (auto simp: do_s_header_value_start_def Let_def intro!: ends_intros ends_url_step ends_more ends_value_start split: header_states.split)

lemma ends_s_header_value_discard_ws: "P (world x) \<Longrightarrow> ends P (do_s_header_value_discard_ws x)"
  by (auto simp: do_s_header_value_discard_ws_def Let_def intro!: ends_s_header_value_start ends_intros ends_url_step ends_more ends_value_start)

lemma ends_s_header_almost_done: "P (world x) \<Longrightarrow> ends P (do_s_header_almost_done x)"
  by (auto simp: do_s_header_almost_done_def Let_def intro!: ends_intros ends_url_step ends_more ends_value_start)

lemma ends_s_header_value_lws: "P (world x) \<Longrightarrow> ends P (do_s_header_value_lws x)"
  by (auto simp: do_s_header_value_lws_def Let_def intro!: ends_intros ends_url_step ends_more ends_value_start)

lemma ends_s_header_value_discard_ws_almost_done: "P (world x) \<Longrightarrow> ends P (do_s_header_value_discard_ws_almost_done x)"
  by (auto simp: do_s_header_value_discard_ws_almost_done_def Let_def intro!: ends_intros ends_url_step ends_more ends_value_start)

lemma ends_s_body_identity_eof: "P (world x) \<Longrightarrow> ends P (do_s_body_identity_eof data x)"
  by (auto simp: do_s_body_identity_eof_def Let_def intro!: ends_intros ends_url_step ends_more ends_value_start)

lemma ends_s_chunk_size_start: "P (world x) \<Longrightarrow> ends P (do_s_chunk_size_start x)"
  by (auto simp: do_s_chunk_size_start_def Let_def intro!: ends_intros ends_url_step ends_more ends_value_start)

lemma ends_s_chunk_size: "P (world x) \<Longrightarrow> ends P (do_s_chunk_size x)"
  by (auto simp: do_s_chunk_size_def Let_def intro!: ends_intros ends_url_step ends_more ends_value_start)

lemma ends_s_chunk_parameters: "P (world x) \<Longrightarrow> ends P (do_s_chunk_parameters x)"
  by (auto simp: do_s_chunk_parameters_def Let_def intro!: ends_intros ends_url_step ends_more ends_value_start)

lemma ends_s_chunk_data: "P (world x) \<Longrightarrow> ends P (do_s_chunk_data data x)"
  by (auto simp: do_s_chunk_data_def Let_def intro!: ends_intros ends_url_step ends_more ends_value_start)

context keeping_settings
begin

lemma ends_notify:
  assumes "cb \<in> {on_message_begin S, on_headers_complete S, on_message_complete S, on_chunk_header S, on_chunk_complete S}"
    and "P (world x)" "\<And>y. P (world y) \<Longrightarrow> ends P (k y)"
  shows "ends P (CALLBACK_NOTIFY_ER cb e er x k)"
proof (cases cb)
  case None
  with assms show ?thesis by (simp add: CALLBACK_NOTIFY_ER_def)
next
  case (Some f)
  have "P (world (call_notify f e x))"
    using keeps_notify [OF assms(1) Some assms(2)] by (auto simp: call_notify_def split: prod.split)
  with assms(3) Some show ?thesis by (simp add: CALLBACK_NOTIFY_ER_def Let_def)
qed

lemma ends_data:
  assumes "P (world x)" "\<And>y. P (world y) \<Longrightarrow> ends P (k y)"
  shows "ends P (CALLBACK_DATA_ER S data m stop er x k)"
proof (cases "the_cb S m")
  case None
  with assms show ?thesis by (simp add: CALLBACK_DATA_ER_def split: option.split)
next
  case (Some f)
  have "P (world (call_data f e data mk stop x))" for e mk
    using keeps_data [OF Some assms(1)] by (auto simp: call_data_def split: prod.split)
  with assms Some show ?thesis by (simp add: CALLBACK_DATA_ER_def Let_def split: option.split)
qed

lemmas ends_callbacks = ends_notify [folded CALLBACK_NOTIFY_def] ends_notify ends_data

lemmas callback_defs = CALLBACK_NOTIFY_def CALLBACK_NOTIFY_NOADVANCE_def CALLBACK_DATA_def CALLBACK_DATA_NOADVANCE_def message_complete_def

lemma ends_headers_complete:
  assumes "P (world x)" "\<And>y. P (world y) \<Longrightarrow> ends P (k y)"
  shows "ends P (headers_complete S x k)"
proof (cases "on_headers_complete S")
  case None
  with assms show ?thesis by (simp add: headers_complete_def)
next
  case (Some f)
  have "P v1" if "f (prs x) (world x) = (r, q, v1)" for r q v1 using keeps_notify [OF _ Some assms(1) that] by simp
  with Some assms(2) show ?thesis by (auto simp: headers_complete_def Let_def split: prod.split)
qed

lemma ends_s_start_req_or_res: "P (world x) \<Longrightarrow> ends P (do_s_start_req_or_res S x)"
  by (auto simp: do_s_start_req_or_res_def Let_def callback_defs intro!: ends_intros ends_notify ends_data ends_headers_complete ends_url_step ends_value_end)

lemma ends_s_start_res: "P (world x) \<Longrightarrow> ends P (do_s_start_res S x)"
  by (auto simp: do_s_start_res_def Let_def callback_defs intro!: ends_intros ends_notify ends_data ends_headers_complete ends_url_step ends_value_end)

lemma ends_s_res_status: "P (world x) \<Longrightarrow> ends P (do_s_res_status S data x)"
  by (auto simp: do_s_res_status_def Let_def callback_defs intro!: ends_intros ends_notify ends_data ends_headers_complete ends_url_step ends_value_end)

lemma ends_s_start_req: "P (world x) \<Longrightarrow> ends P (do_s_start_req S x)"
  by (auto simp: do_s_start_req_def Let_def callback_defs intro!: ends_intros ends_notify ends_data ends_headers_complete ends_url_step ends_value_end split: option.split prod.split)

lemma ends_s_req_url: "P (world x) \<Longrightarrow> ends P (do_s_req_url S data x)"
  by (auto simp: do_s_req_url_def Let_def callback_defs intro!: ends_intros ends_notify ends_data ends_headers_complete ends_url_step ends_value_end)

lemma ends_s_header_field: "P (world x) \<Longrightarrow> ends P (do_s_header_field S data x)"
  by (auto simp: do_s_header_field_def header_field_end_def Let_def callback_defs intro!: ends_intros ends_notify ends_data ends_headers_complete ends_url_step ends_value_end split: option.split prod.split)

lemma ends_s_header_value: "P (world x) \<Longrightarrow> ends P (do_s_header_value S data lenient x)"
  by (auto simp: do_s_header_value_def Let_def callback_defs intro!: ends_intros ends_notify ends_data ends_headers_complete ends_url_step ends_value_end split: value_exit.split)

lemma ends_s_header_value_discard_lws: "P (world x) \<Longrightarrow> ends P (do_s_header_value_discard_lws S data x)"
  by (auto simp: do_s_header_value_discard_lws_def Let_def callback_defs intro!: ends_intros ends_notify ends_data ends_headers_complete ends_url_step ends_value_end)

lemma ends_s_headers_almost_done: "P (world x) \<Longrightarrow> ends P (do_s_headers_almost_done S x)"
  by (auto simp: do_s_headers_almost_done_def Let_def callback_defs intro!: ends_intros ends_notify ends_data ends_headers_complete ends_url_step ends_value_end)

lemma ends_s_headers_done: "P (world x) \<Longrightarrow> ends P (do_s_headers_done S x)"
  by (auto simp: do_s_headers_done_def Let_def callback_defs intro!: ends_intros ends_notify ends_data ends_headers_complete ends_url_step ends_value_end)

lemma ends_s_body_identity: "P (world x) \<Longrightarrow> ends P (do_s_body_identity S data x)"
  by (auto simp: do_s_body_identity_def Let_def callback_defs intro!: ends_intros ends_notify ends_data ends_headers_complete ends_url_step ends_value_end)

lemma ends_s_message_done: "P (world x) \<Longrightarrow> ends P (do_s_message_done S x)"
  by (auto simp: do_s_message_done_def Let_def callback_defs intro!: ends_intros ends_notify ends_data ends_headers_complete ends_url_step ends_value_end)

lemma ends_s_chunk_size_almost_done: "P (world x) \<Longrightarrow> ends P (do_s_chunk_size_almost_done S x)"
  by (auto simp: do_s_chunk_size_almost_done_def Let_def callback_defs intro!: ends_intros ends_notify ends_data ends_headers_complete ends_url_step ends_value_end)

lemma ends_s_chunk_data_almost_done: "P (world x) \<Longrightarrow> ends P (do_s_chunk_data_almost_done S data x)"
  by (auto simp: do_s_chunk_data_almost_done_def Let_def callback_defs intro!: ends_intros ends_notify ends_data ends_headers_complete ends_url_step ends_value_end)

lemma ends_s_chunk_data_done: "P (world x) \<Longrightarrow> ends P (do_s_chunk_data_done S x)"
  by (auto simp: do_s_chunk_data_done_def Let_def callback_defs intro!: ends_intros ends_notify ends_data ends_headers_complete ends_url_step ends_value_end)

lemma switch_keeps: "P (world x) \<Longrightarrow> ends P (switch_state S data lenient x)"
  by (cases "p_state x") (simp_all add: switch_state_def ends_expect
    ends_s_dead ends_s_res_or_resp_H ends_s_res_first_http_major ends_s_res_http_major ends_s_res_first_http_minor ends_s_res_http_minor ends_s_res_first_status_code ends_s_res_status_code ends_s_res_status_start ends_s_res_line_almost_done ends_s_req_method ends_s_req_spaces_before_url ends_s_req_schema ends_s_req_http_start ends_s_req_first_http_major ends_s_req_http_major ends_s_req_first_http_minor ends_s_req_http_minor ends_s_req_line_almost_done ends_s_header_field_start ends_s_header_value_start ends_s_header_value_discard_ws ends_s_header_almost_done ends_s_header_value_lws ends_s_header_value_discard_ws_almost_done ends_s_body_identity_eof ends_s_chunk_size_start ends_s_chunk_size ends_s_chunk_parameters ends_s_chunk_data ends_s_start_req_or_res ends_s_start_res ends_s_res_status ends_s_start_req ends_s_req_url ends_s_header_field ends_s_header_value ends_s_header_value_discard_lws ends_s_headers_almost_done ends_s_headers_done ends_s_body_identity ends_s_message_done ends_s_chunk_size_almost_done ends_s_chunk_data_almost_done ends_s_chunk_data_done)

lemma loop_exit_keeps: "P (world x) \<Longrightarrow> ends P (loop_exit S data x)"
  by (auto simp: loop_exit_def callback_defs intro!: ends_data)

definition config_keeps :: "'w config \<Rightarrow> bool" where
  "config_keeps c = (case c of At_loop x \<Rightarrow> P (world x) | At_switch x \<Rightarrow> P (world x) | Done x n \<Rightarrow> P (world x) | Assertion \<Rightarrow> True)"

lemma next_config_keeps: "ends P r \<Longrightarrow> config_keeps (next_config r)"
  by (cases r) (simp_all add: next_config_def config_keeps_def error_exit_def RETURN_def)

lemma step_keeps: "config_keeps c \<Longrightarrow> config_keeps (step S data lenient c)"
  by (cases c)
    (auto simp: step_def config_keeps_def [of "At_loop _"] config_keeps_def [of "At_switch _"] loop_head_def Let_def
      intro!: next_config_keeps loop_exit_keeps switch_keeps ends_COUNT)

lemma run_keeps: "config_keeps c \<Longrightarrow> run S data lenient fuel c = Some (x, n) \<Longrightarrow> P (world x)"
proof (induction fuel arbitrary: c)
  case 0
  then show ?case by (subst (asm) run.simps) (auto simp: config_keeps_def split: config.splits)
next
  case (Suc fuel)
  show ?case
  proof (cases "\<exists>y k. c = Done y k \<or> c = Assertion")
    case True
    with Suc.prems show ?thesis by (subst (asm) run.simps) (auto simp: config_keeps_def)
  next
    case False
    then have "run S data lenient fuel (step S data lenient c) = Some (x, n)"
      using Suc.prems(2) by (subst (asm) run.simps) (cases c; simp)
    then show ?thesis by (rule Suc.IH [OF step_keeps [OF Suc.prems(1)]])
  qed
qed

lemma execute_keeps:
  assumes "P v" "http_parser_execute S q v data = Some (q1, v1, n)"
  shows "P v1"
proof -
  have s: "P (world (start_exec q v))" using assms(1) by (simp add: start_exec_def)
  consider "errno q \<noteq> HPE_OK" | "errno q = HPE_OK" "data = []" | "errno q = HPE_OK" "data \<noteq> []" by blast
  then show ?thesis
  proof cases
    case 1
    with assms show ?thesis by (simp add: http_parser_execute_def)
  next
    case 2
    have "ends P (execute_eof S ((start_exec q v)\<lparr>marks := \<lambda>_. None\<rparr>))"
      using s by (auto simp: execute_eof_def callback_defs intro!: ends_notify)
    with 2 assms(2) show ?thesis
      by (auto simp: http_parser_execute_def Let_def split: outcome.splits)
  next
    case 3
    have "config_keeps (At_loop (start_exec q v))" using s by (simp add: config_keeps_def)
    with 3 assms(2) run_keeps show ?thesis by (auto simp: http_parser_execute_def Let_def)
  qed
qed

end

end
