(* ===== verification/Handshake.thy ===== *)
theory Handshake
  imports HttpWorld NetSession Sha1 Base64 "HOL-Library.Code_Target_Numeral"
begin

text \<open>
  The websocket handshake of \<open>src/ServerEngine/baseinet/CNetSession .cpp\<close> and \<open>CHttpParser.h\<close>: the request is fed
  to \<open>http_parser_execute\<close>, whose callbacks pick up the key; the answer carries the Base64 text of the
  SHA-1 digest of the key and the magic string; \<open>DoSend\<close> writes it.  \<open>HandleRecvEvent\<close> puts the handshake
  and \<open>ExtractBuffer\<close> together.
\<close>

declare split_paired_All [simp del] split_paired_Ex [simp del]

section \<open>The callbacks\<close>

text \<open>The static members of \<open>CHttpParser\<close>.\<close>

record http_statics =
  header_key :: "char list"
  client_ws_key :: "char list"
  has_client_key :: bool

definition CHttpParser_statics :: http_statics where
  "CHttpParser_statics = \<lparr>header_key = replicate 64 NUL, client_ws_key = replicate 128 NUL, has_client_key = False\<rparr>"

text \<open>\<open>strncpy (dst, src, n)\<close> from a source of at least \<open>n\<close> bytes, followed by \<open>dst[n] = 0\<close>.\<close>

definition copy_string :: "char list \<Rightarrow> char list \<Rightarrow> nat \<Rightarrow> char list option" where
  "copy_string dst src n =
     (if n \<le> length dst \<and> n \<le> length src
      then let s = c_str (take n src) in poke (s @ replicate (n - length s) NUL @ drop n dst) n NUL
      else None)"

text \<open>The callbacks work on the statics; \<open>None\<close> is a store outside an array or a string without its nul byte.\<close>

definition on_header_field_ws :: "http_statics option http_data_cb" where
  "on_header_field_ws q at st =
     (0, q, do { w \<leftarrow> st; m \<leftarrow> copy_string (header_key w) at (min (length at) 63); Some (w\<lparr>header_key := m\<rparr>) })"

definition on_header_value_ws :: "http_statics option http_data_cb" where
  "on_header_value_ws q at st =
     (0, q, do {
        w \<leftarrow> st;
        if NUL \<notin> set (header_key w) then None
        else if c_str (header_key w) \<noteq> ''Sec-WebSocket-Key'' then Some w
        else do {
          m \<leftarrow> copy_string (client_ws_key w) at (min (length at) 127);
          Some (w\<lparr>client_ws_key := m, has_client_key := True\<rparr>) } })"

definition ws_settings :: "http_statics option http_parser_settings" where
  "ws_settings = http_parser_settings_init\<lparr>on_header_field := Some on_header_field_ws, on_header_value := Some on_header_value_ws\<rparr>"

definition statics_ok :: "http_statics \<Rightarrow> bool" where
  "statics_ok w \<longleftrightarrow> length (header_key w) = 64 \<and> NUL \<in> set (header_key w)
     \<and> length (client_ws_key w) = 128 \<and> NUL \<in> set (client_ws_key w)"

lemma statics_ok_start: "statics_ok CHttpParser_statics"
  by (simp add: statics_ok_def CHttpParser_statics_def)

lemma length_c_str_le: "length (c_str s) \<le> length s"
  by (simp add: c_str_def length_takeWhile_le)

lemma length_c_str_less: "NUL \<in> set m \<Longrightarrow> length (c_str m) < length m"
  unfolding c_str_def by (induction m) auto

lemma copy_string_ok:
  assumes "n < length dst" "n \<le> length src"
  shows "\<exists>m. copy_string dst src n = Some m \<and> length m = length dst \<and> NUL \<in> set m \<and> c_str m = c_str (take n src)"
proof -
  let ?s = "c_str (take n src)" and ?m = "c_str (take n src) @ replicate (n - length (c_str (take n src))) NUL @ drop n dst"
  have s: "length ?s \<le> n" using length_c_str_le [of "take n src"] by simp
  then have l: "length ?m = length dst" using assms(1) by simp
  have "NUL \<notin> set ?s" by (auto simp: c_str_def dest: set_takeWhileD)
  then have "c_str (?s @ NUL # r) = ?s" for r by (simp add: nul_free_def)
  moreover have "?m[n := NUL] = ?s @ replicate (n - length ?s) NUL @ NUL # drop (n + 1) dst"
    using s assms(1) by (simp add: list_update_append Cons_nth_drop_Suc [symmetric])
  then have "\<exists>r. ?m[n := NUL] = ?s @ NUL # r"
    by (cases "n - length ?s") auto
  ultimately have "c_str (?m[n := NUL]) = ?s" by auto
  moreover have "NUL \<in> set (?m[n := NUL])" using l assms(1) by (intro set_update_memI) simp
  moreover have "copy_string dst src n = Some (?m[n := NUL])"
    using assms l by (simp add: copy_string_def Let_def)
  ultimately show ?thesis using l by simp
qed

lemma min_less: "a < (b :: nat) \<Longrightarrow> min n a < b" by simp

definition good_statics :: "http_statics option \<Rightarrow> bool" where
  "good_statics st \<longleftrightarrow> (\<exists>w. st = Some w \<and> statics_ok w)"

lemma field_keeps: "good_statics st \<Longrightarrow> on_header_field_ws q at st = (r, q1, st1) \<Longrightarrow> good_statics st1"
proof -
  assume "good_statics st" and e: "on_header_field_ws q at st = (r, q1, st1)"
  then obtain w where w: "st = Some w" "statics_ok w" by (auto simp: good_statics_def)
  obtain m where "copy_string (header_key w) at (min (length at) 63) = Some m" "length m = 64" "NUL \<in> set m"
    using copy_string_ok [of "min (length at) 63" "header_key w" at] w(2) min_less [of 63 64 "length at"] by (auto simp: statics_ok_def)
  with e w show ?thesis by (auto simp: on_header_field_ws_def good_statics_def statics_ok_def)
qed

lemma value_keeps: "good_statics st \<Longrightarrow> on_header_value_ws q at st = (r, q1, st1) \<Longrightarrow> good_statics st1"
proof -
  assume "good_statics st" and e: "on_header_value_ws q at st = (r, q1, st1)"
  then obtain w where w: "st = Some w" "statics_ok w" by (auto simp: good_statics_def)
  obtain m where "copy_string (client_ws_key w) at (min (length at) 127) = Some m" "length m = 128" "NUL \<in> set m"
    using copy_string_ok [of "min (length at) 127" "client_ws_key w" at] w(2) min_less [of 127 128 "length at"] by (auto simp: statics_ok_def)
  with e w show ?thesis by (auto simp: on_header_value_ws_def good_statics_def statics_ok_def)
qed

lemma ws_settings_cbs [simp]:
  "on_message_begin ws_settings = None" "on_headers_complete ws_settings = None" "on_message_complete ws_settings = None"
  "on_chunk_header ws_settings = None" "on_chunk_complete ws_settings = None" "on_url ws_settings = None"
  "on_status ws_settings = None" "on_body ws_settings = None"
  "on_header_field ws_settings = Some on_header_field_ws" "on_header_value ws_settings = Some on_header_value_ws"
  by (simp_all add: ws_settings_def http_parser_settings_init_def)

lemma errno_same: "\<exists>e. q = q\<lparr>errno := e\<rparr>"
  by (rule exI [of _ "errno q"]) simp

interpretation ws: benign_settings ws_settings
proof
  show "benign_data_cb (the_cb ws_settings m)" for m
    by (cases m) (simp_all add: benign_data_cb_def on_header_field_ws_def on_header_value_ws_def errno_same)
qed (simp_all add: benign_cb_def)

interpretation ws_keeps: keeping_settings ws_settings good_statics
proof
  fix m g u k s i k1 u1
  assume g: "the_cb ws_settings m = Some g" "good_statics u" "g k s u = (i, k1, u1)"
  show "good_statics u1"
  proof (cases m)
    case Header_field
    with g(1) have "g = on_header_field_ws" by simp
    with g(2,3) show ?thesis using field_keeps by blast
  next
    case Header_value
    with g(1) have "g = on_header_value_ws" by simp
    with g(2,3) show ?thesis using value_keeps by blast
  qed (use g(1) in simp_all)
qed auto

section \<open>\<open>CheckHttpPackkage\<close>\<close>

definition CheckHttpPackkage :: "net_session \<Rightarrow> http_statics \<Rightarrow> (bool \<times> http_parser \<times> http_statics) option" where
  "CheckHttpPackkage s w = do {
     (q, st, n) \<leftarrow> http_parser_execute ws_settings (http_parser_init zeroed_parser HTTP_REQUEST)
       (Some (w\<lparr>has_client_key := False\<rparr>)) (unread s);
     w' \<leftarrow> st;
     Some (has_client_key w', q, w') }"

lemma check_http_ok:
  assumes "statics_ok w"
  shows "\<exists>r q w'. CheckHttpPackkage s w = Some (r, q, w') \<and> statics_ok w'"
proof -
  let ?q = "http_parser_init zeroed_parser HTTP_REQUEST" and ?w = "Some (w\<lparr>has_client_key := False\<rparr>)"
  obtain q st n where x: "http_parser_execute ws_settings ?q ?w (unread s) = Some (q, st, n)"
    using execute_safe [OF ws.benign_settings_axioms parser_ok_init] by blast
  have "good_statics ?w" using assms by (simp add: good_statics_def statics_ok_def)
  then have "good_statics st" using ws_keeps.execute_keeps x by blast
  with x show ?thesis by (auto simp: CheckHttpPackkage_def good_statics_def)
qed


section \<open>Sending\<close>

text \<open>
  The queue is bounded; \<open>push\<close> on a full one returns false.  \<open>async_write\<close> reads \<open>GetBufferSize ()\<close> bytes
  of the local buffer of 1024 bytes.
\<close>

definition queue_capacity :: nat where "queue_capacity = 40000"

definition SendBuffer :: "handle \<Rightarrow> net_session \<Rightarrow> bool \<times> net_session" where
  "SendBuffer h s =
     (if length (lockfree_queue s) < queue_capacity
      then (True, s\<lparr>lockfree_queue := lockfree_queue s @ [h]\<rparr>) else (False, s))"

text \<open>One round of the loop of \<open>DoSend\<close>; \<open>pSendedBuf\<close> is allocated and not used.\<close>

definition send_one :: "(nat \<Rightarrow> char) \<Rightarrow> handle \<Rightarrow> char list \<Rightarrow> net_env \<Rightarrow> (char list \<times> net_env) option" where
  "send_one junk h buf e = do {
     (h', A) \<leftarrow> Allocator_AllocDataBuff junk (int RECV_BUF_SIZE) (pool e);
     b \<leftarrow> buffer_at A h;
     (n, buf') \<leftarrow> CopyTo b buf (m_nDataLen b);
     if unat (m_nBufSize b) \<le> length buf'
     then Some (buf', e\<lparr>pool := A, written := written e @ [take (unat (m_nBufSize b)) buf']\<rparr>)
     else None }"

fun send_loop :: "(nat \<Rightarrow> char) \<Rightarrow> handle list \<Rightarrow> char list \<Rightarrow> net_env \<Rightarrow> net_env option" where
  "send_loop junk [] buf e = Some e"
| "send_loop junk (h # hs) buf e = do { (buf', e') \<leftarrow> send_one junk h buf e; send_loop junk hs buf' e' }"

definition DoSend :: "(nat \<Rightarrow> char) \<Rightarrow> net_session \<Rightarrow> net_env \<Rightarrow> (net_session \<times> net_env) option" where
  "DoSend junk s e = do {
     e' \<leftarrow> send_loop junk (lockfree_queue s) (replicate 1024 NUL) e;
     Some (s\<lparr>lockfree_queue := []\<rparr>, e') }"

lemma send_one_ok:
  assumes "allocator_ok (pool e)" "live (pool e) h" "buffer_at (pool e) h = Some b"
    and "unat (m_nDataLen b) \<le> fst h" "fst h \<le> 1024" "length buf = 1024"
  shows "\<exists>A buf'. send_one junk h buf e = Some (buf', e\<lparr>pool := A, written := written e @ [take (fst h) buf']\<rparr>)
    \<and> buf' = take (unat (m_nDataLen b)) (m_Buffer b) @ drop (unat (m_nDataLen b)) buf \<and> allocator_ok A \<and> keeps None e (e\<lparr>pool := A\<rparr>)"
proof -
  obtain h' A where a: "Allocator_AllocDataBuff junk (int RECV_BUF_SIZE) (pool e) = Some (h', A)" "allocator_ok A" "\<not> live (pool e) h'"
    "live A h'" "\<forall>k. k \<noteq> h' \<longrightarrow> buffer_at A k = buffer_at (pool e) k \<and> live A k = live (pool e) k"
    using allocator.alloc_law [OF assms(1), of "int RECV_BUF_SIZE" junk] by (auto simp: RECV_BUF_SIZE_def)
  then have "h \<noteq> h'" using assms(2) by blast
  then have b: "buffer_at A h = Some b" using a(5) assms(3) by simp
  have z: "length (m_Buffer b) = fst h" "m_nBufSize b = of_nat (fst h)"
    using live_sized [OF assms(1-3)] by (simp_all add: sized_def)
  have u: "unat (of_nat (fst h) :: u32) = fst h" using assms(5) by (simp add: unat_of_nat take_bit_nat_eq_self)
  let ?n = "unat (m_nDataLen b)"
  have "CopyTo b buf (m_nDataLen b) = Some (m_nDataLen b, take ?n (m_Buffer b) @ drop ?n buf)"
    using assms(4-6) z(1) by (simp add: CopyTo_def memcpy_def)
  moreover have "fst h \<le> length (take ?n (m_Buffer b) @ drop ?n buf)" using assms(4-6) z(1) by simp
  moreover have k: "keeps None e (e\<lparr>pool := A\<rparr>)" using a(3,5) by (auto simp: keeps_def)
  ultimately have "send_one junk h buf e = Some (take ?n (m_Buffer b) @ drop ?n buf,
      e\<lparr>pool := A, written := written e @ [take (fst h) (take ?n (m_Buffer b) @ drop ?n buf)]\<rparr>)"
    using a(1) b z(2) u by (simp add: send_one_def)
  with a(2) k show ?thesis by blast
qed

section \<open>The answer to the handshake\<close>

definition wb_accept :: "char list \<Rightarrow> char list \<Rightarrow> char list \<Rightarrow> char list" where
  "wb_accept key ip prt =
     ''HTTP/1.1 101 Switching Protocols'' @ [CHR 0x0D, CHR 0x0A] @ ''Upgrade:websocket'' @ [CHR 0x0D, CHR 0x0A]
     @ ''Connection: Upgrade'' @ [CHR 0x0D, CHR 0x0A] @ ''Sec-WebSocket-Accept: '' @ key @ [CHR 0x0D, CHR 0x0A]
     @ ''WebSocket-Location: ws://'' @ ip @ '':'' @ prt @ ''/chat'' @ [CHR 0x0D, CHR 0x0A]
     @ ''WebSocket-Protocol:chat'' @ [CHR 0x0D, CHR 0x0A, CHR 0x0D, CHR 0x0A]"

definition migic :: "char list" where
  "migic = ''258EAFA5-E914-47DA-95CA-C5AB0DC85B11''"

text \<open>\<open>sprintf\<close> of a nul-free text into an array.\<close>

definition sprintf_into :: "char list \<Rightarrow> char list \<Rightarrow> char list option" where
  "sprintf_into dst s = (if length s < length dst then Some (s @ NUL # drop (length s + 1) dst) else None)"

text \<open>
  \<open>ctx\<close> is the uninitialised context of the hash, \<open>ip\<close> and \<open>prt\<close> come from the socket.
\<close>

definition RetHttpHandlerPackkage :: "(nat \<Rightarrow> char) \<Rightarrow> SHA1_CTX \<Rightarrow> char list \<Rightarrow> u16 \<Rightarrow> http_statics \<Rightarrow> b64_static \<Rightarrow>
    net_session \<Rightarrow> net_env \<Rightarrow> (b64_static \<times> net_session \<times> net_env) option" where
  "RetHttpHandlerPackkage junk ctx ip prt w st s e = do {
     key \<leftarrow> sprintf_into (replicate 256 NUL) (c_str (client_ws_key w) @ migic);
     sha1_content \<leftarrow> crypt_sha1 ctx (map byte_of (c_str key));
     (st', b64_str, base64_len) \<leftarrow> base64_encode junk st sha1_content;
     key' \<leftarrow> copy_string key b64_str base64_len;
     accept \<leftarrow> sprintf_into (replicate 256 NUL) (wb_accept (c_str key') ip (dec_digits (unat prt)));
     let buff = c_str accept;
     let s1 = s\<lparr>key_migic := key', accept_buffer := accept\<rparr>;
     (h, A) \<leftarrow> Allocator_AllocDataBuff junk (int (length buff)) (pool e);
     A1 \<leftarrow> set_total h (of_nat (length buff)) A;
     A2 \<leftarrow> write_at h 0 buff (length buff) A1;
     (s2, e2) \<leftarrow> DoSend junk (snd (SendBuffer h s1)) (e\<lparr>pool := A2\<rparr>);
     Some (st', s2, e2) }"

text \<open>The bytes of the answer.\<close>

definition accept_key :: "char list \<Rightarrow> char list" where
  "accept_key k = rfc4648 (sha1_digest (map byte_of (k @ migic)))"

definition handshake_answer :: "char list \<Rightarrow> char list \<Rightarrow> u16 \<Rightarrow> char list" where
  "handshake_answer k ip prt = wb_accept (accept_key k) ip (dec_digits (unat prt))"


lemma length_sha1_digest [simp]: "length (sha1_digest m) = 20"
proof -
  have "length (concat (map word_bytes ws)) = 4 * length ws" for ws by (induction ws) (simp_all add: word_bytes_def)
  then show ?thesis by (simp add: sha1_digest_def sha1_H0_def)
qed

lemma accept_key_facts [simp]: "length (accept_key k) = 28" "nul_free (accept_key k)"
  using length_b64 nul_free_b64 by (simp_all add: accept_key_def flip: b64_rfc4648)

lemma handshake_answer_facts:
  assumes "length ip \<le> 45" "nul_free ip"
  shows "length (handshake_answer k ip prt) < 256" "128 \<le> length (handshake_answer k ip prt)" "nul_free (handshake_answer k ip prt)"
proof -
  have "unat prt < 2 ^ 16" using unsigned_less [of prt] by simp
  then have "length (dec_digits (unat prt)) \<le> 5" by (intro length_dec_digits) simp_all
  then show "length (handshake_answer k ip prt) < 256" using assms(1) by (simp add: handshake_answer_def wb_accept_def)
  show "128 \<le> length (handshake_answer k ip prt)" by (simp add: handshake_answer_def wb_accept_def)
  show "nul_free (handshake_answer k ip prt)" using assms(2) by (simp add: handshake_answer_def wb_accept_def)
qed

lemma sprintf_into_ok:
  "length t < length dst \<Longrightarrow> nul_free t \<Longrightarrow> \<exists>m. sprintf_into dst t = Some m \<and> c_str m = t \<and> length m = length dst"
  by (simp add: sprintf_into_def)

text \<open>A new buffer with \<open>SetTotalLenth\<close> before the \<open>memcpy\<close>.\<close>

lemma answer_buffer:
  assumes "allocator_ok A" "length t < 65536"
  shows "\<exists>h A' b. do { (h, A1) \<leftarrow> Allocator_AllocDataBuff junk (int (length t)) A; A2 \<leftarrow> set_total h (of_nat (length t)) A1;
      A3 \<leftarrow> write_at h 0 t (length t) A2; Some (h, A3) } = Some (h, A') \<and> fst h = pool_for (int (length t)) \<and> allocator_ok A'
    \<and> live A' h \<and> buffer_at A' h = Some b \<and> m_nDataLen b = of_nat (length t) \<and> take (length t) (m_Buffer b) = t
    \<and> (\<forall>k. live A k \<longrightarrow> live A' k \<and> buffer_at A' k = buffer_at A k)"
proof -
  have lim: "int (length t) < 10383360" using assms(2) by simp
  from allocator.alloc_law [OF assms(1) lim, of junk] obtain h A1 b where
    a: "Allocator_AllocDataBuff junk (int (length t)) A = Some (h, A1)" "allocator_ok A1" "\<not> live A h" "live A1 h"
      "buffer_at A1 h = Some b" "int (length t) \<le> int (length (m_Buffer b))"
      "\<forall>k. k \<noteq> h \<longrightarrow> buffer_at A1 k = buffer_at A k \<and> live A1 k = live A k" by blast
  from allocator.total_law [OF a(2,4,5), of "of_nat (length t)"] obtain A2 where
    b: "set_total h (of_nat (length t)) A1 = Some A2" "allocator_ok A2" "buffer_at A2 h = Some (b\<lparr>m_nDataLen := of_nat (length t)\<rparr>)"
      "\<forall>k. live A2 k = live A1 k \<and> (k \<noteq> h \<longrightarrow> buffer_at A2 k = buffer_at A1 k)" by blast
  let ?m = "t @ drop (length t) (m_Buffer b)"
  have "memcpy (m_Buffer (b\<lparr>m_nDataLen := of_nat (length t)\<rparr>)) 0 t (length t) = Some ?m"
    using a(6) by (simp add: memcpy_def)
  from allocator.copy_law [OF b(2) _ b(3) this] b(4) a(4) obtain A3 where
    c: "write_at h 0 t (length t) A2 = Some A3" "allocator_ok A3"
      "buffer_at A3 h = Some (b\<lparr>m_nDataLen := of_nat (length t), m_Buffer := ?m\<rparr>)"
      "\<forall>k. live A3 k = live A2 k \<and> (k \<noteq> h \<longrightarrow> buffer_at A3 k = buffer_at A2 k)" by auto
  have "fst h = pool_for (int (length t))" using a(1) by (auto simp: Allocator_AllocDataBuff_def Let_def split: Option.bind_splits)
  moreover have "\<forall>k. live A k \<longrightarrow> live A3 k \<and> buffer_at A3 k = buffer_at A k" using a(3,7) b(4) c(4) by metis
  moreover have "live A3 h" using a(4) b(4) c(4) by simp
  moreover have "do { (h, A1) \<leftarrow> Allocator_AllocDataBuff junk (int (length t)) A; A2 \<leftarrow> set_total h (of_nat (length t)) A1;
      A3 \<leftarrow> write_at h 0 t (length t) A2; Some (h, A3) } = Some (h, A3)" using a(1) b(1) c(1) by simp
  ultimately show ?thesis using c(2,3)
    by (intro exI [of _ h] exI [of _ A3] exI [of _ "b\<lparr>m_nDataLen := of_nat (length t), m_Buffer := ?m\<rparr>"]) simp
qed


lemma c_str_take:
  assumes "c_str buf = r" "length r = n"
  shows "c_str (take n buf) = r" "n \<le> length buf"
proof -
  have "take n buf = r" using takeWhile_eq_take [of "\<lambda>c. c \<noteq> NUL" buf] assms by (simp add: c_str_def)
  moreover have "nul_free r" using assms(1) by (auto simp: c_str_def nul_free_def dest: set_takeWhileD)
  ultimately show "c_str (take n buf) = r" by simp
  show "n \<le> length buf" using length_c_str_le [of buf] assms by simp
qed

text \<open>The text of the answer, up to the allocation.\<close>

lemma answer_text:
  assumes "statics_ok w" "length (small_chunk_encode st) = 256" "length (buffer ctx) = 64" "length ip \<le> 45" "nul_free ip"
  shows "\<exists>st' key key' accept b64. sprintf_into (replicate 256 NUL) (c_str (client_ws_key w) @ migic) = Some key
    \<and> crypt_sha1 ctx (map byte_of (c_str key)) = Some (sha1_digest (map byte_of (c_str key)))
    \<and> base64_encode junk st (sha1_digest (map byte_of (c_str key))) = Some (st', b64, 28)
    \<and> length (small_chunk_encode st') = 256 \<and> copy_string key b64 28 = Some key'
    \<and> sprintf_into (replicate 256 NUL) (wb_accept (c_str key') ip (dec_digits (unat prt))) = Some accept
    \<and> c_str accept = handshake_answer (c_str (client_ws_key w)) ip prt"
proof -
  let ?k = "c_str (client_ws_key w)"
  have k: "length ?k < 128" "nul_free ?k"
    using assms(1) length_c_str_less [of "client_ws_key w"] by (auto simp: statics_ok_def c_str_def nul_free_def dest: set_takeWhileD)
  have m: "length migic = 36" "nul_free migic" by (simp_all add: migic_def)
  obtain key where key: "sprintf_into (replicate 256 NUL) (?k @ migic) = Some key" "c_str key = ?k @ migic" "length key = 256"
    using sprintf_into_ok [of "?k @ migic" "replicate 256 NUL"] k m by auto
  have sha: "crypt_sha1 ctx (map byte_of (c_str key)) = Some (sha1_digest (map byte_of (c_str key)))"
    using key(2) k(1) m(1) by (intro crypt_sha1_computes [OF _ assms(3)]) simp
  have l: "length (rfc4648 (sha1_digest (map byte_of (c_str key)))) = 28"
    using accept_key_facts(1) [of ?k] key(2) by (simp add: accept_key_def)
  obtain st' b64 where b: "base64_encode junk st (sha1_digest (map byte_of (c_str key))) = Some (st', b64, 28)"
    "c_str b64 = accept_key ?k" "length (small_chunk_encode st') = 256"
    using base64_encode_computes [OF assms(2), of junk "sha1_digest (map byte_of (c_str key))"] l key(2) by (auto simp: accept_key_def)
  have t: "c_str (take 28 b64) = accept_key ?k" "28 \<le> length b64"
    using c_str_take [OF b(2)] by simp_all
  then obtain key' where key': "copy_string key b64 28 = Some key'" "c_str key' = accept_key ?k"
    using copy_string_ok [of 28 key b64] key(3) by auto
  have "length (wb_accept (c_str key') ip (dec_digits (unat prt))) < 256" "nul_free (wb_accept (c_str key') ip (dec_digits (unat prt)))"
    using handshake_answer_facts [OF assms(4,5), of ?k prt] key'(2) by (simp_all add: handshake_answer_def)
  then obtain accept where "sprintf_into (replicate 256 NUL) (wb_accept (c_str key') ip (dec_digits (unat prt))) = Some accept"
    "c_str accept = handshake_answer ?k ip prt"
    using sprintf_into_ok [of "wb_accept (c_str key') ip (dec_digits (unat prt))" "replicate 256 NUL"] key'(2)
    by (auto simp: handshake_answer_def)
  with key(1) sha b(1,3) key'(1) show ?thesis by blast
qed

lemma ret_ok:
  assumes "statics_ok w" "length (small_chunk_encode st) = 256" "length (buffer ctx) = 64" "length ip \<le> 45" "nul_free ip"
    and "allocator_ok (pool e)" "lockfree_queue s = []"
    and ans: "ans = handshake_answer (c_str (client_ws_key w)) ip prt"
  shows "\<exists>st' A key accept. RetHttpHandlerPackkage junk ctx ip prt w st s e
      = Some (st', s\<lparr>key_migic := key, accept_buffer := accept\<rparr>, e\<lparr>pool := A, written := written e @ [ans @ replicate (256 - length ans) NUL]\<rparr>)
    \<and> length (small_chunk_encode st') = 256 \<and> allocator_ok A \<and> keeps None e (e\<lparr>pool := A\<rparr>)"
proof -
  from answer_text [OF assms(1-5), of junk prt] obtain st' key key' accept b64 where
    t: "sprintf_into (replicate 256 NUL) (c_str (client_ws_key w) @ migic) = Some key"
      "crypt_sha1 ctx (map byte_of (c_str key)) = Some (sha1_digest (map byte_of (c_str key)))"
      "base64_encode junk st (sha1_digest (map byte_of (c_str key))) = Some (st', b64, 28)"
      "length (small_chunk_encode st') = 256" "copy_string key b64 28 = Some key'"
      "sprintf_into (replicate 256 NUL) (wb_accept (c_str key') ip (dec_digits (unat prt))) = Some accept" "c_str accept = ans"
    unfolding ans by blast
  note len = handshake_answer_facts [OF assms(4,5), of "c_str (client_ws_key w)" prt, folded ans]
  have p: "pool_for (int (length ans)) = 256" using len(1,2) by (simp add: pool_for_def)
  have u: "unat (of_nat (length ans) :: u32) = length ans" using len(1) by (simp add: unat_of_nat take_bit_nat_eq_self)
  have "length ans < 65536" using len(1) by simp
  from answer_buffer [OF assms(6) this, of junk] obtain h A b where
    a: "do { (h, A1) \<leftarrow> Allocator_AllocDataBuff junk (int (length ans)) (pool e); A2 \<leftarrow> set_total h (of_nat (length ans)) A1;
      A3 \<leftarrow> write_at h 0 ans (length ans) A2; Some (h, A3) } = Some (h, A)"
      "fst h = 256" "allocator_ok A" "live A h" "buffer_at A h = Some b" "m_nDataLen b = of_nat (length ans)"
      "take (length ans) (m_Buffer b) = ans" "\<forall>k. live (pool e) k \<longrightarrow> live A k \<and> buffer_at A k = buffer_at (pool e) k"
    unfolding p by blast
  let ?e = "e\<lparr>pool := A\<rparr>"
  have ok: "allocator_ok (pool ?e)" "live (pool ?e) h" "buffer_at (pool ?e) h = Some b" "unat (m_nDataLen b) \<le> fst h"
    "fst h \<le> 1024" "length (replicate 1024 NUL) = 1024" using a(2-6) len(1) u by simp_all
  from send_one_ok [OF this, of junk] obtain A' where
    s: "send_one junk h (replicate 1024 NUL) ?e = Some (ans @ replicate (1024 - length ans) NUL,
        ?e\<lparr>pool := A', written := written ?e @ [take 256 (ans @ replicate (1024 - length ans) NUL)]\<rparr>)"
      "allocator_ok A'" "keeps None ?e (?e\<lparr>pool := A'\<rparr>)"
    using a(2,6,7) u by auto
  have w: "take 256 (ans @ replicate (1024 - length ans) NUL) = ans @ replicate (256 - length ans) NUL"
    using len(1) by (simp add: min_def)
  have k: "keeps None e (e\<lparr>pool := A'\<rparr>)" using s(3) a(8) by (simp add: keeps_def)
  obtain A1 A2 where a1: "Allocator_AllocDataBuff junk (int (length ans)) (pool e) = Some (h, A1)"
    "set_total h (of_nat (length ans)) A1 = Some A2" "write_at h 0 ans (length ans) A2 = Some A"
    using a(1) by (auto split: Option.bind_splits)
  let ?s = "s\<lparr>key_migic := key', accept_buffer := accept\<rparr>"
  have q: "SendBuffer h ?s = (True, ?s\<lparr>lockfree_queue := [h]\<rparr>)"
    using assms(7) by (simp add: SendBuffer_def queue_capacity_def)
  have "DoSend junk (snd (SendBuffer h ?s)) ?e = Some (?s\<lparr>lockfree_queue := []\<rparr>,
      e\<lparr>pool := A', written := written e @ [ans @ replicate (256 - length ans) NUL]\<rparr>)"
    using s(1) w q by (simp add: DoSend_def)
  moreover have "?s\<lparr>lockfree_queue := []\<rparr> = ?s" using assms(7) by simp
  ultimately have "RetHttpHandlerPackkage junk ctx ip prt w st s e
      = Some (st', ?s, e\<lparr>pool := A', written := written e @ [ans @ replicate (256 - length ans) NUL]\<rparr>)"
    unfolding RetHttpHandlerPackkage_def using t(1-3,5-7) a1 by (simp add: Let_def)
  with t(4) s(2) k show ?thesis by blast
qed


section \<open>\<open>HandleRecvEvent\<close>\<close>

record server =
  ses :: net_session
  env :: net_env
  statics :: http_statics
  b64st :: b64_static

text \<open>The first component of the result says whether a further read is posted.\<close>

definition HandleRecvEvent :: "(nat \<Rightarrow> char) \<Rightarrow> SHA1_CTX \<Rightarrow> char list \<Rightarrow> u16 \<Rightarrow> nat \<Rightarrow> server \<Rightarrow> (bool \<times> server) option" where
  "HandleRecvEvent junk ctx ip prt dwBytes Z =
     (let s1 = count_received dwBytes (ses Z) in
      if m_dwDataLen s1 = 0 then Some (False, Z\<lparr>ses := s1\<rparr>)
      else if \<not> m_IsHandler s1 then do {
        (found, q, w) \<leftarrow> CheckHttpPackkage s1 (statics Z);
        if \<not> found then Some (False, Z\<lparr>ses := fst (Close s1 (env Z)), env := snd (Close s1 (env Z)), statics := w\<rparr>)
        else do {
          (st, s2, e2) \<leftarrow> RetHttpHandlerPackkage junk ctx ip prt w (b64st Z) s1 (env Z);
          Some (True, Z\<lparr>ses := s2\<lparr>m_dwDataLen := 0, m_IsHandler := True\<rparr>, env := e2, statics := w, b64st := st\<rparr>) } }
      else do {
        (s2, e2) \<leftarrow> ExtractBuffer junk s1 (env Z);
        Some (True, Z\<lparr>ses := s2, env := e2\<rparr>) })"

definition HandReaddata :: "bool \<Rightarrow> (nat \<Rightarrow> char) \<Rightarrow> SHA1_CTX \<Rightarrow> char list \<Rightarrow> u16 \<Rightarrow> nat \<Rightarrow> server \<Rightarrow> (bool \<times> server) option" where
  "HandReaddata failed junk ctx ip prt len Z =
     (if failed then Some (False, Z) else HandleRecvEvent junk ctx ip prt len Z)"

definition HandWritedata :: "bool \<Rightarrow> (nat \<Rightarrow> char) \<Rightarrow> server \<Rightarrow> server option" where
  "HandWritedata failed junk Z =
     (if failed then Some Z
      else map_option (\<lambda>(s, e). Z\<lparr>ses := s, env := e\<rparr>) (DoSend junk (ses Z) (env Z)))"

definition server_ok :: "server \<Rightarrow> bool" where
  "server_ok Z \<longleftrightarrow> session_ok (ses Z) (env Z) \<and> lockfree_queue (ses Z) = [] \<and> statics_ok (statics Z)
     \<and> length (small_chunk_encode (b64st Z)) = 256"

text \<open>The context of the hash has its 64 bytes, and the socket prints its address in at most 45 characters.\<close>

definition peer_ok :: "SHA1_CTX \<Rightarrow> char list \<Rightarrow> bool" where
  "peer_ok ctx ip \<longleftrightarrow> length (buffer ctx) = 64 \<and> length ip \<le> 45 \<and> nul_free ip"

lemma session_ok_keys [simp]:
  "session_ok (s\<lparr>key_migic := k, accept_buffer := a\<rparr>) e = session_ok s e"
  "session_ok (s\<lparr>m_IsHandler := b\<rparr>) e = session_ok s e"
  by (simp_all add: session_ok_def at_work_def pending_ok_def)

lemma session_ok_keeps:
  "session_ok s e \<Longrightarrow> allocator_ok (pool e') \<Longrightarrow> keeps None e e' \<Longrightarrow> session_ok s e'"
  by (auto simp: session_ok_def at_work_def pending_ok_def keeps_def)

lemma session_ok_pool: "pool e' = pool e \<Longrightarrow> session_ok s e' = session_ok s e"
  by (simp add: session_ok_def at_work_def pending_ok_def)

lemma session_ok_reset: "session_ok s e \<Longrightarrow> session_ok (s\<lparr>m_dwDataLen := 0\<rparr>) e"
  by (simp add: session_ok_def at_work_def pending_ok_def)

text \<open>\<open>ExtractBuffer\<close> does not touch the queue of buffers to send.\<close>

lemma extract_step_queue: "extract_step junk s e = Some (b, s', e') \<Longrightarrow> lockfree_queue s' = lockfree_queue s"
  by (auto simp: extract_step_def continue_packet_def next_packet_def Close_def Let_def
      split: Option.bind_splits option.splits if_splits)

lemma extract_loop_queue:
  assumes "extract_loop junk s e = Some r"
  shows "lockfree_queue (fst r) = lockfree_queue s"
  by (rule extract_loop.raw_induct [where P = "\<lambda>junk s e r. lockfree_queue (fst r) = lockfree_queue s", OF _ assms])
    (fastforce split: Option.bind_splits if_splits dest: extract_step_queue)

lemma queue_step: "ExtractBuffer junk s e = Some (s', e') \<Longrightarrow> lockfree_queue s' = lockfree_queue s"
  by (auto simp: ExtractBuffer_def split: Option.bind_splits if_splits dest!: extract_loop_queue)

lemma handshake_step:
  assumes Z: "session_ok s1 (env Z)" "lockfree_queue s1 = []" "statics_ok w" "length (small_chunk_encode (b64st Z)) = 256"
    and peer: "peer_ok ctx ip" and n: "m_dwDataLen s1 \<noteq> 0" "\<not> m_IsHandler s1" "s1 = count_received k (ses Z)"
    and c: "CheckHttpPackkage s1 (statics Z) = Some (True, q, w)"
    and ans: "ans = handshake_answer (c_str (client_ws_key w)) ip prt"
  shows "\<exists>Z'. HandleRecvEvent junk ctx ip prt k Z = Some (True, Z') \<and> server_ok Z' \<and> m_IsHandler (ses Z') \<and> unread (ses Z') = []
    \<and> written (env Z') = written (env Z) @ [ans @ replicate (256 - length ans) NUL] \<and> calls (env Z') = calls (env Z)"
proof -
  from ret_ok [OF Z(3,4) _ _ _ _ Z(2) ans, of ctx "env Z" junk] peer Z(1) obtain st' A key accept where
    r: "RetHttpHandlerPackkage junk ctx ip prt w (b64st Z) s1 (env Z)
      = Some (st', s1\<lparr>key_migic := key, accept_buffer := accept\<rparr>, env Z\<lparr>pool := A, written := written (env Z) @ [ans @ replicate (256 - length ans) NUL]\<rparr>)"
      "length (small_chunk_encode st') = 256" "allocator_ok A" "keeps None (env Z) (env Z\<lparr>pool := A\<rparr>)"
    by (auto simp: peer_ok_def session_ok_def at_work_def)
  let ?e = "env Z\<lparr>pool := A, written := written (env Z) @ [ans @ replicate (256 - length ans) NUL]\<rparr>"
  have "keeps None (env Z) ?e" using r(4) by (simp add: keeps_def)
  then have "session_ok s1 ?e" using session_ok_keeps [OF Z(1), of ?e] r(3) by simp
  then have "session_ok (s1\<lparr>key_migic := key, accept_buffer := accept, m_dwDataLen := 0, m_IsHandler := True\<rparr>) ?e"
    by (simp add: session_ok_def at_work_def pending_ok_def)
  then show ?thesis
    using n(1,2) c r(1,2) Z(2,3) by (simp add: HandleRecvEvent_def n(3) [symmetric] Let_def server_ok_def unread_def)
qed

lemma refused_step:
  assumes Z: "session_ok s1 (env Z)" "lockfree_queue s1 = []" "statics_ok w" "length (small_chunk_encode (b64st Z)) = 256"
    and n: "m_dwDataLen s1 \<noteq> 0" "\<not> m_IsHandler s1" "s1 = count_received k (ses Z)"
    and c: "CheckHttpPackkage s1 (statics Z) = Some (False, q, w)"
  shows "\<exists>Z'. HandleRecvEvent junk ctx ip prt k Z = Some (False, Z') \<and> server_ok Z' \<and> \<not> socket_open (env Z')
    \<and> calls (env Z') = calls (env Z) @ [OnCloseConnect (m_dwSessionID s1)]"
proof -
  have "m_pDataHandler s1" using Z(1) by (simp add: session_ok_def at_work_def)
  then have "session_ok (fst (Close s1 (env Z))) (snd (Close s1 (env Z)))"
    using Z(1) session_ok_pool [of "snd (Close s1 (env Z))" "env Z"] by (simp add: Close_def)
  then show ?thesis
    using n(1,2) c Z(2-4) \<open>m_pDataHandler s1\<close>
    by (simp add: HandleRecvEvent_def n(3) [symmetric] Let_def server_ok_def Close_def)
qed


lemma frames_step:
  assumes Z: "session_ok s1 (env Z)" "lockfree_queue s1 = []" "statics_ok (statics Z)" "length (small_chunk_encode (b64st Z)) = 256"
    and n: "m_dwDataLen s1 \<noteq> 0" "m_IsHandler s1" "s1 = count_received k (ses Z)"
  shows "\<exists>Z'. HandleRecvEvent junk ctx ip prt k Z = Some (True, Z') \<and> server_ok Z'
    \<and> extracted (s1, env Z) (ses Z', env Z') = deframe (pending_of s1 (env Z)) (unread s1)"
proof -
  from extract_ok [OF Z(1), of junk] obtain s' e' where
    x: "ExtractBuffer junk s1 (env Z) = Some (s', e')" "session_ok s' e'"
      "extracted (s1, env Z) (s', e') = deframe (pending_of s1 (env Z)) (unread s1)"
    using performs_extracted by blast
  then show ?thesis
    using n(1,2) Z(2-4) queue_step [OF x(1)]
    by (simp add: HandleRecvEvent_def n(3) [symmetric] Let_def server_ok_def)
qed

lemma handle_ok:
  assumes Z: "server_ok Z" and peer: "peer_ok ctx ip"
    and fits: "length bytes \<le> RECV_BUF_SIZE - unat (m_dwDataLen (ses Z))"
  shows "\<exists>s1 r Z'. DoReceive bytes (ses Z) = Some s1
    \<and> HandleRecvEvent junk ctx ip prt (length bytes) (Z\<lparr>ses := s1\<rparr>) = Some (r, Z') \<and> server_ok Z'"
proof -
  have ok: "session_ok (ses Z) (env Z)" using Z by (simp add: server_ok_def)
  from receive_ok [OF ok fits] obtain s1 where
    r: "DoReceive bytes (ses Z) = Some s1" "session_ok (count_received (length bytes) s1) (env Z)"
      "s1 = ses Z\<lparr>m_pRecvBuf := m_pRecvBuf s1\<rparr>" by blast
  let ?Z = "Z\<lparr>ses := s1\<rparr>" and ?s = "count_received (length bytes) s1"
  have q: "lockfree_queue s1 = []" by (subst r(3)) (use Z in \<open>simp add: server_ok_def\<close>)
  have b: "session_ok ?s (env ?Z)" "lockfree_queue ?s = []" "statics_ok (statics ?Z)" "length (small_chunk_encode (b64st ?Z)) = 256"
    using r(2) Z q by (simp_all add: server_ok_def count_received_def)
  consider "m_dwDataLen ?s = 0" | "m_dwDataLen ?s \<noteq> 0" "m_IsHandler ?s" | "m_dwDataLen ?s \<noteq> 0" "\<not> m_IsHandler ?s" by blast
  then have "\<exists>r Z'. HandleRecvEvent junk ctx ip prt (length bytes) ?Z = Some (r, Z') \<and> server_ok Z'"
  proof cases
    case 1
    then show ?thesis using b by (auto simp: HandleRecvEvent_def server_ok_def)
  next
    case 2
    from frames_step [OF b 2, of "length bytes" junk ctx ip prt] show ?thesis by auto
  next
    case 3
    obtain found q' w where c: "CheckHttpPackkage ?s (statics ?Z) = Some (found, q', w)" "statics_ok w"
      using check_http_ok [OF b(3)] by blast
    show ?thesis
    proof (cases found)
      case True
      with handshake_step [OF b(1,2) c(2) b(4) peer 3] c(1) show ?thesis by fastforce
    next
      case False
      with refused_step [OF b(1,2) c(2) b(4) 3] c(1) show ?thesis by fastforce
    qed
  qed
  with r(1) show ?thesis by blast
qed

section \<open>The life of a session\<close>

text \<open>
  From its acceptance on: bytes arrive, never more than there is room for; between receives the other
  sessions and the service use the shared allocator and the shared statics, but not the buffer of the packet
  under way.
\<close>

definition accepted :: "u32 \<Rightarrow> allocator \<Rightarrow> (nat \<Rightarrow> char) \<Rightarrow> http_statics \<Rightarrow> b64_static \<Rightarrow> server" where
  "accepted i A junk w st = \<lparr>ses = (CNetSession junk)\<lparr>m_dwSessionID := i, m_pDataHandler := True\<rparr>,
     env = \<lparr>pool = A, calls = [], socket_open = True, written = []\<rparr>, statics = w, b64st = st\<rparr>"

inductive session_life :: "server \<Rightarrow> bool" where
  life_start: "allocator_ok A \<Longrightarrow> statics_ok w \<Longrightarrow> length (small_chunk_encode st) = 256 \<Longrightarrow> session_life (accepted i A junk w st)"
| life_receive: "session_life Z \<Longrightarrow> length bytes \<le> RECV_BUF_SIZE - unat (m_dwDataLen (ses Z)) \<Longrightarrow> peer_ok ctx ip
    \<Longrightarrow> DoReceive bytes (ses Z) = Some s1
    \<Longrightarrow> HandleRecvEvent junk ctx ip prt (length bytes) (Z\<lparr>ses := s1\<rparr>) = Some (r, Z') \<Longrightarrow> session_life Z'"
| life_others: "session_life Z \<Longrightarrow> allocator_ok A \<Longrightarrow> statics_ok w \<Longrightarrow> length (small_chunk_encode st) = 256
    \<Longrightarrow> (\<And>h. m_pCurRecvBuffer (ses Z) = Some h \<Longrightarrow> live A h \<and> buffer_at A h = buffer_at (pool (env Z)) h)
    \<Longrightarrow> session_life (Z\<lparr>env := (env Z)\<lparr>pool := A\<rparr>, statics := w, b64st := st\<rparr>)"

lemma session_life_ok: "session_life Z \<Longrightarrow> server_ok Z"
proof (induction rule: session_life.induct)
  case (life_start A w st i junk)
  then show ?case
    by (simp add: server_ok_def accepted_def session_ok_def at_work_def CNetSession_def)
next
  case (life_receive Z bytes ctx ip s1 junk prt r Z')
  with handle_ok [of Z ctx ip bytes junk prt] show ?case by auto
next
  case (life_others Z A w st)
  have "pending_ok (ses Z) ((env Z)\<lparr>pool := A\<rparr>) h" if "m_pCurRecvBuffer (ses Z) = Some h" for h
    using life_others(5) [OF that] life_others(6) that
    by (auto simp: server_ok_def session_ok_def at_work_def pending_ok_def)
  with life_others show ?case by (simp add: server_ok_def session_ok_def at_work_def)
qed


section \<open>Properties\<close>

definition server_start :: server where
  "server_start = accepted 1 CBufferAllocator (\<lambda>_. NUL) CHttpParser_statics \<lparr>small_chunk_encode = replicate 256 NUL, alloc_buffer = None\<rparr>"

definition zero_ctx :: SHA1_CTX where
  "zero_ctx = \<lparr>state = [], count0 = 0, count1 = 0, buffer = replicate 64 0\<rparr>"

lemma server_start_life: "session_life server_start"
  unfolding server_start_def by (rule life_start) (simp_all add: allocator_ok_new statics_ok_start)

lemma peer_ok_zero: "peer_ok zero_ctx ''127.0.0.1''"
  by (simp add: peer_ok_def zero_ctx_def)

lemma server_start_facts:
  "m_dwDataLen (ses server_start) = 0" "\<not> m_IsHandler (ses server_start)" "pending_of (ses server_start) e = None"
  "unread (ses server_start) = []" "statics server_start = CHttpParser_statics"
  by (simp_all add: server_start_def accepted_def CNetSession_def pending_of_def unread_def)




text \<open>A short request, in the old form without a version.\<close>

definition short_request :: "char list" where
  "short_request = ''GET /'' @ [CHR 0x0A] @ ''Sec-WebSocket-Key:a'' @ [CHR 0x0D]"

lemma short_request_run:
  "map_option (\<lambda>(q, st, n). map_option (\<lambda>w. (has_client_key w, c_str (client_ws_key w))) st)
     (http_parser_execute ws_settings (http_parser_init zeroed_parser HTTP_REQUEST) (Some CHttpParser_statics) short_request)
   = Some (Some (True, ''a''))"
  by code_simp

lemma short_request_key:
  "unread s = short_request \<Longrightarrow> \<exists>q w. CheckHttpPackkage s CHttpParser_statics = Some (True, q, w) \<and> c_str (client_ws_key w) = ''a''"
proof -
  assume u: "unread s = short_request"
  have "CHttpParser_statics\<lparr>has_client_key := False\<rparr> = CHttpParser_statics" by (simp add: CHttpParser_statics_def)
  with short_request_run u show ?thesis by (auto simp: CheckHttpPackkage_def)
qed



text \<open>
  A request whose key has not arrived whole with the first receive is not waited for: the socket is
  closed, the handler is told, and no further read is posted.
\<close>

theorem incomplete_request_closes:
  assumes "server_ok Z" "length bytes \<le> RECV_BUF_SIZE - unat (m_dwDataLen (ses Z))"
    and "\<not> m_IsHandler (ses Z)" "unread (ses Z) = []" "bytes \<noteq> []"
    and key: "\<And>s. unread s = bytes \<Longrightarrow> \<exists>q w. CheckHttpPackkage s (statics Z) = Some (False, q, w)"
  shows "\<exists>s1 Z'. DoReceive bytes (ses Z) = Some s1
    \<and> HandleRecvEvent junk ctx ip prt (length bytes) (Z\<lparr>ses := s1\<rparr>) = Some (False, Z')
    \<and> \<not> socket_open (env Z') \<and> calls (env Z') = calls (env Z) @ [OnCloseConnect (m_dwSessionID (ses Z))]"
proof -
  have ok: "session_ok (ses Z) (env Z)" using assms(1) by (simp add: server_ok_def)
  from receive_ok [OF ok assms(2)] obtain s1 where
    r: "DoReceive bytes (ses Z) = Some s1" "session_ok (count_received (length bytes) s1) (env Z)"
      "unread (count_received (length bytes) s1) = unread (ses Z) @ bytes"
      "m_dwDataLen (count_received (length bytes) s1) \<noteq> 0" "s1 = ses Z\<lparr>m_pRecvBuf := m_pRecvBuf s1\<rparr>"
    using assms(5) by blast
  let ?Z = "Z\<lparr>ses := s1\<rparr>" and ?s = "count_received (length bytes) s1"
  have q: "lockfree_queue s1 = []" "\<not> m_IsHandler s1" "m_dwSessionID s1 = m_dwSessionID (ses Z)"
    by (subst r(5), use assms(1,3) in \<open>simp add: server_ok_def\<close>)+
  obtain h w where c: "CheckHttpPackkage ?s (statics Z) = Some (False, h, w)"
    using key [of ?s] r(3) assms(4) by auto
  have w: "statics_ok w" using check_http_ok [of "statics Z" ?s] c(1) assms(1) by (auto simp: server_ok_def)
  have "\<exists>Z'. HandleRecvEvent junk ctx ip prt (length bytes) ?Z = Some (False, Z') \<and> server_ok Z' \<and> \<not> socket_open (env Z')
    \<and> calls (env Z') = calls (env ?Z) @ [OnCloseConnect (m_dwSessionID ?s)]"
    by (rule refused_step [where w = w and q = h])
      (use r(2,4) q w c assms(1) in \<open>simp_all add: server_ok_def count_received_def\<close>)
  with r(1) q(3) show ?thesis by (auto simp: count_received_def)
qed

lemma get_run:
  "map_option (\<lambda>(q, st, n). map_option has_client_key st)
     (http_parser_execute ws_settings (http_parser_init zeroed_parser HTTP_REQUEST) (Some CHttpParser_statics) ''GET'')
   = Some (Some False)"
  by code_simp

theorem incomplete_request_closes_witness:
  "\<exists>s1 Z'. DoReceive ''GET'' (ses server_start) = Some s1
    \<and> HandleRecvEvent (\<lambda>_. NUL) zero_ctx ''127.0.0.1'' 80 (length ''GET'') (server_start\<lparr>ses := s1\<rparr>) = Some (False, Z')
    \<and> \<not> socket_open (env Z') \<and> calls (env Z') = calls (env server_start) @ [OnCloseConnect (m_dwSessionID (ses server_start))]"
proof (rule incomplete_request_closes [OF session_life_ok [OF server_start_life]])
  fix s assume u: "unread s = ''GET''"
  have "CHttpParser_statics\<lparr>has_client_key := False\<rparr> = CHttpParser_statics" by (simp add: CHttpParser_statics_def)
  with get_run u show "\<exists>q w. CheckHttpPackkage s (statics server_start) = Some (False, q, w)"
    by (auto simp: CheckHttpPackkage_def server_start_facts(5))
qed (simp_all add: server_start_facts RECV_BUF_SIZE_def)



definition stuck_bytes :: "char list" where
  "stuck_bytes = [CHR 0x82, CHR 0xFF] @ replicate 8190 CHR 0x01"

definition stuck_server :: server where
  "stuck_server = server_start\<lparr>ses := (fresh_session stuck_bytes)\<lparr>m_IsHandler := True\<rparr>, env := fresh_env\<rparr>"

lemma stuck_server_facts:
  "server_ok stuck_server" "m_IsHandler (ses stuck_server)" "m_pCurRecvBuffer (ses stuck_server) = None"
  "unread (ses stuck_server) = stuck_bytes"
proof -
  have l: "length stuck_bytes = 8192" by (simp add: stuck_bytes_def)
  note f = fresh_session_ok [of stuck_bytes]
  show "server_ok stuck_server"
    using f(1) l session_life_ok [OF server_start_life]
    by (simp add: server_ok_def stuck_server_def) (simp add: fresh_session_def CNetSession_def)
  show "unread (ses stuck_server) = stuck_bytes" using f(3) l by (simp add: stuck_server_def unread_def)
  show "m_pCurRecvBuffer (ses stuck_server) = None" using f(2) l by (simp add: stuck_server_def)
qed (simp add: stuck_server_def)

lemma stuck_bytes_refused: "length stuck_bytes = 8192" "recv_ws_header stuck_bytes 8192 0 0 = Some (- 1, 0, 0)"
proof -
  show l: "length stuck_bytes = 8192" by (simp add: stuck_bytes_def)
  then have i: "2 + 3 < length stuck_bytes" "6 + 3 < length stuck_bytes" by simp_all
  obtain a where a: "load32 stuck_bytes 2 = Some a" using load32_zero [OF i(1)] by blast
  obtain b where b: "load32 stuck_bytes 6 = Some b" "b = 0 \<longleftrightarrow> (\<forall>k < 4. ord (stuck_bytes ! (6 + k)) = 0)"
    using load32_zero [OF i(2)] by blast
  have "ord (stuck_bytes ! (6 + 0)) \<noteq> 0" by (simp add: stuck_bytes_def)
  then have "b \<noteq> 0" using b(2) by (metis zero_less_numeral)
  moreover have "load stuck_bytes 1 = Some 255" using l by (simp add: stuck_bytes_def)
  ultimately show "recv_ws_header stuck_bytes 8192 0 0 = Some (- 1, 0, 0)"
    using a b(1) and_7f [of 255] by (simp add: recv_ws_header_def)
qed


text \<open>A buffer from a pool of more than 1024 bytes cannot be sent.\<close>

lemma send_overruns:
  assumes "allocator_ok (pool e)" "live (pool e) h" "1024 < fst h" "fst h < 2 ^ 32" "lockfree_queue s = h # hs"
  shows "DoSend junk s e = None"
proof -
  obtain b where b: "buffer_at (pool e) h = Some b" using assms(2) by (auto simp: live_def)
  obtain h' A where a: "Allocator_AllocDataBuff junk (int RECV_BUF_SIZE) (pool e) = Some (h', A)" "\<not> live (pool e) h'"
    "\<forall>k. k \<noteq> h' \<longrightarrow> buffer_at A k = buffer_at (pool e) k"
    using allocator.alloc_law [OF assms(1), of "int RECV_BUF_SIZE" junk] by (auto simp: RECV_BUF_SIZE_def)
  then have "h \<noteq> h'" using assms(2) by blast
  then have "buffer_at A h = Some b" using a(3) b by simp
  moreover have "m_nBufSize b = of_nat (fst h)" using live_sized [OF assms(1,2) b] by (simp add: sized_def)
  then have "unat (m_nBufSize b) = fst h" using assms(4) by (simp add: unat_of_nat take_bit_nat_eq_self)
  moreover have "length buf' = 1024" if "CopyTo b (replicate 1024 NUL) n = Some (k, buf')" for n k buf'
    using that by (auto simp: CopyTo_def memcpy_def split: if_splits)
  ultimately have "send_one junk h (replicate 1024 NUL) e = None"
    using a(1) assms(3) by (auto simp: send_one_def split: Option.bind_splits)
  then show ?thesis using assms(5) by (simp add: DoSend_def)
qed

end
