(* ===== verification/NetManager.thy ===== *)
theory NetManager
  imports Handshake
begin

text \<open>
  The session manager of \<open>src/ServerEngine/baseinet/CNetSession .cpp\<close> and the sending side of
  \<open>CNetManager.cpp\<close>: the pool of free sessions and the map of those in use, the packet header of
  \<open>BaseDefine.h\<close> with its checks, and \<open>SendMessageData\<close>.
\<close>

declare split_paired_All [simp del] split_paired_Ex [simp del]

section \<open>Packet headers\<close>

text \<open>Little-endian numbers of \<open>k\<close> bytes.\<close>

primrec le_bytes :: "nat \<Rightarrow> nat \<Rightarrow> char list" where
  "le_bytes 0 n = []"
| "le_bytes (Suc k) n = char_of (n mod 256) # le_bytes k (n div 256)"

fun le_value :: "char list \<Rightarrow> nat" where
  "le_value [] = 0"
| "le_value (c # cs) = ord c + 256 * le_value cs"

record packet_header =
  CheckCode :: u32
  dwMsgID :: u32
  dwSize :: u32
  dwPacketNo :: u32
  u64TargetID :: u64
  dwUserData :: u32

text \<open>The packed structure in memory.\<close>

definition header_bytes :: "packet_header \<Rightarrow> char list" where
  "header_bytes H = le_bytes 4 (unat (CheckCode H)) @ le_bytes 4 (unat (dwMsgID H)) @ le_bytes 4 (unat (dwSize H))
     @ le_bytes 4 (unat (dwPacketNo H)) @ le_bytes 8 (unat (u64TargetID H)) @ le_bytes 4 (unat (dwUserData H))"

definition header_at :: "char list \<Rightarrow> packet_header" where
  "header_at m = \<lparr>CheckCode = of_nat (le_value (take 4 m)), dwMsgID = of_nat (le_value (take 4 (drop 4 m))),
     dwSize = of_nat (le_value (take 4 (drop 8 m))), dwPacketNo = of_nat (le_value (take 4 (drop 12 m))),
     u64TargetID = of_nat (le_value (take 8 (drop 16 m))), dwUserData = of_nat (le_value (take 4 (drop 24 m)))\<rparr>"

lemma length_le_bytes [simp]: "length (le_bytes k n) = k"
  by (induction k arbitrary: n) simp_all

lemma le_value_bytes: "n < 256 ^ k \<Longrightarrow> le_value (le_bytes k n) = n"
proof (induction k arbitrary: n)
  case (Suc k)
  then have "n div 256 < 256 ^ k" by (simp add: less_mult_imp_div_less mult.commute)
  with Suc.IH show ?case by (simp add: take_bit_nat_def)
qed simp

lemma le_value_u32: "of_nat (le_value (le_bytes 4 (unat w))) = (w :: u32)"
proof -
  have "unat w < 2 ^ 32" using unsigned_less [of w] by simp
  then have "unat w < 256 ^ 4" by simp
  then show ?thesis by (simp add: le_value_bytes)
qed

lemma le_value_u64: "of_nat (le_value (le_bytes 8 (unat w))) = (w :: u64)"
proof -
  have "unat w < 2 ^ 64" using unsigned_less [of w] by simp
  then have "unat w < 256 ^ 8" by simp
  then show ?thesis by (simp add: le_value_bytes)
qed

lemma length_header_bytes [simp]: "length (header_bytes H) = 28"
  by (simp add: header_bytes_def)

lemma header_at_bytes: "header_at (header_bytes H @ r) = H"
  by (simp add: header_at_def header_bytes_def le_value_u32 le_value_u64)

text \<open>A packet header written to memory is read back as it was, whatever follows it.\<close>

theorem packet_header_roundtrip: "header_at (header_bytes H @ r) = H \<and> length (header_bytes H) = 28"
  by (simp add: header_at_bytes)

section \<open>\<open>CheckHeader\<close>\<close>

definition CODE_VALUE :: u32 where "CODE_VALUE = 0x88"

text \<open>
  The header at \<open>m_pBufPos\<close> against the number expected next; \<open>m_nCheckNo\<close> is a global of the file.
\<close>

definition CheckHeader :: "net_session \<Rightarrow> u32 \<Rightarrow> bool \<times> u32" where
  "CheckHeader s m_nCheckNo =
     (let H = header_at (drop (m_pBufPos s) (m_pRecvBuf s)) in
      if CheckCode H \<noteq> CODE_VALUE then (False, m_nCheckNo)
      else if 1024 * 1024 < dwSize H then (False, m_nCheckNo)
      else if 4999999 < dwMsgID H then (False, m_nCheckNo)
      else if m_nCheckNo = 0 then (True, dwPacketNo H - (dwMsgID H XOR dwSize H) + 1)
      else if dwPacketNo H = (dwMsgID H XOR dwSize H) + m_nCheckNo then (True, m_nCheckNo + 1)
      else (False, m_nCheckNo))"

text \<open>The header a client sends as its packet number \<open>n\<close>, and a session that has received it.\<close>

definition numbered :: "packet_header \<Rightarrow> u32 \<Rightarrow> bool" where
  "numbered H n \<longleftrightarrow> CheckCode H = CODE_VALUE \<and> dwSize H \<le> 1024 * 1024 \<and> dwMsgID H \<le> 4999999
     \<and> dwPacketNo H = (dwMsgID H XOR dwSize H) + n"

definition holds_header :: "net_session \<Rightarrow> packet_header \<Rightarrow> bool" where
  "holds_header s H \<longleftrightarrow> (\<exists>r. drop (m_pBufPos s) (m_pRecvBuf s) = header_bytes H @ r)"

fun check_all :: "net_session list \<Rightarrow> u32 \<Rightarrow> bool list \<times> u32" where
  "check_all [] n = ([], n)"
| "check_all (s # ss) n = (let (r, n1) = CheckHeader s n; (rs, n2) = check_all ss n1 in (r # rs, n2))"

lemma check_header_eq: "holds_header s H \<Longrightarrow> header_at (drop (m_pBufPos s) (m_pRecvBuf s)) = H"
  by (auto simp: holds_header_def header_at_bytes)

lemma check_header_accepts:
  "holds_header s H \<Longrightarrow> numbered H n \<Longrightarrow> c = 0 \<or> c = n \<Longrightarrow> CheckHeader s c = (True, n + 1)"
  by (auto simp: CheckHeader_def Let_def check_header_eq numbered_def not_less [symmetric])

text \<open>
  Packets numbered one after the other are all accepted, from whatever number the first one starts;
  a repeated packet is refused, unless the counter has just wrapped around to zero.
\<close>

theorem check_header_sequence:
  assumes "\<And>i. i < length ss \<Longrightarrow> holds_header (ss ! i) (Hs i) \<and> numbered (Hs i) (n + of_nat i)"
    and "c = 0 \<or> c = n"
  shows "fst (check_all ss c) = replicate (length ss) True
    \<and> (\<forall>s H. holds_header s H \<and> numbered H n \<and> n + 1 \<noteq> 0 \<longrightarrow> fst (check_all [s, s] c) = [True, False])"
proof
  show "fst (check_all ss c) = replicate (length ss) True"
    using assms
  proof (induction ss arbitrary: n c Hs)
    case (Cons s ss)
    have s: "holds_header s (Hs 0)" "numbered (Hs 0) n" using Cons.prems(1) [of 0] by simp_all
    have "fst (check_all ss (n + 1)) = replicate (length ss) True"
      by (rule Cons.IH [where Hs = "\<lambda>i. Hs (Suc i)" and n = "n + 1"])
        (use Cons.prems(1) [of "Suc _"] in \<open>auto simp: add_ac\<close>)
    then show ?case using check_header_accepts [OF s Cons.prems(2)]
      by (cases "check_all ss (n + 1)") simp
  qed simp
  show "\<forall>s H. holds_header s H \<and> numbered H n \<and> n + 1 \<noteq> 0 \<longrightarrow> fst (check_all [s, s] c) = [True, False]"
  proof (intro allI impI)
    fix s H assume h: "holds_header s H \<and> numbered H n \<and> n + 1 \<noteq> 0"
    then have "CheckHeader s c = (True, n + 1)" using check_header_accepts assms(2) by blast
    moreover have "CheckHeader s (n + 1) = (False, n + 1)"
      using h by (auto simp: CheckHeader_def Let_def check_header_eq numbered_def not_less [symmetric])
    ultimately show "fst (check_all [s, s] c) = [True, False]" by simp
  qed
qed


definition sample_header :: "u32 \<Rightarrow> packet_header" where
  "sample_header n = \<lparr>CheckCode = CODE_VALUE, dwMsgID = 5, dwSize = 40, dwPacketNo = (5 XOR 40) + n, u64TargetID = 1, dwUserData = 0\<rparr>"

definition sample_session :: "u32 \<Rightarrow> net_session" where
  "sample_session n = (CNetSession (\<lambda>_. NUL))\<lparr>m_pRecvBuf := header_bytes (sample_header n) @ replicate 8164 NUL\<rparr>"

lemma sample_holds: "holds_header (sample_session n) (sample_header n)" "numbered (sample_header n) n"
  by (auto simp: holds_header_def sample_session_def CNetSession_def numbered_def sample_header_def)

theorem check_header_sequence_witness:
  "fst (check_all [sample_session 7, sample_session 8] 0) = [True, True]
    \<and> fst (check_all [sample_session 7, sample_session 7] 0) = [True, False]"
proof -
  have "fst (check_all [sample_session 7, sample_session 8] 0) = replicate (length [sample_session 7, sample_session 8]) True
    \<and> (\<forall>s H. holds_header s H \<and> numbered H 7 \<and> (7 :: u32) + 1 \<noteq> 0 \<longrightarrow> fst (check_all [s, s] 0) = [True, False])"
    by (rule check_header_sequence [where Hs = "\<lambda>i. sample_header (7 + of_nat i)"])
      (use sample_holds [of 7] sample_holds [of 8] in \<open>auto simp: less_Suc_eq\<close>)
  moreover have "(7 :: u32) + 1 \<noteq> 0" by simp
  ultimately show ?thesis using sample_holds [of 7] by (auto simp del: check_all.simps)
qed

section \<open>The session manager\<close>

text \<open>
  A session pointer is its index; \<open>ids\<close> gives the identifier each object holds.  A lock of a mutex that
  is locked already never returns.
\<close>

record session_mrg =
  m_GetSessionMutex :: bool
  m_NetSessionVector :: "nat list"
  m_OnlineNetSessionVector :: "u32 \<rightharpoonup> nat"
  ids :: "nat \<Rightarrow> u32"

definition CNetSessionMrg :: session_mrg where
  "CNetSessionMrg = \<lparr>m_GetSessionMutex = False, m_NetSessionVector = [], m_OnlineNetSessionVector = (\<lambda>_. None), ids = (\<lambda>_. - 1)\<rparr>"

fun init_list :: "nat \<Rightarrow> nat \<Rightarrow> session_mrg \<Rightarrow> session_mrg" where
  "init_list 0 i M = M"
| "init_list (Suc n) i M =
     init_list n (i + 1) (M\<lparr>ids := (ids M)(i := of_nat (i + 1)), m_NetSessionVector := m_NetSessionVector M @ [i]\<rparr>)"

definition InitConnectionList :: "nat \<Rightarrow> session_mrg \<Rightarrow> session_mrg" where
  "InitConnectionList nMaxCons M = init_list nMaxCons 0 M"

definition CreateNetSession :: "session_mrg \<Rightarrow> (nat option \<times> session_mrg) option" where
  "CreateNetSession M =
     (if m_GetSessionMutex M then None
      else if m_NetSessionVector M = [] then Some (None, M\<lparr>m_GetSessionMutex := True\<rparr>)
      else let p = last (m_NetSessionVector M) in
        Some (Some p, M\<lparr>m_OnlineNetSessionVector := (m_OnlineNetSessionVector M)(ids M p \<mapsto> p),
          m_NetSessionVector := butlast (m_NetSessionVector M)\<rparr>))"

definition GetNetSessionByID :: "u32 \<Rightarrow> session_mrg \<Rightarrow> nat option option" where
  "GetNetSessionByID dwConnID M =
     (if dwConnID = 0 then Some None
      else case m_OnlineNetSessionVector M dwConnID of
        None \<Rightarrow> None
      | Some p \<Rightarrow> Some (if ids M p \<noteq> dwConnID then None else Some p))"

text \<open>\<open>n\<close> calls of \<open>CreateNetSession\<close>; \<open>None\<close> when one does not return.\<close>

fun create_many :: "nat \<Rightarrow> session_mrg \<Rightarrow> (nat option list \<times> session_mrg) option" where
  "create_many 0 M = Some ([], M)"
| "create_many (Suc n) M = do {
     (r, M1) \<leftarrow> CreateNetSession M;
     (rs, M2) \<leftarrow> create_many n M1;
     Some (r # rs, M2) }"

lemma init_list_eq:
  "m_NetSessionVector (init_list n i M) = m_NetSessionVector M @ [i..<i + n]"
  "ids (init_list n i M) = (\<lambda>k. if i \<le> k \<and> k < i + n then of_nat (k + 1) else ids M k)"
  "m_OnlineNetSessionVector (init_list n i M) = m_OnlineNetSessionVector M"
  "m_GetSessionMutex (init_list n i M) = m_GetSessionMutex M"
  by (induction n arbitrary: i M) (auto simp: upt_rec fun_eq_iff)

lemma create_many_free:
  assumes "\<not> m_GetSessionMutex M" "m_NetSessionVector M = vs" "inj_on (ids M) (set vs \<union> P)" "distinct vs" "set vs \<inter> P = {}"
    and "\<forall>p\<in>P. m_OnlineNetSessionVector M (ids M p) = Some p"
  shows "\<exists>M'. create_many (length vs) M = Some (map Some (rev vs), M') \<and> m_NetSessionVector M' = [] \<and> \<not> m_GetSessionMutex M'
    \<and> ids M' = ids M \<and> (\<forall>p\<in>set vs \<union> P. m_OnlineNetSessionVector M' (ids M p) = Some p)"
  using assms
proof (induction vs arbitrary: M P rule: rev_induct)
  case (snoc p vs)
  let ?M = "M\<lparr>m_OnlineNetSessionVector := (m_OnlineNetSessionVector M)(ids M p \<mapsto> p), m_NetSessionVector := vs\<rparr>"
  have c: "CreateNetSession M = Some (Some p, ?M)" using snoc.prems(1,2) by (simp add: CreateNetSession_def Let_def)
  have "ids M q \<noteq> ids M p" if "q \<in> P" for q
    using snoc.prems(3,5) that by (auto simp: inj_on_def)
  then have "\<exists>M'. create_many (length vs) ?M = Some (map Some (rev vs), M') \<and> m_NetSessionVector M' = [] \<and> \<not> m_GetSessionMutex M'
    \<and> ids M' = ids ?M \<and> (\<forall>q\<in>set vs \<union> insert p P. m_OnlineNetSessionVector M' (ids ?M q) = Some q)"
    using snoc.prems by (intro snoc.IH) (auto simp: inj_on_def)
  with c show ?case by auto
qed simp

lemma session_id_facts:
  assumes "n < 2 ^ 32 - 1"
  shows "inj_on (\<lambda>k. of_nat (k + 1) :: u32) {0..<n}" "k < n \<Longrightarrow> (of_nat (k + 1) :: u32) \<noteq> 0"
proof -
  have u: "unat (of_nat (k + 1) :: u32) = k + 1" if "k < n" for k
    using that assms by (simp add: unat_of_nat take_bit_nat_eq_self del: of_nat_add of_nat_Suc)
  show "inj_on (\<lambda>k. of_nat (k + 1) :: u32) {0..<n}"
    by (rule inj_onI) (metis u add_right_cancel atLeastLessThan_iff)
  show "k < n \<Longrightarrow> (of_nat (k + 1) :: u32) \<noteq> 0"
    using u [of k] by (metis add_is_0 unat_0 one_neq_zero)
qed

text \<open>
  C38: A manager for \<open>n\<close> sessions hands out \<open>n\<close> different ones, each to be found under its identifier
  from then on; the next call returns none but leaves the mutex locked, so that the call after it never
  returns.
\<close>

theorem sessions_exhausted:
  assumes "n < 2 ^ 32 - 1"
  shows "\<exists>ps M M'. create_many n (InitConnectionList n CNetSessionMrg) = Some (map Some ps, M)
    \<and> distinct ps \<and> length ps = n \<and> (\<forall>p\<in>set ps. GetNetSessionByID (ids M p) M = Some (Some p))
    \<and> CreateNetSession M = Some (None, M') \<and> CreateNetSession M' = None"
proof -
  let ?M = "InitConnectionList n CNetSessionMrg"
  have i: "ids ?M k = of_nat (k + 1)" if "k < n" for k
    using that by (simp add: InitConnectionList_def init_list_eq)
  have "inj_on (ids ?M) {0..<n}"
    using session_id_facts(1) [OF assms] i by (simp add: inj_on_def)
  then obtain M where M: "create_many n ?M = Some (map Some (rev [0..<n]), M)" "m_NetSessionVector M = []"
    "\<not> m_GetSessionMutex M" "ids M = ids ?M" "\<forall>p\<in>{0..<n}. m_OnlineNetSessionVector M (ids ?M p) = Some p"
    using create_many_free [of ?M "[0..<n]" "{}"]
    by (auto simp: InitConnectionList_def init_list_eq CNetSessionMrg_def)
  have "GetNetSessionByID (ids M p) M = Some (Some p)" if "p < n" for p
    using M(4,5) that i session_id_facts(2) [OF assms that] by (simp add: GetNetSessionByID_def)
  moreover have "CreateNetSession M = Some (None, M\<lparr>m_GetSessionMutex := True\<rparr>)"
    "CreateNetSession (M\<lparr>m_GetSessionMutex := True\<rparr>) = None"
    using M(2,3) by (simp_all add: CreateNetSession_def)
  ultimately show ?thesis using M(1)
    by (intro exI [of _ "rev [0..<n]"] exI [of _ M] exI [of _ "M\<lparr>m_GetSessionMutex := True\<rparr>"]) simp
qed

theorem sessions_exhausted_witness:
  "\<exists>ps M M'. create_many 20 (InitConnectionList 20 CNetSessionMrg) = Some (map Some ps, M)
    \<and> distinct ps \<and> length ps = 20 \<and> (\<forall>p\<in>set ps. GetNetSessionByID (ids M p) M = Some (Some p))
    \<and> CreateNetSession M = Some (None, M') \<and> CreateNetSession M' = None"
  by (rule sessions_exhausted) simp

section \<open>\<open>SendMessageData\<close>\<close>

text \<open>The manager, its sessions, and the allocator; \<open>posted\<close> are the sessions \<open>DoSend\<close> was posted for.\<close>

record net_manager =
  mrg :: session_mrg
  sessions :: "nat \<Rightarrow> net_session"
  alloc :: allocator
  posted :: "nat list"

definition message_header :: "u32 \<Rightarrow> u64 \<Rightarrow> u32 \<Rightarrow> u32 \<Rightarrow> packet_header" where
  "message_header msg target user len =
     \<lparr>CheckCode = 0x99, dwMsgID = msg, dwSize = len + 28, dwPacketNo = 1, u64TargetID = target, dwUserData = user\<rparr>"

definition SendMessageData :: "(nat \<Rightarrow> char) \<Rightarrow> u32 \<Rightarrow> packet_header \<Rightarrow> char list \<Rightarrow> u32 \<Rightarrow> net_manager \<Rightarrow> (bool \<times> net_manager) option" where
  "SendMessageData junk dwConnID H pData dwLen N = do {
     pConn \<leftarrow> GetNetSessionByID dwConnID (mrg N);
     case pConn of
       None \<Rightarrow> Some (False, N)
     | Some p \<Rightarrow> do {
         (h, A) \<leftarrow> Allocator_AllocDataBuff junk (int (unat dwLen) + 28) (alloc N);
         A1 \<leftarrow> write_at h 0 (header_bytes H) 28 A;
         A2 \<leftarrow> write_at h 28 pData (unat dwLen) A1;
         A3 \<leftarrow> set_total h (dwSize H) A2;
         let r = SendBuffer h (sessions N p);
         Some (True, N\<lparr>alloc := A3, sessions := (sessions N)(p := snd r), posted := (if fst r then posted N @ [p] else posted N)\<rparr>) } }"

text \<open>\<open>SendMsgProtoBuf\<close> of \<open>CServiceBase\<close> sends a serialised message and reports success in every case.\<close>

definition SendMsgProtoBuf :: "(nat \<Rightarrow> char) \<Rightarrow> u32 \<Rightarrow> u32 \<Rightarrow> u64 \<Rightarrow> u32 \<Rightarrow> char list \<Rightarrow> net_manager \<Rightarrow> (bool \<times> net_manager) option" where
  "SendMsgProtoBuf junk conn msg target user pdata N =
     map_option (\<lambda>(r, N'). (True, N'))
       (SendMessageData junk conn (message_header msg target user (of_nat (length pdata))) pdata (of_nat (length pdata)) N)"

lemma send_message_ok:
  assumes "allocator_ok (alloc N)" "GetNetSessionByID conn (mrg N) = Some (Some p)" "unat len \<le> length pData"
    and "unat len + 28 < 10383360" "length (lockfree_queue (sessions N p)) < queue_capacity"
    and H: "H = message_header msg target user len"
  shows "\<exists>h N'. SendMessageData junk conn H pData len N = Some (True, N') \<and> allocator_ok (alloc N') \<and> live (alloc N') h
    \<and> fst h = pool_for (int (unat len) + 28) \<and> contents (alloc N') h = header_bytes H @ take (unat len) pData
    \<and> lockfree_queue (sessions N' p) = lockfree_queue (sessions N p) @ [h] \<and> posted N' = posted N @ [p]
    \<and> (\<forall>k. live (alloc N) k \<longrightarrow> contents (alloc N') k = contents (alloc N) k)"
proof -
  have lim: "int (unat len) + 28 < 10383360" using assms(4) by linarith
  from allocator.alloc_law [OF assms(1) lim, of junk] obtain h A b where
    a: "Allocator_AllocDataBuff junk (int (unat len) + 28) (alloc N) = Some (h, A)" "allocator_ok A" "\<not> live (alloc N) h" "live A h"
      "buffer_at A h = Some b" "int (unat len) + 28 \<le> int (length (m_Buffer b))"
      "\<forall>k. k \<noteq> h \<longrightarrow> buffer_at A k = buffer_at (alloc N) k \<and> live A k = live (alloc N) k" by blast
  have fst: "fst h = pool_for (int (unat len) + 28)"
    using a(1) by (auto simp: Allocator_AllocDataBuff_def Let_def split: Option.bind_splits)
  let ?m1 = "header_bytes H @ drop 28 (m_Buffer b)"
  have room: "unat len + 28 \<le> length (m_Buffer b)" using a(6) by linarith
  have "memcpy (m_Buffer b) 0 (header_bytes H) 28 = Some ?m1" using room by (simp add: memcpy_def)
  from allocator.copy_law [OF a(2,4,5) this] obtain A1 where
    b: "write_at h 0 (header_bytes H) 28 A = Some A1" "allocator_ok A1" "buffer_at A1 h = Some (b\<lparr>m_Buffer := ?m1\<rparr>)"
      "\<forall>k. live A1 k = live A k \<and> (k \<noteq> h \<longrightarrow> buffer_at A1 k = buffer_at A k)" by blast
  let ?m2 = "header_bytes H @ take (unat len) pData @ drop (28 + unat len) (m_Buffer b)"
  have "memcpy (m_Buffer (b\<lparr>m_Buffer := ?m1\<rparr>)) 28 pData (unat len) = Some ?m2"
    using room assms(3) by (simp add: memcpy_def add.commute)
  from allocator.copy_law [OF b(2) _ b(3) this] b(4) a(4) obtain A2 where
    c: "write_at h 28 pData (unat len) A1 = Some A2" "allocator_ok A2" "buffer_at A2 h = Some (b\<lparr>m_Buffer := ?m2\<rparr>)"
      "\<forall>k. live A2 k = live A1 k \<and> (k \<noteq> h \<longrightarrow> buffer_at A2 k = buffer_at A1 k)" by auto
  from allocator.total_law [OF c(2) _ c(3), of "dwSize H"] c(4) b(4) a(4) obtain A3 where
    d: "set_total h (dwSize H) A2 = Some A3" "allocator_ok A3" "buffer_at A3 h = Some (b\<lparr>m_Buffer := ?m2, m_nDataLen := dwSize H\<rparr>)"
      "\<forall>k. live A3 k = live A2 k \<and> (k \<noteq> h \<longrightarrow> buffer_at A3 k = buffer_at A2 k)" by auto
  have "unat (28 :: u32) = 28" by simp
  then have sz: "unat (dwSize H) = unat len + 28"
    using assms(4) unat_add_small [of len 28] by (simp add: H message_header_def)
  have "contents A3 h = header_bytes H @ take (unat len) pData"
    using d(3) sz assms(3) by (simp add: contents_def)
  moreover have "contents A3 k = contents (alloc N) k" if "live (alloc N) k" for k
  proof -
    have "k \<noteq> h" using that a(3) by blast
    then show ?thesis using a(7) b(4) c(4) d(4) by (simp add: contents_def)
  qed
  moreover have "live A3 h" using a(4) b(4) c(4) d(4) by simp
  ultimately show ?thesis
    using a(1) b(1) c(1) d(1,2) assms(2,5) fst
    by (intro exI [of _ h] exI [of _ "N\<lparr>alloc := A3, sessions := (sessions N)(p := (sessions N p)\<lparr>lockfree_queue := lockfree_queue (sessions N p) @ [h]\<rparr>),
        posted := posted N @ [p]\<rparr>"])
      (simp add: SendMessageData_def SendBuffer_def)
qed


text \<open>
  C31: A message for a session in use ends up behind the others in the queue of this session, in a buffer
  that holds its header and then exactly its bytes; the buffers held by others are unchanged; and a
  session that receives this packet refuses it in \<open>CheckHeader\<close>, which asks for another code.
\<close>

theorem message_queued:
  assumes "allocator_ok (alloc N)" "GetNetSessionByID conn (mrg N) = Some (Some p)" "unat len \<le> length pData"
    and "unat len + 28 < 10383360" "length (lockfree_queue (sessions N p)) < queue_capacity"
    and "H = message_header msg target user len"
  shows "\<exists>h N'. SendMessageData junk conn H pData len N = Some (True, N') \<and> live (alloc N') h
    \<and> header_at (contents (alloc N') h) = H \<and> drop 28 (contents (alloc N') h) = take (unat len) pData
    \<and> lockfree_queue (sessions N' p) = lockfree_queue (sessions N p) @ [h]
    \<and> (\<forall>k. live (alloc N) k \<longrightarrow> contents (alloc N') k = contents (alloc N) k)
    \<and> (\<forall>s c. holds_header s H \<longrightarrow> CheckHeader s c = (False, c))"
proof -
  from send_message_ok [OF assms, of junk] obtain h N' where
    m: "SendMessageData junk conn H pData len N = Some (True, N')" "live (alloc N') h"
      "contents (alloc N') h = header_bytes H @ take (unat len) pData"
      "lockfree_queue (sessions N' p) = lockfree_queue (sessions N p) @ [h]"
      "\<forall>k. live (alloc N) k \<longrightarrow> contents (alloc N') k = contents (alloc N) k" by blast
  have "CheckHeader s c = (False, c)" if "holds_header s H" for s c
    using check_header_eq [OF that] assms(6) by (simp add: CheckHeader_def Let_def CODE_VALUE_def message_header_def)
  moreover have "header_at (contents (alloc N') h) = H" "drop 28 (contents (alloc N') h) = take (unat len) pData"
    unfolding m(3) by (simp_all add: header_at_bytes)
  ultimately show ?thesis using m by blast
qed

text \<open>A manager with one session in use.\<close>

definition one_session :: net_manager where
  "one_session = \<lparr>mrg = \<lparr>m_GetSessionMutex = False, m_NetSessionVector = [], m_OnlineNetSessionVector = [1 \<mapsto> 0], ids = (\<lambda>_. 1)\<rparr>,
     sessions = (\<lambda>_. CNetSession (\<lambda>_. NUL)), alloc = CBufferAllocator, posted = []\<rparr>"

lemma one_session_facts:
  "allocator_ok (alloc one_session)" "GetNetSessionByID 1 (mrg one_session) = Some (Some 0)"
  "lockfree_queue (sessions one_session 0) = []"
  by (simp_all add: one_session_def allocator_ok_new GetNetSessionByID_def CNetSession_def)

theorem message_queued_witness:
  "\<exists>h N'. SendMessageData (\<lambda>_. NUL) 1 (message_header 9 0 0 5) ''Hello'' 5 one_session = Some (True, N')
    \<and> header_at (contents (alloc N') h) = message_header 9 0 0 5 \<and> drop 28 (contents (alloc N') h) = ''Hello''"
proof -
  have "\<exists>h N'. SendMessageData (\<lambda>_. NUL) 1 (message_header 9 0 0 5) ''Hello'' 5 one_session = Some (True, N') \<and> live (alloc N') h
    \<and> header_at (contents (alloc N') h) = message_header 9 0 0 5 \<and> drop 28 (contents (alloc N') h) = take (unat (5 :: u32)) ''Hello''
    \<and> lockfree_queue (sessions N' 0) = lockfree_queue (sessions one_session 0) @ [h]
    \<and> (\<forall>k. live (alloc one_session) k \<longrightarrow> contents (alloc N') k = contents (alloc one_session) k)
    \<and> (\<forall>s c. holds_header s (message_header 9 0 0 5) \<longrightarrow> CheckHeader s c = (False, c))"
    by (rule message_queued [OF one_session_facts(1,2) _ _ _ refl]) (simp_all add: one_session_facts queue_capacity_def)
  then show ?thesis by auto
qed

lemma pool_for_large: "1024 \<le> n \<Longrightarrow> 1024 < pool_for n" "1024 \<le> n \<Longrightarrow> pool_for n < 2 ^ 32"
  by (auto simp: pool_for_def ANY_SIZE_def)

text \<open>
  A message of 996 bytes or more, header not counted, is accepted for sending, but the \<open>DoSend\<close>
  posted for it leaves its buffer.
\<close>

theorem large_message_overruns:
  assumes "allocator_ok (alloc N)" "GetNetSessionByID conn (mrg N) = Some (Some p)" "unat len \<le> length pData"
    and "996 \<le> unat len" "unat len + 28 < 10383360" "lockfree_queue (sessions N p) = []"
    and "H = message_header msg target user len"
  shows "\<exists>N'. SendMessageData junk conn H pData len N = Some (True, N') \<and> posted N' = posted N @ [p]
    \<and> DoSend junk' (sessions N' p) (E\<lparr>pool := alloc N'\<rparr>) = None"
proof -
  have "length (lockfree_queue (sessions N p)) < queue_capacity" using assms(6) by (simp add: queue_capacity_def)
  from send_message_ok [OF assms(1-3,5) this assms(7), of junk] obtain h N' where
    m: "SendMessageData junk conn H pData len N = Some (True, N')" "allocator_ok (alloc N')" "live (alloc N') h"
      "fst h = pool_for (int (unat len) + 28)" "lockfree_queue (sessions N' p) = [h]" "posted N' = posted N @ [p]"
    using assms(6) by auto
  have "1024 \<le> int (unat len) + 28" using assms(4) by linarith
  then have "1024 < fst h" "fst h < 2 ^ 32" unfolding m(4) by (rule pool_for_large)+
  with m send_overruns [of "E\<lparr>pool := alloc N'\<rparr>" h "sessions N' p" "[]" junk'] show ?thesis by auto
qed

theorem large_message_overruns_witness:
  "\<exists>N'. SendMessageData (\<lambda>_. NUL) 1 (message_header 9 0 0 996) (replicate 996 CHR ''x'') 996 one_session = Some (True, N')
    \<and> posted N' = posted one_session @ [0] \<and> DoSend (\<lambda>_. NUL) (sessions N' 0) (fresh_env\<lparr>pool := alloc N'\<rparr>) = None"
  by (rule large_message_overruns [OF one_session_facts(1,2) _ _ _ one_session_facts(3) refl]) simp_all

lemma created_only:
  "create_many j M = Some (rs, M') \<Longrightarrow> m_OnlineNetSessionVector M' i = Some p \<Longrightarrow>
     m_OnlineNetSessionVector M i = Some p \<or> Some p \<in> set rs \<and> ids M p = i"
proof (induction j arbitrary: M rs)
  case (Suc j)
  then obtain r M1 rs1 where c: "CreateNetSession M = Some (r, M1)" "create_many j M1 = Some (rs1, M')" "rs = r # rs1"
    by (auto split: Option.bind_splits)
  from Suc.IH [OF c(2) Suc.prems(2)] have
    "m_OnlineNetSessionVector M1 i = Some p \<or> Some p \<in> set rs1 \<and> ids M1 p = i" .
  moreover have "ids M1 = ids M" using c(1) by (auto simp: CreateNetSession_def Let_def split: if_splits)
  moreover have "m_OnlineNetSessionVector M1 i = Some p \<Longrightarrow> m_OnlineNetSessionVector M i = Some p \<or> r = Some p \<and> ids M p = i"
    using c(1) by (auto simp: CreateNetSession_def Let_def split: if_splits)
  ultimately show ?case using c(3) by auto
qed simp

text \<open>
  A message for an identifier that no created session has dereferences a null pointer, although the
  code that follows is written for the answer that there is none.
\<close>

theorem unknown_session_crashes:
  assumes "create_many j (InitConnectionList n CNetSessionMrg) = Some (rs, mrg N)" "i \<noteq> 0"
    and "\<forall>p. Some p \<in> set rs \<longrightarrow> ids (InitConnectionList n CNetSessionMrg) p \<noteq> i"
  shows "SendMessageData junk i H pData len N = None"
proof -
  have "m_OnlineNetSessionVector (InitConnectionList n CNetSessionMrg) i = None"
    by (simp add: InitConnectionList_def init_list_eq CNetSessionMrg_def)
  then have "m_OnlineNetSessionVector (mrg N) i = None"
    using created_only [OF assms(1), of i] assms(3) by (metis option.distinct(1) option.exhaust)
  then show ?thesis using assms(2) by (simp add: SendMessageData_def GetNetSessionByID_def)
qed

theorem unknown_session_crashes_witness:
  "SendMessageData (\<lambda>_. NUL) 5 (message_header 9 0 0 0) [] 0 (one_session\<lparr>mrg := InitConnectionList 20 CNetSessionMrg\<rparr>) = None"
  by (rule unknown_session_crashes [where j = 0 and rs = "[]" and n = 20]) simp_all

end
