(* ===== verification/NetAccept.thy ===== *)
theory NetAccept
  imports NetManager
begin

text \<open>
  The connections of \<open>src/ServerEngine/baseinet/CNetManager.cpp\<close>: \<open>Start\<close>, the loop of
  \<open>WaitForConnet\<close> and \<open>HandleAccept\<close>, and \<open>ConnectTo_Async\<close> with \<open>HandleConnect\<close>.
  Boost.Asio is what completes the requests: a request is recorded when it is made, and a step of the
  relation at the end takes one that is open and calls its handler, with or without an error.
\<close>

section \<open>The code\<close>

text \<open>
  A session is its index in the manager; open \<open>async_accept\<close> and \<open>async_connect\<close> requests, the
  identifiers passed to \<open>OnNewConnect\<close>, the sessions that have got the data handler and those on
  which \<open>DoReceive\<close> was called.
\<close>

record connections =
  sessions_of :: session_mrg
  accepting :: "nat list"
  connecting :: "nat list"
  announced :: "u32 list"
  handled :: "nat list"
  receiving :: "nat list"

definition CNetManager :: connections where
  "CNetManager = \<lparr>sessions_of = CNetSessionMrg, accepting = [], connecting = [], announced = [], handled = [], receiving = []\<rparr>"

definition WaitForConnet :: "connections \<Rightarrow> (bool \<times> connections) option" where
  "WaitForConnet C = do {
     (r, M) \<leftarrow> CreateNetSession (sessions_of C);
     (case r of
        None \<Rightarrow> Some (False, C\<lparr>sessions_of := M\<rparr>)
      | Some p \<Rightarrow> Some (True, C\<lparr>sessions_of := M, handled := handled C @ [p], accepting := accepting C @ [p]\<rparr>)) }"

text \<open>The result of \<open>WaitForConnet\<close> is not looked at.\<close>

definition NetManager_Start :: "u32 \<Rightarrow> connections \<Rightarrow> (bool \<times> connections) option" where
  "NetManager_Start nMaxConn C = do {
     (r, C1) \<leftarrow> WaitForConnet (C\<lparr>sessions_of := InitConnectionList (unat nMaxConn) (sessions_of C)\<rparr>);
     Some (True, C1) }"

definition new_connection :: "nat \<Rightarrow> connections \<Rightarrow> connections" where
  "new_connection p C = C\<lparr>announced := announced C @ [ids (sessions_of C) p], receiving := receiving C @ [p]\<rparr>"

definition HandleAccept :: "nat \<Rightarrow> bool \<Rightarrow> connections \<Rightarrow> connections option" where
  "HandleAccept p e C = (if e then Some C else map_option snd (WaitForConnet (new_connection p C)))"

text \<open>A session pointer that is null is used at once.\<close>

definition ConnectTo_Async :: "connections \<Rightarrow> (nat \<times> connections) option" where
  "ConnectTo_Async C = do {
     (r, M) \<leftarrow> CreateNetSession (sessions_of C);
     p \<leftarrow> r;
     Some (p, C\<lparr>sessions_of := M, handled := handled C @ [p], connecting := connecting C @ [p]\<rparr>) }"

definition HandleConnect :: "nat \<Rightarrow> bool \<Rightarrow> connections \<Rightarrow> connections" where
  "HandleConnect p e C = (if e then C else new_connection p C)"

section \<open>Runs of the server\<close>

text \<open>A request is completed, or the program asks for an outgoing connection.\<close>

inductive net_step :: "connections \<Rightarrow> connections \<Rightarrow> bool" where
  accepted: "p \<in> set (accepting C) \<Longrightarrow> HandleAccept p e (C\<lparr>accepting := remove1 p (accepting C)\<rparr>) = Some C' \<Longrightarrow> net_step C C'"
| connected: "p \<in> set (connecting C) \<Longrightarrow> net_step C (HandleConnect p e (C\<lparr>connecting := remove1 p (connecting C)\<rparr>))"
| connect: "ConnectTo_Async C = Some (p, C') \<Longrightarrow> net_step C C'"

inductive reachable :: "u32 \<Rightarrow> connections \<Rightarrow> bool" for n where
  start: "NetManager_Start n CNetManager = Some (r, C) \<Longrightarrow> reachable n C"
| step: "reachable n C \<Longrightarrow> net_step C C' \<Longrightarrow> reachable n C'"


section \<open>What every run keeps\<close>

text \<open>
  The pool is an initial run of the indices, the sessions in use are behind it and each is used for one
  thing; the mutex is left locked only when the pool is empty and nothing is accepted any more.
\<close>

definition net_inv :: "u32 \<Rightarrow> connections \<Rightarrow> bool" where
  "net_inv n C \<longleftrightarrow> (\<exists>v \<le> unat n. m_NetSessionVector (sessions_of C) = [0..<v]
     \<and> (\<forall>p\<in>set (receiving C @ accepting C @ connecting C). v \<le> p \<and> p < unat n))
   \<and> (\<forall>k < unat n. ids (sessions_of C) k = of_nat (k + 1))
   \<and> distinct (receiving C @ accepting C @ connecting C) \<and> length (accepting C) \<le> 1
   \<and> announced C = map (\<lambda>p. of_nat (p + 1)) (receiving C)
   \<and> (m_GetSessionMutex (sessions_of C) \<longrightarrow> m_NetSessionVector (sessions_of C) = [] \<and> accepting C = [])"

lemma create_session:
  assumes "\<not> m_GetSessionMutex M" "m_NetSessionVector M = [0..<v]"
  shows "v = 0 \<Longrightarrow> CreateNetSession M = Some (None, M\<lparr>m_GetSessionMutex := True\<rparr>)"
    and "v = Suc w \<Longrightarrow> \<exists>M'. CreateNetSession M = Some (Some w, M') \<and> m_NetSessionVector M' = [0..<w]
      \<and> ids M' = ids M \<and> \<not> m_GetSessionMutex M'"
  using assms by (simp_all add: CreateNetSession_def Let_def)

lemma wait_inv:
  assumes "net_inv n C" "\<not> m_GetSessionMutex (sessions_of C)" "accepting C = []"
  shows "\<exists>r C'. WaitForConnet C = Some (r, C') \<and> net_inv n C' \<and> announced C' = announced C
    \<and> (r \<longleftrightarrow> m_NetSessionVector (sessions_of C) \<noteq> [])
    \<and> (r \<longrightarrow> accepting C' = [length (m_NetSessionVector (sessions_of C)) - 1]) \<and> (\<not> r \<longrightarrow> accepting C' = [])
    \<and> m_NetSessionVector (sessions_of C') = butlast (m_NetSessionVector (sessions_of C)) \<and> (m_GetSessionMutex (sessions_of C') \<longleftrightarrow> \<not> r)"
proof -
  obtain v where v: "v \<le> unat n" "m_NetSessionVector (sessions_of C) = [0..<v]"
    "\<forall>p\<in>set (receiving C @ accepting C @ connecting C). v \<le> p \<and> p < unat n" using assms(1) by (auto simp: net_inv_def)
  show ?thesis
  proof (cases v)
    case 0
    with create_session(1) [OF assms(2) v(2)] assms v show ?thesis
      by (auto simp: WaitForConnet_def net_inv_def)
  next
    case (Suc w)
    from create_session(2) [OF assms(2) v(2) Suc] obtain M where
      M: "CreateNetSession (sessions_of C) = Some (Some w, M)" "m_NetSessionVector M = [0..<w]" "ids M = ids (sessions_of C)"
      "\<not> m_GetSessionMutex M" by blast
    have "w \<notin> set (receiving C @ connecting C)"
    proof
      assume "w \<in> set (receiving C @ connecting C)"
      then have "v \<le> w" using v(3) by auto
      with Suc show False by simp
    qed
    moreover have "\<forall>p\<in>set (receiving C @ connecting C). w \<le> p \<and> p < unat n"
      using v(3) Suc by (auto intro: Suc_leD)
    ultimately show ?thesis using M assms v(1,2) Suc
      by (auto simp: WaitForConnet_def net_inv_def intro!: exI [of _ w])
  qed
qed

lemma welcome_inv:
  assumes "net_inv n C" "p \<in> set (accepting C)"
  shows "net_inv n (new_connection p (C\<lparr>accepting := remove1 p (accepting C)\<rparr>))" "accepting C = [p]"
proof -
  show a: "accepting C = [p]" using assms by (cases "accepting C") (auto simp: net_inv_def)
  show "net_inv n (new_connection p (C\<lparr>accepting := remove1 p (accepting C)\<rparr>))"
    using assms(1) a by (auto simp: net_inv_def new_connection_def)
qed

lemma drop_inv: "net_inv n C \<Longrightarrow> net_inv n (C\<lparr>accepting := remove1 p (accepting C)\<rparr>)"
    "net_inv n C \<Longrightarrow> net_inv n (C\<lparr>connecting := remove1 p (connecting C)\<rparr>)"
  by (auto simp: net_inv_def distinct_remove1 length_remove1 dest: notin_set_remove1)

lemma accept_inv:
  assumes "net_inv n C" "p \<in> set (accepting C)"
  shows "\<exists>C'. HandleAccept p e (C\<lparr>accepting := remove1 p (accepting C)\<rparr>) = Some C' \<and> net_inv n C'
    \<and> (e \<longrightarrow> accepting C' = [])"
proof (cases e)
  case True
  with drop_inv(1) [OF assms(1), of p] welcome_inv(2) [OF assms] show ?thesis by (simp add: HandleAccept_def)
next
  case False
  let ?C = "new_connection p (C\<lparr>accepting := remove1 p (accepting C)\<rparr>)"
  have "\<not> m_GetSessionMutex (sessions_of ?C)" using assms by (auto simp: net_inv_def new_connection_def)
  moreover have "accepting ?C = []" using welcome_inv(2) [OF assms] by (simp add: new_connection_def)
  ultimately show ?thesis using wait_inv [OF welcome_inv(1) [OF assms]] False by (auto simp: HandleAccept_def)
qed

lemma connect_inv:
  assumes "net_inv n C" "ConnectTo_Async C = Some (p, C')"
  shows "net_inv n C'" "accepting C' = accepting C"
proof -
  obtain v where v: "v \<le> unat n" "m_NetSessionVector (sessions_of C) = [0..<v]"
    "\<forall>p\<in>set (receiving C @ accepting C @ connecting C). v \<le> p \<and> p < unat n" using assms(1) by (auto simp: net_inv_def)
  have m: "\<not> m_GetSessionMutex (sessions_of C)" using assms(2)
    by (auto simp: ConnectTo_Async_def CreateNetSession_def split: if_splits)
  have "v \<noteq> 0"
  proof
    assume "v = 0"
    from create_session(1) [OF m v(2) this] assms(2) show False by (simp add: ConnectTo_Async_def)
  qed
  then obtain w where w: "v = Suc w" by (cases v) auto
  from create_session(2) [OF m v(2) w] obtain M where
    M: "CreateNetSession (sessions_of C) = Some (Some w, M)" "m_NetSessionVector M = [0..<w]" "ids M = ids (sessions_of C)"
    "\<not> m_GetSessionMutex M" by blast
  then have C': "C' = C\<lparr>sessions_of := M, handled := handled C @ [w], connecting := connecting C @ [w]\<rparr>"
    using assms(2) by (auto simp: ConnectTo_Async_def)
  then show "accepting C' = accepting C" by simp
  have "w \<notin> set (receiving C @ accepting C @ connecting C)"
  proof
    assume "w \<in> set (receiving C @ accepting C @ connecting C)"
    then have "v \<le> w" using v(3) by blast
    with w show False by simp
  qed
  moreover have "\<forall>p\<in>set (receiving C @ accepting C @ connecting C). w \<le> p \<and> p < unat n"
    using v(3) w by (auto intro: Suc_leD)
  ultimately show "net_inv n C'" using M assms(1) v(1,2) w unfolding C'
    by (auto simp: net_inv_def intro!: exI [of _ w])
qed

lemma handle_connect_inv:
  assumes "net_inv n C" "p \<in> set (connecting C)"
  shows "net_inv n (HandleConnect p e (C\<lparr>connecting := remove1 p (connecting C)\<rparr>))"
proof (cases e)
  case True
  with drop_inv(2) [OF assms(1)] show ?thesis by (simp add: HandleConnect_def)
next
  case False
  have "distinct (connecting C)" using assms(1) by (auto simp: net_inv_def)
  then have "set (remove1 p (connecting C)) = set (connecting C) - {p}" by simp
  with assms False show ?thesis
    by (auto simp: net_inv_def HandleConnect_def new_connection_def)
qed

lemma step_inv: "net_step C C' \<Longrightarrow> net_inv n C \<Longrightarrow> net_inv n C'"
proof (induction rule: net_step.induct)
  case (accepted p C e C')
  obtain D where "HandleAccept p e (C\<lparr>accepting := remove1 p (accepting C)\<rparr>) = Some D" "net_inv n D"
    using accept_inv [OF accepted(3,1), of e] by blast
  with accepted(2) show ?case by simp
next
  case (connected p C e)
  show ?case by (rule handle_connect_inv [OF connected(2,1)])
next
  case (connect C p C')
  show ?case by (rule connect_inv(1) [OF connect(2,1)])
qed

lemma start_inv:
  assumes "NetManager_Start n CNetManager = Some (r, C)"
  shows "net_inv n C"
proof -
  let ?C = "CNetManager\<lparr>sessions_of := InitConnectionList (unat n) (sessions_of CNetManager)\<rparr>"
  have i: "net_inv n ?C"
    by (auto simp: net_inv_def CNetManager_def InitConnectionList_def init_list_eq CNetSessionMrg_def)
  have "\<not> m_GetSessionMutex (sessions_of ?C)" "accepting ?C = []"
    by (simp_all add: CNetManager_def InitConnectionList_def init_list_eq CNetSessionMrg_def)
  from wait_inv [OF i this] assms show ?thesis by (auto simp: NetManager_Start_def)
qed

lemma reachable_inv: "reachable n C \<Longrightarrow> net_inv n C"
  by (induction rule: reachable.induct) (auto intro: start_inv step_inv)


section \<open>Properties\<close>

lemma session_ids:
  assumes "\<forall>p\<in>set ps. p < unat (n :: u32)" "distinct ps"
  shows "distinct (map (\<lambda>p. of_nat (p + 1) :: u32) ps)" "(0 :: u32) \<notin> set (map (\<lambda>p. of_nat (p + 1)) ps)"
proof -
  have u: "unat (of_nat (p + 1) :: u32) = p + 1" if "p \<in> set ps" for p
  proof -
    have "unat n < 2 ^ 32" using unsigned_less [of n] by simp
    moreover have "p < unat n" using assms(1) that by blast
    ultimately have "p + 1 < 2 ^ 32" by linarith
    then show ?thesis by (simp add: unat_of_nat take_bit_nat_eq_self del: of_nat_add of_nat_Suc)
  qed
  have "inj_on (\<lambda>p. of_nat (p + 1) :: u32) (set ps)"
    by (rule inj_onI) (metis u add_right_cancel)
  with assms(2) show "distinct (map (\<lambda>p. of_nat (p + 1) :: u32) ps)" by (simp add: distinct_map)
  show "(0 :: u32) \<notin> set (map (\<lambda>p. of_nat (p + 1)) ps)"
  proof
    assume "(0 :: u32) \<in> set (map (\<lambda>p. of_nat (p + 1)) ps)"
    then obtain p where p: "p \<in> set ps" "of_nat (p + 1) = (0 :: u32)" by (auto simp del: of_nat_add of_nat_Suc)
    from u [OF p(1)] p(2) show False by simp
  qed
qed

lemma reachable_announced:
  assumes "reachable n C"
  shows "distinct (announced C)" "0 \<notin> set (announced C)" "length (announced C) \<le> unat n" "length (accepting C) \<le> 1"
proof -
  have r: "\<forall>p\<in>set (receiving C). p < unat n" "distinct (receiving C)"
    "announced C = map (\<lambda>p. of_nat (p + 1)) (receiving C)" "length (accepting C) \<le> 1"
    using reachable_inv [OF assms] by (auto simp: net_inv_def)
  have "card (set (receiving C)) \<le> card {..<unat n}"
    by (rule card_mono) (use r(1) in auto)
  then show "length (announced C) \<le> unat n" using r(2,3) by (simp add: distinct_card)
  show "distinct (announced C)" "0 \<notin> set (announced C)" "length (accepting C) \<le> 1"
    using session_ids [OF r(1,2)] r(3,4) by simp_all
qed

text \<open>
  C15: whatever connects and fails to connect, a server started for \<open>n\<close> connections announces every
  identifier at most once, never zero and at most \<open>n\<close> in all its life; at most one accept is open, and
  its handler returns, so that the mutex left locked is never waited for by the accepting side.
\<close>

theorem connections_bounded:
  assumes "reachable n C"
  shows "distinct (announced C) \<and> 0 \<notin> set (announced C) \<and> length (announced C) \<le> unat n \<and> length (accepting C) \<le> 1
    \<and> (\<forall>p\<in>set (accepting C). \<forall>e. HandleAccept p e (C\<lparr>accepting := remove1 p (accepting C)\<rparr>) \<noteq> None)"
proof -
  have "HandleAccept p e (C\<lparr>accepting := remove1 p (accepting C)\<rparr>) \<noteq> None" if "p \<in> set (accepting C)" for p e
    using accept_inv [OF reachable_inv [OF assms] that, of e] by blast
  with reachable_announced [OF assms] show ?thesis by simp
qed

lemma start_server:
  assumes "n \<noteq> 0"
  shows "\<exists>C. NetManager_Start n CNetManager = Some (True, C) \<and> accepting C = [unat n - 1] \<and> announced C = []
    \<and> m_NetSessionVector (sessions_of C) = [0..<unat n - 1] \<and> \<not> m_GetSessionMutex (sessions_of C)"
proof -
  let ?C = "CNetManager\<lparr>sessions_of := InitConnectionList (unat n) (sessions_of CNetManager)\<rparr>"
  have v: "m_NetSessionVector (sessions_of ?C) = [0..<unat n]" "\<not> m_GetSessionMutex (sessions_of ?C)" "accepting ?C = []" "announced ?C = []"
    by (simp_all add: CNetManager_def InitConnectionList_def init_list_eq CNetSessionMrg_def)
  have i: "net_inv n ?C"
    by (auto simp: net_inv_def CNetManager_def InitConnectionList_def init_list_eq CNetSessionMrg_def)
  have p: "0 < unat n" using assms by (simp add: unat_gt_0)
  have b: "butlast [0..<unat n] = [0..<unat n - 1]" by (cases "unat n") simp_all
  show ?thesis using wait_inv [OF i v(2,3)] v p b by (auto simp: NetManager_Start_def)
qed

theorem connections_bounded_witness:
  "\<exists>C. reachable 20 C \<and> accepting C = [19] \<and> length (announced C) \<le> 20"
proof -
  obtain C where C: "NetManager_Start 20 CNetManager = Some (True, C)" "accepting C = [unat (20 :: u32) - 1]"
    using start_server [of 20] by auto
  from reachable.start [OF C(1)] have r: "reachable 20 C" .
  with connections_bounded [OF r] C(2) show ?thesis by (intro exI [of _ C]) simp
qed

text \<open>Without an open accept there is never one again.\<close>

lemma not_accepting: "rtranclp net_step C C' \<Longrightarrow> net_inv n C \<Longrightarrow> accepting C = [] \<Longrightarrow> accepting C' = [] \<and> net_inv n C'"
proof (induction rule: rtranclp_induct)
  case (step C1 C2)
  then have 1: "accepting C1 = []" "net_inv n C1" by simp_all
  have "net_inv n C2" by (rule step_inv [OF step(2) 1(2)])
  moreover from step(2) have "accepting C2 = []"
  proof (cases rule: net_step.cases)
    case (accepted p e)
    with 1(1) show ?thesis by simp
  next
    case (connected p e)
    with 1(1) show ?thesis by (simp add: HandleConnect_def new_connection_def)
  next
    case (connect p)
    with connect_inv(2) [OF 1(2)] 1(1) show ?thesis by simp
  qed
  ultimately show ?case by simp
qed simp

text \<open>
  one accept that fails closes the server: its handler returns without a further request, and in no
  later state is a connection being accepted.
\<close>

theorem accept_error_stops:
  assumes "reachable n C" "p \<in> set (accepting C)"
    and "HandleAccept p True (C\<lparr>accepting := remove1 p (accepting C)\<rparr>) = Some C1" "rtranclp net_step C1 C2"
  shows "accepting C2 = []"
proof -
  obtain D where "HandleAccept p True (C\<lparr>accepting := remove1 p (accepting C)\<rparr>) = Some D" "net_inv n D" "accepting D = []"
    using accept_inv [OF reachable_inv [OF assms(1)] assms(2), of True] by blast
  with assms(3) not_accepting [OF assms(4)] show ?thesis by simp
qed

theorem accept_error_stops_witness:
  "\<exists>C C1. reachable 20 C \<and> HandleAccept 19 True (C\<lparr>accepting := []\<rparr>) = Some C1 \<and> accepting C1 = []"
proof -
  obtain C where C: "NetManager_Start 20 CNetManager = Some (True, C)" "accepting C = [19]"
    using start_server [of 20] by auto
  have h: "HandleAccept 19 True (C\<lparr>accepting := remove1 19 (accepting C)\<rparr>) = Some (C\<lparr>accepting := []\<rparr>)"
    by (simp add: HandleAccept_def C(2))
  have "accepting (C\<lparr>accepting := []\<rparr>) = []"
    by (rule accept_error_stops [OF reachable.start [OF C(1)] _ h]) (simp_all add: C(2))
  with reachable.start [OF C(1)] h C(2) show ?thesis by (auto simp: HandleAccept_def)
qed

text \<open>The server after \<open>j\<close> connections came in and nothing else happened.\<close>

definition after_accepts :: "u32 \<Rightarrow> nat \<Rightarrow> connections \<Rightarrow> bool" where
  "after_accepts n j C \<longleftrightarrow> reachable n C \<and> announced C = map (\<lambda>p. of_nat (p + 1)) (rev [unat n - j..<unat n])
     \<and> m_NetSessionVector (sessions_of C) = [0..<unat n - j - 1]
     \<and> accepting C = (if j < unat n then [unat n - j - 1] else []) \<and> (m_GetSessionMutex (sessions_of C) \<longleftrightarrow> \<not> j < unat n)"

lemma accept_next:
  assumes "after_accepts n j C" "j < unat n"
  shows "\<exists>C'. net_step C C' \<and> after_accepts n (Suc j) C'"
proof -
  let ?p = "unat n - j - 1"
  let ?C = "new_connection ?p (C\<lparr>accepting := remove1 ?p (accepting C)\<rparr>)"
  have a: "accepting C = [?p]" "m_NetSessionVector (sessions_of C) = [0..<?p]" "\<not> m_GetSessionMutex (sessions_of C)"
    "announced C = map (\<lambda>p. of_nat (p + 1)) (rev [unat n - j..<unat n])" "reachable n C"
    using assms by (auto simp: after_accepts_def)
  have i: "net_inv n C" by (rule reachable_inv [OF a(5)])
  have id: "ids (sessions_of C) ?p = of_nat (?p + 1)" using i assms(2) by (auto simp: net_inv_def)
  have p: "?p \<in> set (accepting C)" using a(1) by simp
  have w: "\<not> m_GetSessionMutex (sessions_of ?C)" "accepting ?C = []" "m_NetSessionVector (sessions_of ?C) = [0..<?p]"
    using a by (simp_all add: new_connection_def)
  have "butlast [0..<?p] = [0..<?p - 1]" by (cases ?p) simp_all
  with wait_inv [OF welcome_inv(1) [OF i p] w(1,2)] w(3) obtain r C' where
    C': "WaitForConnet ?C = Some (r, C')" "announced C' = announced ?C" "r \<longleftrightarrow> 0 < ?p" "r \<longrightarrow> accepting C' = [?p - 1]"
      "\<not> r \<longrightarrow> accepting C' = []" "m_NetSessionVector (sessions_of C') = [0..<?p - 1]" "m_GetSessionMutex (sessions_of C') \<longleftrightarrow> \<not> r"
    by auto
  have s: "net_step C C'"
    by (rule net_step.accepted [OF p, of False]) (use C'(1) in \<open>simp add: HandleAccept_def\<close>)
  have "rev [unat n - Suc j..<unat n] = rev [unat n - j..<unat n] @ [?p]"
  proof -
    have s1: "Suc ?p = unat n - j" and s2: "unat n - Suc j = ?p" and s3: "?p < unat n" using assms(2) by linarith+
    show ?thesis unfolding s2 upt_conv_Cons [OF s3] s1 rev.simps ..
  qed
  then have "announced C' = map (\<lambda>p. of_nat (p + 1)) (rev [unat n - Suc j..<unat n])"
    using C'(2) a(4) id by (simp add: new_connection_def)
  moreover have "reachable n C'" by (rule reachable.step [OF a(5) s])
  moreover have "0 < ?p \<longleftrightarrow> Suc j < unat n" "?p - 1 = unat n - Suc j - 1" using assms(2) by auto
  then have "accepting C' = (if Suc j < unat n then [unat n - Suc j - 1] else [])"
    "m_NetSessionVector (sessions_of C') = [0..<unat n - Suc j - 1]" "m_GetSessionMutex (sessions_of C') \<longleftrightarrow> \<not> Suc j < unat n"
    using C'(3-7) by simp_all
  ultimately have "after_accepts n (Suc j) C'" by (simp only: after_accepts_def simp_thms)
  with s show ?thesis by blast
qed

lemma accept_all: "n \<noteq> 0 \<Longrightarrow> j \<le> unat n \<Longrightarrow> \<exists>C. after_accepts n j C"
proof (induction j)
  case 0
  obtain C where C: "NetManager_Start n CNetManager = Some (True, C)" "accepting C = [unat n - 1]" "announced C = []"
    "m_NetSessionVector (sessions_of C) = [0..<unat n - 1]" "\<not> m_GetSessionMutex (sessions_of C)"
    using start_server [OF 0(1)] by blast
  with reachable.start [OF C(1)] 0(1) show ?case
    by (auto simp: after_accepts_def unat_gt_0 intro!: exI [of _ C])
next
  case (Suc j)
  then obtain C where "after_accepts n j C" by auto
  with accept_next [of n j C] Suc.prems(2) show ?case by auto
qed

text \<open>
  C20: a server for \<open>n\<close> connections can accept \<open>n\<close> of them, whose identifiers run down from \<open>n\<close> to 1;
  then nothing is accepted any more, and an outgoing connection is not to be had either: the mutex of
  the session manager has been left locked.
\<close>

theorem all_connections_accepted:
  assumes "n \<noteq> 0"
  shows "\<exists>C. reachable n C \<and> announced C = map (\<lambda>p. of_nat (p + 1)) (rev [0..<unat n])
    \<and> ConnectTo_Async C = None \<and> (\<forall>C'. rtranclp net_step C C' \<longrightarrow> accepting C' = [])"
proof -
  obtain C where "after_accepts n (unat n) C" using accept_all [OF assms, of "unat n"] by auto
  then have C: "reachable n C" "announced C = map (\<lambda>p. of_nat (p + 1)) (rev [0..<unat n])" "accepting C = []"
    "m_GetSessionMutex (sessions_of C)" by (simp_all add: after_accepts_def)
  have "ConnectTo_Async C = None" using C(4) by (simp add: ConnectTo_Async_def CreateNetSession_def)
  moreover have "accepting C' = []" if "rtranclp net_step C C'" for C'
    using not_accepting [OF that reachable_inv [OF C(1)] C(3)] by simp
  ultimately show ?thesis using C(1,2) by blast
qed

theorem all_connections_accepted_witness:
  "\<exists>C. reachable 2 C \<and> announced C = [2, 1] \<and> ConnectTo_Async C = None"
proof -
  obtain C where C: "reachable 2 C" "announced C = map (\<lambda>p. of_nat (p + 1)) (rev [0..<unat (2 :: u32)])" "ConnectTo_Async C = None"
    using all_connections_accepted [of 2] by auto
  have "unat (2 :: u32) = 2" by simp
  moreover have "rev [0..<2] = [1, 0 :: nat]" by (simp add: numeral_2_eq_2)
  ultimately show ?thesis using C by (intro exI [of _ C]) simp
qed

end
