(* ===== verification/Gateway.thy ===== *)
theory Gateway
  imports NetAccept
begin

text \<open>
  The gateway program of \<open>src/Gateway\<close>: the table of message handlers (\<open>IMsgHandle.cpp\<close>), the
  dispatcher of protobuf messages (\<open>Dispatcher.h\<close>, \<open>Dispatcher.cpp\<close>, \<open>CMsgDispacher.cpp\<close>), the
  server configuration (\<open>src/ServerEngine/CServerConfig.cpp\<close>) and the start of the server
  (\<open>CGameService.cpp\<close>, \<open>CServiceBase.cpp\<close>).  Protobuf, RapidJSON, the file system and the parser for
  addresses are parameters.  \<open>None\<close> is a write through a null pointer or outside an array, a failed
  assertion, an exception that is not caught, or a wait without end.
\<close>

section \<open>\<open>IMsgHandle\<close>\<close>

text \<open>Handlers are function pointers, of any type here.\<close>

record 'h msg_node =
  mHandle :: "'h option"
  mIsInitMsg :: bool

record 'h msg_handle =
  mNodes :: "'h msg_node list"
  mUnknownHandle :: "'h option"
  mMax :: int
  mBase :: int

definition in_int :: "int \<Rightarrow> bool" where
  "in_int i \<longleftrightarrow> - (2 ^ 31) \<le> i \<and> i < 2 ^ 31"

text \<open>\<open>new MsgNode[max]\<close> throws on a negative length.\<close>

definition IMsgHandle :: "int \<Rightarrow> int \<Rightarrow> 'h msg_handle option" where
  "IMsgHandle base mx =
     (if mx < 0 then None
      else Some \<lparr>mNodes = replicate (nat mx) \<lparr>mHandle = None, mIsInitMsg = False\<rparr>, mUnknownHandle = None, mMax = mx, mBase = base\<rparr>)"

definition RegisterMsgFunc :: "int \<Rightarrow> 'h option \<Rightarrow> bool \<Rightarrow> 'h msg_handle \<Rightarrow> 'h msg_handle option" where
  "RegisterMsgFunc type fuc_handle isInitMsg H =
     (let t = type - mBase H in
      if \<not> in_int t then None
      else if t < 0 then None
      else do {
        ns \<leftarrow> poke (mNodes H) (nat t) \<lparr>mHandle = fuc_handle, mIsInitMsg = isInitMsg\<rparr>;
        Some (H\<lparr>mNodes := ns\<rparr>) })"

definition SetUnKnownMsgHandle :: "'h option \<Rightarrow> 'h msg_handle \<Rightarrow> 'h msg_handle" where
  "SetUnKnownMsgHandle fuc_handle H = H\<lparr>mUnknownHandle := fuc_handle\<rparr>"

section \<open>\<open>CMsgDispatcher\<close>\<close>

text \<open>
  What the dispatcher uses of protobuf: parsing a request to its method and body, finding the descriptor
  of a type in the generated pool, its prototype, and parsing the body into a new message of it.
\<close>

record ('d, 'm) protobuf =
  parse_request :: "char list \<Rightarrow> (char list \<times> char list) option"
  FindMessageTypeByName :: "char list \<Rightarrow> 'd option"
  GetPrototype :: "'d \<Rightarrow> bool"
  New :: "'d \<Rightarrow> 'm"
  ParseFromArray :: "'m \<Rightarrow> char list \<Rightarrow> 'm"

text \<open>A delegate is the method it calls; the log has the calls with the client and the message.\<close>

record ('d, 'c) dispatcher =
  m_bCanceled :: bool
  m_callbacks :: "'d \<rightharpoonup> 'c"
  m_defaultCallback :: 'c

definition CMsgDispatcher :: "'c \<Rightarrow> ('d, 'c) dispatcher" where
  "CMsgDispatcher discard = \<lparr>m_bCanceled = False, m_callbacks = (\<lambda>_. None), m_defaultCallback = discard\<rparr>"

definition CancelDispatch :: "('d, 'c) dispatcher \<Rightarrow> ('d, 'c) dispatcher" where
  "CancelDispatch D = D\<lparr>m_bCanceled := True\<rparr>"

definition ResumeDispatch :: "('d, 'c) dispatcher \<Rightarrow> ('d, 'c) dispatcher" where
  "ResumeDispatch D = D\<lparr>m_bCanceled := False\<rparr>"

definition DispatchIsCanceled :: "('d, 'c) dispatcher \<Rightarrow> bool" where
  "DispatchIsCanceled D = m_bCanceled D"

definition registerMessageCallback :: "'d \<Rightarrow> 'c \<Rightarrow> ('d, 'c) dispatcher \<Rightarrow> ('d, 'c) dispatcher" where
  "registerMessageCallback descriptor d D = D\<lparr>m_callbacks := (m_callbacks D)(descriptor \<mapsto> d)\<rparr>"

text \<open>A message with its descriptor.\<close>

definition createMessage :: "('d, 'm) protobuf \<Rightarrow> char list \<Rightarrow> ('d \<times> 'm) option" where
  "createMessage B type_name =
     (case FindMessageTypeByName B type_name of
        None \<Rightarrow> None
      | Some d \<Rightarrow> if GetPrototype B d then Some (d, New B d) else None)"

definition Parse :: "('d, 'm) protobuf \<Rightarrow> char list \<Rightarrow> ('d \<times> 'm) option" where
  "Parse B pData =
     (if length pData < 4 then None
      else case parse_request B pData of
        None \<Rightarrow> None
      | Some (method, body) \<Rightarrow>
          (case createMessage B method of None \<Rightarrow> None | Some (d, m) \<Rightarrow> Some (d, ParseFromArray B m body)))"

text \<open>The result and the calls of delegates.\<close>

definition OnceDispatch ::
  "('d, 'm) protobuf \<Rightarrow> u32 \<Rightarrow> char list \<Rightarrow> ('d, 'c) dispatcher \<Rightarrow> bool \<times> ('c \<times> u32 \<times> 'm) list" where
  "OnceDispatch B lClientId pData D =
     (case Parse B pData of
        None \<Rightarrow> (False, [])
      | Some (d, m) \<Rightarrow>
          (True, [(case m_callbacks D d of Some c \<Rightarrow> c | None \<Rightarrow> m_defaultCallback D, lClientId, m)]))"

text \<open>The dispatcher of the gateway, with its two messages.\<close>

datatype gateway_call = discardProtobufMessage | OnSyncLoginInfo | OnSyncLoginOut

definition CMsgDispacher :: "'d \<Rightarrow> 'd \<Rightarrow> ('d, gateway_call) dispatcher" where
  "CMsgDispacher LoginInfo LoginOut =
     registerMessageCallback LoginOut OnSyncLoginOut
       (registerMessageCallback LoginInfo OnSyncLoginInfo (CMsgDispatcher discardProtobufMessage))"

section \<open>\<open>CServerConfig\<close>\<close>

record server_config_info =
  ServerId :: u32
  Prot :: u16
  MaxConct :: u32
  ServerName :: "char list"
  Ip :: "char list"

definition no_config_info :: server_config_info where
  "no_config_info = \<lparr>ServerId = 0, Prot = 0, MaxConct = 0, ServerName = [], Ip = []\<rparr>"

text \<open>What is used of RapidJSON; a look-up of a name that is not there and a value of another type are asserted against.\<close>

record 'v rapidjson =
  Document_Parse :: "char list \<Rightarrow> 'v"
  IsObject :: "'v \<Rightarrow> bool"
  member_names :: "'v \<Rightarrow> char list list"
  member_value :: "'v \<Rightarrow> char list \<Rightarrow> 'v option"
  GetInt :: "'v \<Rightarrow> u32 option"
  GetString :: "'v \<Rightarrow> char list option"

record server_config =
  m_ServerConfigInfo :: "u32 \<rightharpoonup> server_config_info"
  m_strServerConfigInfo :: "char list \<rightharpoonup> server_config_info"
  m_FilePath :: "char list"

definition SetConfigPath :: "char list \<Rightarrow> server_config \<Rightarrow> server_config" where
  "SetConfigPath filePath S = S\<lparr>m_FilePath := filePath\<rparr>"

definition read_info :: "'v rapidjson \<Rightarrow> 'v \<Rightarrow> server_config_info option" where
  "read_info R V = do {
     i \<leftarrow> Option.bind (member_value R V ''ServerId'') (GetInt R);
     n \<leftarrow> Option.bind (member_value R V ''ServerName'') (GetString R);
     a \<leftarrow> Option.bind (member_value R V ''Ip'') (GetString R);
     p \<leftarrow> Option.bind (member_value R V ''Prot'') (GetInt R);
     m \<leftarrow> Option.bind (member_value R V ''MaxConct'') (GetInt R);
     Some \<lparr>ServerId = i, Prot = ucast p, MaxConct = m, ServerName = n, Ip = a\<rparr> }"

definition add_info :: "server_config_info \<Rightarrow> server_config \<Rightarrow> server_config" where
  "add_info c S = S\<lparr>m_ServerConfigInfo := (m_ServerConfigInfo S)(ServerId c \<mapsto> c),
     m_strServerConfigInfo := (m_strServerConfigInfo S)(ServerName c \<mapsto> c)\<rparr>"

text \<open>A member is looked up by its name again.\<close>

fun load_members :: "'v rapidjson \<Rightarrow> 'v \<Rightarrow> char list list \<Rightarrow> server_config \<Rightarrow> server_config option" where
  "load_members R root [] S = Some S"
| "load_members R root (n # ns) S = do {
     V \<leftarrow> member_value R root n;
     c \<leftarrow> read_info R V;
     load_members R root ns (add_info c S) }"

text \<open>\<open>read\<close> gives the content of a file, the empty text when it cannot be opened.\<close>

definition CServerConfig_Init :: "'v rapidjson \<Rightarrow> (char list \<Rightarrow> char list) \<Rightarrow> server_config \<Rightarrow> (bool \<times> server_config) option" where
  "CServerConfig_Init R read S =
     (if m_FilePath S = [] then Some (False, S)
      else do {
        root \<leftarrow> member_value R (Document_Parse R (c_str (read (m_FilePath S)))) ''root'';
        if IsObject R root then map_option (Pair True) (load_members R root (member_names R root) S)
        else Some (True, S) })"

definition CServerConfig :: "'v rapidjson \<Rightarrow> (char list \<Rightarrow> char list) \<Rightarrow> server_config option" where
  "CServerConfig R read =
     map_option snd (CServerConfig_Init R read (SetConfigPath ''../ServerData/ServerConfig.json''
       \<lparr>m_ServerConfigInfo = (\<lambda>_. None), m_strServerConfigInfo = (\<lambda>_. None), m_FilePath = []\<rparr>))"

definition GetServerInfoByServerId :: "u32 \<Rightarrow> server_config \<Rightarrow> server_config_info" where
  "GetServerInfoByServerId nId S = (case m_ServerConfigInfo S nId of None \<Rightarrow> no_config_info | Some c \<Rightarrow> c)"

definition GetServerInfoByServerName :: "char list \<Rightarrow> server_config \<Rightarrow> server_config_info" where
  "GetServerInfoByServerName n S = (case m_strServerConfigInfo S n of None \<Rightarrow> no_config_info | Some c \<Rightarrow> c)"

section \<open>Starting the gateway\<close>

text \<open>
  \<open>CServiceBase::Start\<close> returns true whatever the manager does; \<open>valid_ip\<close> says for which texts
  \<open>address_v4::from_string\<close> does not throw.  The port only goes to Boost.Asio.
\<close>

definition CServiceBase_Start ::
  "(char list \<Rightarrow> bool) \<Rightarrow> char list \<Rightarrow> u32 \<Rightarrow> u32 \<Rightarrow> bool \<Rightarrow> connections \<Rightarrow> (bool \<times> connections) option" where
  "CServiceBase_Start valid_ip strListenIp nPort nMaxConn dispatcher C =
     (if \<not> dispatcher then Some (False, C)
      else if \<not> valid_ip strListenIp then None
      else map_option (\<lambda>r. (True, snd r)) (NetManager_Start nMaxConn C))"

definition CGameService_Init ::
  "(char list \<Rightarrow> bool) \<Rightarrow> server_config \<Rightarrow> connections \<Rightarrow> (bool \<times> connections) option" where
  "CGameService_Init valid_ip S C =
     (let sClf = GetServerInfoByServerName ''GatWay'' S in
      CServiceBase_Start valid_ip (Ip sClf) (ucast (Prot sClf)) (MaxConct sClf) True C)"


section \<open>Properties\<close>

text \<open>A message type is stored where it belongs, and only types in the range of the table can be.\<close>

lemma RegisterMsgFunc_range:
  "RegisterMsgFunc t h b H \<noteq> None \<longleftrightarrow> in_int (t - mBase H) \<and> mBase H \<le> t \<and> t < mBase H + int (length (mNodes H))"
  "RegisterMsgFunc t h b H = Some H' \<Longrightarrow> mBase H' = mBase H \<and> length (mNodes H') = length (mNodes H)
     \<and> mNodes H' ! nat (t - mBase H) = \<lparr>mHandle = h, mIsInitMsg = b\<rparr>
     \<and> (\<forall>k. k \<noteq> nat (t - mBase H) \<longrightarrow> mNodes H' ! k = mNodes H ! k)"
  by (auto simp: RegisterMsgFunc_def Let_def poke_def split: if_splits)




definition small_protobuf :: "(nat, char list) protobuf" where
  "small_protobuf = \<lparr>parse_request = (\<lambda>b. Some (take 4 b, drop 4 b)),
     FindMessageTypeByName = (\<lambda>n. if n = ''info'' then Some 0 else None), GetPrototype = (\<lambda>_. True),
     New = (\<lambda>_. []), ParseFromArray = (\<lambda>m b. m @ b)\<rparr>"


text \<open>The maps behind the loop over the members.\<close>

lemma load_members_maps:
  "map (\<lambda>n. Option.bind (member_value R root n) (read_info R)) ns = map Some cs \<Longrightarrow>
   \<exists>S'. load_members R root ns S = Some S'
     \<and> m_ServerConfigInfo S' = m_ServerConfigInfo S ++ map_of (map (\<lambda>c. (ServerId c, c)) (rev cs))
     \<and> m_strServerConfigInfo S' = m_strServerConfigInfo S ++ map_of (map (\<lambda>c. (ServerName c, c)) (rev cs))"
proof (induction ns arbitrary: S cs)
  case (Cons n ns)
  then obtain c ds where cs: "cs = c # ds" by (cases cs) auto
  with Cons.prems obtain V where V: "member_value R root n = Some V" "read_info R V = Some c"
    by (auto split: Option.bind_splits)
  have "\<exists>S'. load_members R root ns (add_info c S) = Some S'
     \<and> m_ServerConfigInfo S' = m_ServerConfigInfo (add_info c S) ++ map_of (map (\<lambda>c. (ServerId c, c)) (rev ds))
     \<and> m_strServerConfigInfo S' = m_strServerConfigInfo (add_info c S) ++ map_of (map (\<lambda>c. (ServerName c, c)) (rev ds))"
    by (rule Cons.IH) (use Cons.prems cs in simp)
  with V cs show ?case by (auto simp: add_info_def map_add_assoc [symmetric])
qed simp

lemma map_of_find: "map_of (map (\<lambda>c. (f c, c)) cs) k = find (\<lambda>c. f c = k) cs"
  by (induction cs) auto

text \<open>
  C26: a configuration file whose members can all be read is loaded; a look-up by identifier or by name gives
  the last member with it, and what was known before when there is none: members that share an identifier
  hide each other in one map and not in the other.
\<close>

theorem config_last_member:
  assumes "m_FilePath S \<noteq> []" "member_value R (Document_Parse R (c_str (readf (m_FilePath S)))) ''root'' = Some root" "IsObject R root"
    and "map (\<lambda>n. Option.bind (member_value R root n) (read_info R)) (member_names R root) = map Some cs"
  shows "\<exists>S'. CServerConfig_Init R readf S = Some (True, S')
    \<and> (\<forall>i. GetServerInfoByServerId i S' = (case find (\<lambda>c. ServerId c = i) (rev cs) of Some c \<Rightarrow> c | None \<Rightarrow> GetServerInfoByServerId i S))
    \<and> (\<forall>n. GetServerInfoByServerName n S' = (case find (\<lambda>c. ServerName c = n) (rev cs) of Some c \<Rightarrow> c | None \<Rightarrow> GetServerInfoByServerName n S))"
proof -
  obtain S' where "load_members R root (member_names R root) S = Some S'"
    "m_ServerConfigInfo S' = m_ServerConfigInfo S ++ map_of (map (\<lambda>c. (ServerId c, c)) (rev cs))"
    "m_strServerConfigInfo S' = m_strServerConfigInfo S ++ map_of (map (\<lambda>c. (ServerName c, c)) (rev cs))"
    using load_members_maps [OF assms(4), of S] by blast
  with assms(1-3) show ?thesis
    by (auto simp: CServerConfig_Init_def GetServerInfoByServerId_def GetServerInfoByServerName_def map_add_def map_of_find
        split: option.split)
qed

text \<open>The configuration in \<open>src/ServerData/ServerConfig.json\<close>, and values of which RapidJSON could have made it.\<close>

datatype config_value = Number u32 | Text "char list" | Object "(char list \<times> config_value) list"

definition config_entry :: "char list \<Rightarrow> u32 \<Rightarrow> char list \<Rightarrow> u32 \<Rightarrow> config_value" where
  "config_entry n i a p = Object [(''ServerName'', Text n), (''ServerId'', Number i), (''Ip'', Text a), (''Prot'', Number p), (''MaxConct'', Number 20)]"

definition shipped_config :: config_value where
  "shipped_config = Object [(''root'', Object [(''GatWay'', config_entry ''GatWay'' 1 ''0.0.0.0'' 28880),
     (''ServerTest'', config_entry ''ServerTest'' 2 ''0.0.0.0'' 28881), (''ClientTest'', config_entry ''ClientTest'' 1 ''127.0.0.1'' 28880)])]"

fun object_members :: "config_value \<Rightarrow> (char list \<times> config_value) list" where
  "object_members (Object ms) = ms"
| "object_members _ = []"

definition shipped_json :: "config_value rapidjson" where
  "shipped_json = \<lparr>Document_Parse = (\<lambda>_. shipped_config), IsObject = (\<lambda>v. case v of Object _ \<Rightarrow> True | _ \<Rightarrow> False),
     member_names = (\<lambda>v. map fst (object_members v)), member_value = (\<lambda>v. map_of (object_members v)),
     GetInt = (\<lambda>v. case v of Number i \<Rightarrow> Some i | _ \<Rightarrow> None), GetString = (\<lambda>v. case v of Text s \<Rightarrow> Some s | _ \<Rightarrow> None)\<rparr>"

definition config_path :: server_config where
  "config_path = SetConfigPath ''../ServerData/ServerConfig.json'' \<lparr>m_ServerConfigInfo = (\<lambda>_. None), m_strServerConfigInfo = (\<lambda>_. None), m_FilePath = []\<rparr>"

definition shipped_infos :: "server_config_info list" where
  "shipped_infos = [\<lparr>ServerId = 1, Prot = 28880, MaxConct = 20, ServerName = ''GatWay'', Ip = ''0.0.0.0''\<rparr>,
     \<lparr>ServerId = 2, Prot = 28881, MaxConct = 20, ServerName = ''ServerTest'', Ip = ''0.0.0.0''\<rparr>,
     \<lparr>ServerId = 1, Prot = 28880, MaxConct = 20, ServerName = ''ClientTest'', Ip = ''127.0.0.1''\<rparr>]"

theorem config_last_member_witness:
  "\<exists>S. CServerConfig_Init shipped_json (\<lambda>_. []) config_path = Some (True, S)
    \<and> ServerName (GetServerInfoByServerId 1 S) = ''ClientTest'' \<and> ServerId (GetServerInfoByServerName ''GatWay'' S) = 1"
proof -
  have 1: "m_FilePath config_path \<noteq> []" by (simp add: config_path_def SetConfigPath_def)
  let ?root = "Object [(''GatWay'', config_entry ''GatWay'' 1 ''0.0.0.0'' 28880),
     (''ServerTest'', config_entry ''ServerTest'' 2 ''0.0.0.0'' 28881), (''ClientTest'', config_entry ''ClientTest'' 1 ''127.0.0.1'' 28880)]"
  have 2: "member_value shipped_json (Document_Parse shipped_json (c_str ((\<lambda>_. []) (m_FilePath config_path)))) ''root'' = Some ?root"
    by (simp add: shipped_json_def shipped_config_def)
  have 3: "IsObject shipped_json ?root" by (simp add: shipped_json_def)
  have 4: "map (\<lambda>n. Option.bind (member_value shipped_json ?root n) (read_info shipped_json)) (member_names shipped_json ?root) = map Some shipped_infos"
    by (simp add: shipped_json_def read_info_def config_entry_def shipped_infos_def)
  from config_last_member [OF 1 2 3 4] show ?thesis by (auto simp: shipped_infos_def)
qed

text \<open>
  C21: the gateway starts its server with what the configuration says of the name GatWay; from then on,
  whatever happens on the network, no more connections are announced than its limit, each identifier once.
\<close>

theorem gateway_capacity:
  assumes "CGameService_Init valid_ip S CNetManager = Some (r, C)" "rtranclp net_step C C'"
  shows "r \<and> valid_ip (Ip (GetServerInfoByServerName ''GatWay'' S))
    \<and> distinct (announced C') \<and> length (announced C') \<le> unat (MaxConct (GetServerInfoByServerName ''GatWay'' S))"
proof -
  let ?n = "MaxConct (GetServerInfoByServerName ''GatWay'' S)"
  from assms(1) obtain q where s: "NetManager_Start ?n CNetManager = Some (q, C)" "r" "valid_ip (Ip (GetServerInfoByServerName ''GatWay'' S))"
    by (auto simp: CGameService_Init_def CServiceBase_Start_def Let_def split: if_splits)
  have "reachable ?n C'"
    using assms(2)
  proof (induction rule: rtranclp_induct)
    case base
    show ?case by (rule reachable.start [OF s(1)])
  next
    case (step D D')
    then show ?case by (blast intro: reachable.step)
  qed
  from reachable_announced [OF this] s(2,3) show ?thesis by simp
qed

theorem gateway_capacity_witness:
  "\<exists>S C. CGameService_Init (\<lambda>_. True) S CNetManager = Some (True, C) \<and> length (announced C) \<le> 20"
proof -
  let ?S = "add_info (hd shipped_infos) config_path"
  obtain C where C: "NetManager_Start 20 CNetManager = Some (True, C)" using start_server [of 20] by auto
  have n: "MaxConct (GetServerInfoByServerName ''GatWay'' ?S) = 20"
    by (simp add: GetServerInfoByServerName_def add_info_def shipped_infos_def)
  have i: "CGameService_Init (\<lambda>_. True) ?S CNetManager = Some (True, C)"
    using C by (simp add: CGameService_Init_def CServiceBase_Start_def Let_def n)
  from gateway_capacity [OF i rtranclp.rtrancl_refl] n i show ?thesis by (intro exI [of _ ?S] exI [of _ C]) simp
qed

end
