(* ===== verification/Spec2Isabelle.thy ===== *)
theory Spec2Isabelle
  imports Sha1 Base64 HttpUrl HttpRun HttpParameter JsonText JsonStream JsonSaxy ServiceQueue Gateway
begin

text \<open>
  \<^bold>\<open>The program.\<close>  A gateway server for websocket clients, written in C and C++.  Boost.Asio delivers bytes to the
  sessions; a session answers the websocket handshake, cuts what follows into frames and hands each frame, in a
  buffer of a pool, to the service; the service queues it, and the main loop of the gateway takes the queue
  and gives every packet to a dispatcher.  Beside this path the engine has an HTTP parser (which the handshake
  uses), SHA-1 and Base64 (for the answer), a JSON library with an incremental parser, printers and an event
  parser, request parameters, and a configuration that is read at the start.

  \<^bold>\<open>Parts and theories\<close>, with the files under \<open>src/\<close> they model:

  \<^item> \<open>Prelude\<close>: machine integers under their C names, memory accesses that can fail (\<open>peek\<close>, \<open>poke\<close>), C strings,
    \<open>atoi\<close>, and the facts on lists, words and characters that are shared.
  \<^item> \<open>Sha1\<close>, \<open>Base64\<close> (\<open>ServerEngine/crypt/sha1.c\<close>, \<open>base64_encoder.c\<close>).
  \<^item> \<open>HttpTypes\<close>, \<open>HttpUrl\<close>, \<open>HttpExec\<close>, \<open>HttpSafety\<close>, \<open>HttpRun\<close>, \<open>HttpWorld\<close>
    (\<open>ServerEngine/http_parser/http_parser.h\<close>, \<open>http_parser.c\<close>): data and tables, the URL parser, one definition per case
    of the switch of \<open>http_parser_execute\<close>, its invariant, its runs, and what its callbacks keep.
  \<^item> \<open>HttpParameter\<close> (\<open>ServerEngine/baseinet/HttpParameter.cpp\<close>, \<open>Common/CommonFunc.cpp\<close>).
  \<^item> \<open>RcString\<close>, \<open>JsonText\<close>, \<open>JsonTree\<close>, \<open>JsonFree\<close>, \<open>JsonPrint\<close>, \<open>JsonLex\<close>, \<open>JsonParse\<close>, \<open>JsonFragment\<close>, \<open>JsonDocument\<close>,
    \<open>JsonStream\<close>, \<open>JsonSaxy\<close> (\<open>ServerEngine/mjson/json.c\<close>, \<open>json.h\<close>, \<open>json_extends.c\<close>, and the JSON functions of
    \<open>baseinet/CHttpParser.h\<close>): string buffers; escaping and formatting; nodes in a store, with their insertion and release;
    both printers; lexer and parser, one definition per state; their invariant; RFC 8259 texts and documents; files;
    the event parser.
  \<^item> \<open>DataBuffer\<close> (\<open>Common/DataBuffer.h\<close>, \<open>DataBuffer.cpp\<close>): the buffer pools over a store of buffers.
  \<^item> \<open>WsFrame\<close>, \<open>NetSession\<close>, \<open>Handshake\<close> (\<open>baseinet/CHttpParser.h\<close>, \<open>CNetSession .cpp\<close>): frames, the receive buffer with
    \<open>ExtractBuffer\<close>, and the handshake with \<open>HandleRecvEvent\<close>.
  \<^item> \<open>NetManager\<close>, \<open>NetAccept\<close> (\<open>CNetSession .cpp\<close>, \<open>CNetManager.cpp\<close>): session pool, packet headers, sending; starting,
    accepting and connecting.
  \<^item> \<open>ServiceQueue\<close> (\<open>CServiceBase.cpp\<close>): the two queues and \<open>Update\<close>.
  \<^item> \<open>Gateway\<close> (\<open>Gateway/*.cpp\<close>, \<open>ServerEngine/CServerConfig.cpp\<close>): message table, dispatcher, configuration and start.

  Records have the fields of the structs and classes, datatypes the constants of the enums, definitions the
  names of the functions; what the code does in a branch of a long function is a definition of its own, named
  after the state or the branch.

  \<^bold>\<open>Conventions.\<close>  A C integer is a word of its width, a byte string a list of characters, a pointer an
  address into an explicit store where the code shares objects, and a position in its buffer where it walks one.
  \<open>None\<close> is undefined behaviour: a failed assertion, a null or dangling pointer, an access outside a buffer,
  the overflow of a signed conversion, or a wait without end; an error the code reports is a value of its own
  error type.  Allocation is taken to succeed.  The code is compiled for 64-bit pointers, with
  \<open>HTTP_PARSER_STRICT\<close>, and \<open>char\<close> is signed.

  \<^bold>\<open>Interfaces.\<close>  \<open>benign_settings\<close> and \<open>keeping_settings\<close> are the contracts of \<open>http_parser_execute\<close> with its
  callbacks, interpreted on the callbacks of the handshake; \<open>string_buffer\<close> is what the JSON code relies on of
  its string buffers; \<open>sink\<close> is where a printer writes, interpreted on string buffers and on files;
  \<open>buffer_source\<close> is what the sessions rely on of the allocator; \<open>packet_sink\<close> is the contract of the data handler,
  interpreted on the service queue; \<open>typed_parameters\<close> is what reading a typed parameter back needs of the
  map and the conversions, interpreted for both integer types.  The states of the HTTP parser are a linear
  order by their numbers in the enum, as the code compares them.

  \<^bold>\<open>What the groups of lemmas show.\<close>
  \<^item> Safety of the receive path: that a session handles whatever arrives (\<open>Handshake\<close>) rests on the refinement of
    \<open>ExtractBuffer\<close> by a deframer on byte strings (\<open>NetSession\<close>), on the safety of \<open>http_parser_execute\<close> after any
    history (\<open>HttpRun\<close>) and on the pool invariant (\<open>DataBuffer\<close>); \<open>ServiceQueue\<close> follows a frame from the receive
    buffer to the dispatcher, and orders the packets in every interleaving of the threads.
  \<^item> Codecs against their standards: SHA-1 after FIPS 180-1, Base64 after RFC 4648, websocket frames and the
    accept value after RFC 6455, JSON texts after RFC 8259.
  \<^item> JSON: the parser keeps a well-formed open tree on every text in however many fragments, accepts all objects,
    and reads back what either printer writes; releasing a node frees exactly its subtree; reading a file ends.
    The event parser is shown to be safe outside of strings and never to report a string.
  \<^item> Connections: in every run of accepts and connects the announced identifiers are distinct and within the
    limit, which \<open>Gateway\<close> traces to the configuration; at the limit accepting ends for good.
  \<^item> Many theorems record what the code does where it does not do what it means to: byte order of frame
    lengths, the capacity of the largest pool, the second packet of a receive, integers and strings of the event
    parser, parameters that are never overwritten, and others.

  \<^bold>\<open>Bounds and fuel.\<close>  \<open>http_parser_execute\<close> runs with the fuel \<open>exec_fuel\<close>, eight times the length of the data and
  eight more; \<open>HttpRun\<close> shows that \<open>config_measure\<close> starts below it and falls with every step, so a run never ends
  for lack of fuel.  The walks over JSON trees (\<open>print_run\<close>, \<open>free_loop\<close>, the loops over siblings), over lists of buffers
  (\<open>delete_list\<close>) and the loop of \<open>ExtractBuffer\<close> are partial functions, \<open>None\<close> when they do not return, and are
  shown to return on well-formed trees, pools and sessions.  The other loops recurse with a
  measure on what is left to read.  SHA-1 is proved for messages below \<open>2 ^ 29\<close> bytes, behind which the code
  itself miscounts; the session for a receive buffer of \<open>RECV_BUF_SIZE\<close> bytes; the allocator up to 10383360 bytes, the
  size its largest pool has.

  \<^bold>\<open>Not modelled.\<close>
  \<^item> Boost.Asio, protobuf and RapidJSON (\<open>3rdParty\<close>) and the code protoc generates (\<open>ProtobufMsg\<close>): parameters, or
    steps that deliver what they may deliver.
  \<^item> Output on the console and on stderr, \<open>PrintOutList\<close>, \<open>rcs_free\<close> and the destructors, which only release memory.
  \<^item> Conversions of floating-point values (\<open>StringToFloat\<close>, \<open>FloatToString\<close> and the parameters of this type), whose
    results the C library rounds and prints in ways the code does not fix.
  \<^item> The directory functions of Windows in \<open>CommonFunc.cpp\<close>, the main programs and the test client, which only
    call what is modelled here, and the platform headers.
  \<^item> Weak memory: what runs under a lock is one step, and the reference counts of buffers are read and written
    atomically.
\<close>

end
